(* ===== verification/Prelude.thy ===== *)
theory Prelude
  imports Main "HOL-Library.Word" "HOL-Library.Monad_Syntax"
begin

text \<open>
  Shared vocabulary of the FluxGate development: the machine integer types of the C++ sources at
  their width, exceptions as values, and the generic lemmas on words and lists that the component
  theories use. The collections \<open>os_simps\<close> and \<open>config_simps\<close> are filled by the theories that own
  the definitions.
\<close>

unbundle bit_operations_syntax

named_theorems os_simps \<open>unfolding of the system call wrappers\<close>
named_theorems config_simps \<open>unfolding of the configuration setters\<close>

section \<open>Types\<close>

type_synonym size_t = "64 word"
type_synonym u64 = "64 word"
type_synonym u32 = "32 word"
type_synonym u16 = "16 word"
type_synonym byte = "8 word"
type_synonym fd = int

text \<open>
  Exceptions: \<open>RuntimeError m\<close> is \<^verbatim>\<open>std::runtime_error(m)\<close>, \<open>SystemError a e\<close> is the
  \<^verbatim>\<open>std::runtime_error\<close> whose text is \<open>a\<close>, a colon and \<^verbatim>\<open>strerror(e)\<close>.
\<close>

datatype exn = RuntimeError string | SystemError string int

type_synonym 'a result = "exn + 'a"

section \<open>Words\<close>

lemma unat_plus_no_wrap:
  fixes a b :: "64 word"
  assumes "unat a + unat b < 2 ^ 64"
  shows "unat (a + b) = unat a + unat b"
  using assms by (simp add: unat_word_ariths)

lemma unat_minus_no_wrap:
  fixes a b :: "64 word"
  assumes "unat b \<le> unat a"
  shows "unat (a - b) = unat a - unat b"
  using assms by (simp add: unat_sub word_le_nat_alt)

lemma unat_mult_no_wrap:
  fixes a b :: "64 word"
  assumes "unat a * unat b < 2 ^ 64"
  shows "unat (a * b) = unat a * unat b"
  using assms by (simp add: unat_word_ariths)

lemma unat_of_nat_64 [simp]: "n < 2 ^ 64 \<Longrightarrow> unat (of_nat n :: 64 word) = n"
  by (simp add: unat_of_nat take_bit_nat_eq_self)

lemma unat_size_zero_iff: "(a :: 64 word) = 0 \<longleftrightarrow> unat a = 0"
  by (simp add: unat_eq_0)

text \<open>Testing a mask that is a union of flags.\<close>

lemma and_or_eq_0_iff:
  fixes e a b :: "'a :: len word"
  shows "e AND (a OR b) = 0 \<longleftrightarrow> e AND a = 0 \<and> e AND b = 0"
  by (simp add: bit.conj_disj_distrib or_eq_0_iff)

section \<open>Sums as results\<close>

lemma result_case_Inr:
  "(case r of Inl e \<Rightarrow> Inl e | Inr x \<Rightarrow> f x) = Inr y \<longleftrightarrow> (\<exists>x. r = Inr x \<and> f x = Inr y)"
  by (cases r) auto

lemma result_case_Inl:
  "(case r of Inl e \<Rightarrow> Inl e | Inr x \<Rightarrow> f x) = Inl e'
     \<longleftrightarrow> r = Inl e' \<or> (\<exists>x. r = Inr x \<and> f x = Inl e')"
  by (cases r) auto

section \<open>Characters and decimal text\<close>

text \<open>
  \<^verbatim>\<open>std::tolower\<close> and \<^verbatim>\<open>std::isspace\<close> in the C locale, which the program never changes, and
  \<^verbatim>\<open>std::to_string\<close> of an unsigned and of a signed integer.
\<close>

definition tolower :: "char \<Rightarrow> char" where
  "tolower c = (let n = (of_char c :: nat) in if 65 \<le> n \<and> n \<le> 90 then char_of (n + 32) else c)"

definition isspace :: "char \<Rightarrow> bool" where
  "isspace c = (let n = (of_char c :: nat) in n = 32 \<or> (9 \<le> n \<and> n \<le> 13))"

fun nat_to_string :: "nat \<Rightarrow> string" where
  "nat_to_string n =
     (if n < 10 then [char_of (48 + n)]
      else nat_to_string (n div 10) @ [char_of (48 + n mod 10)])"

declare nat_to_string.simps [simp del]

definition int_to_string :: "int \<Rightarrow> string" where
  "int_to_string i = (if i < 0 then CHR ''-'' # nat_to_string (nat (- i)) else nat_to_string (nat i))"

lemma tolower_idem [simp]: "tolower (tolower c) = tolower c"
  by (simp add: tolower_def Let_def of_char_of)

lemma isspace_tolower [simp]: "isspace (tolower c) = isspace c"
  by (simp add: isspace_def tolower_def Let_def of_char_of)

lemma nat_to_string_nonempty [simp]: "nat_to_string n \<noteq> []"
  by (subst nat_to_string.simps) simp

section \<open>Lists\<close>

lemma takeWhile_stop: "\<not> P c \<Longrightarrow> takeWhile P (xs @ c # ys) = takeWhile P xs"
  by (induction xs) simp_all

lemma drop_take_split:
  "i \<le> j \<Longrightarrow> j \<le> length xs \<Longrightarrow> drop i xs = take (j - i) (drop i xs) @ drop j xs"
  by (metis append_take_drop_id drop_drop le_add_diff_inverse2)

section \<open>Endless loops\<close>

text \<open>
  \<^verbatim>\<open>for (;;)\<close>: the body returns (\<open>Inl\<close>) or goes on (\<open>Inr\<close>). A loop that never returns is \<open>None\<close>. The two rules
  are partial correctness by an invariant, and termination by a well-founded relation.
\<close>

partial_function (option) forever :: "('s \<Rightarrow> 'r + 's) \<Rightarrow> 's \<Rightarrow> 'r option" where
  "forever body s = (case body s of Inl x \<Rightarrow> Some x | Inr s' \<Rightarrow> forever body s')"

declare forever.simps [code]

lemma forever_rule:
  assumes "forever body s = Some x" "I s"
    and ret: "\<And>s x. I s \<Longrightarrow> body s = Inl x \<Longrightarrow> R s x"
    and inv: "\<And>s s'. I s \<Longrightarrow> body s = Inr s' \<Longrightarrow> I s'"
    and step: "\<And>s s' x. I s \<Longrightarrow> body s = Inr s' \<Longrightarrow> R s' x \<Longrightarrow> R s x"
  shows "R s x"
proof -
  have "body = body \<longrightarrow> I s \<longrightarrow> R s x"
  proof (rule forever.raw_induct [where P = "\<lambda>b s x. b = body \<longrightarrow> I s \<longrightarrow> R s x", OF _ assms(1)], intro impI)
    fix loop b s x
    assume IH: "\<And>b s x. loop b s = Some x \<Longrightarrow> b = body \<longrightarrow> I s \<longrightarrow> R s x"
      and eq: "(case b s of Inl x \<Rightarrow> Some x | Inr s' \<Rightarrow> loop b s') = Some x" and "b = body" "I s"
    then show "R s x" using inv [of s] step [of s] IH [of body] by (cases "body s") (auto intro: ret)
  qed
  then show ?thesis using assms(2) by simp
qed

lemma forever_terminates:
  assumes "wf r" "I s" and step: "\<And>s s'. I s \<Longrightarrow> body s = Inr s' \<Longrightarrow> I s' \<and> (s', s) \<in> r"
  shows "\<exists>x. forever body s = Some x"
  using assms(1,2)
proof (induction s rule: wf_induct_rule)
  case (less s)
  then show ?case using step [of s] by (cases "body s") (auto simp: forever.simps [of body s])
qed

end
