(* ===== verification/Logger.thy ===== *)
theory Logger
  imports Prelude
begin

text \<open>
  The process-wide logger (\<^verbatim>\<open>Logger.h\<close>, \<^verbatim>\<open>Logger.cpp\<close>): levels, the threshold test, the text of one
  line and the parsing of a level name. \<^verbatim>\<open>printf\<close> formatting of the message body, the local time and
  the mutex are outside the model: \<open>vlog\<close> takes the formatted message and the timestamp text, and
  returns what it writes to standard error.
\<close>

section \<open>Levels\<close>

datatype LogLevel = Debug | Info | Warn | Error

fun level_value :: "LogLevel \<Rightarrow> int" where
  "level_value Debug = 0"
| "level_value Info = 1"
| "level_value Warn = 2"
| "level_value Error = 3"

lemma level_value_inject: "level_value a = level_value b \<longleftrightarrow> a = b"
  by (cases a; cases b) simp_all

instantiation LogLevel :: linorder
begin

definition less_eq_LogLevel :: "LogLevel \<Rightarrow> LogLevel \<Rightarrow> bool" where
  "a \<le> b \<longleftrightarrow> level_value a \<le> level_value b"

definition less_LogLevel :: "LogLevel \<Rightarrow> LogLevel \<Rightarrow> bool" where
  "a < b \<longleftrightarrow> level_value a < level_value b"

instance
  by standard (auto simp: less_eq_LogLevel_def less_LogLevel_def level_value_inject)

end

lemmas level_order = less_eq_LogLevel_def less_LogLevel_def

fun levelName :: "LogLevel \<Rightarrow> string" where
  "levelName Debug = ''DEBUG''"
| "levelName Info = ''INFO''"
| "levelName Warn = ''WARN''"
| "levelName Error = ''ERROR''"

section \<open>The base name of a source file\<close>

text \<open>\<open>current\<close> and \<open>result\<close> are the two pointers of the loop, as the strings they point to.\<close>

fun baseName_loop :: "string \<Rightarrow> string \<Rightarrow> string" where
  "baseName_loop [] result = result"
| "baseName_loop (c # current) result =
     baseName_loop current (if c = CHR ''/'' then current else result)"

definition baseName :: "string \<Rightarrow> string" where
  "baseName path = baseName_loop path path"

definition logger_lower :: "string \<Rightarrow> string" where
  "logger_lower value = map tolower value"

section \<open>The logger object\<close>

record Logger =
  lg_level :: LogLevel

definition Logger_new :: Logger where
  "Logger_new = \<lparr> lg_level = Info \<rparr>"

definition setLevel :: "LogLevel \<Rightarrow> Logger \<Rightarrow> Logger" where
  "setLevel level lg = lg\<lparr> lg_level := level \<rparr>"

definition Logger_level :: "Logger \<Rightarrow> LogLevel" where
  "Logger_level lg = lg_level lg"

text \<open>\<^verbatim>\<open>%-5s\<close>: left justified, padded with blanks to five columns.\<close>

definition pad5 :: "string \<Rightarrow> string" where
  "pad5 s = s @ replicate (5 - length s) (CHR '' '')"

definition vlog :: "Logger \<Rightarrow> LogLevel \<Rightarrow> string \<Rightarrow> int \<Rightarrow> string \<Rightarrow> string \<Rightarrow> string" where
  "vlog lg level file line timestamp message =
     (if level_value level < level_value (lg_level lg) then []
      else ''['' @ timestamp @ ''] ['' @ pad5 (levelName level) @ ''] ['' @ baseName file @ '':''
             @ int_to_string line @ ''] '' @ message @ [char_of (10 :: nat)])"

definition parseLevel :: "string \<Rightarrow> LogLevel result" where
  "parseLevel value =
     (let normalized = logger_lower value in
      if normalized = ''debug'' then Inr Debug
      else if normalized = ''info'' then Inr Info
      else if normalized = ''warn'' \<or> normalized = ''warning'' then Inr Warn
      else if normalized = ''error'' then Inr Error
      else Inl (RuntimeError (''unsupported log level: '' @ value)))"

section \<open>Properties\<close>

lemma takeWhile_rev_Cons:
  "rev (takeWhile P (rev (c # p))) =
     (if \<forall>x\<in>set p. P x then (if P c then c # p else p) else rev (takeWhile P (rev p)))"
  by (auto simp: takeWhile_append)

lemma takeWhile_no_slash:
  "CHR ''/'' \<notin> set p \<Longrightarrow> takeWhile (\<lambda>c. c \<noteq> CHR ''/'') (rev p) = rev p"
  unfolding takeWhile_eq_all_conv set_rev by metis

lemma baseName_loop_eq:
  "baseName_loop p r =
     (if CHR ''/'' \<in> set p then rev (takeWhile (\<lambda>c. c \<noteq> CHR ''/'') (rev p)) else r)"
proof (induction p arbitrary: r)
  case Nil
  show ?case by simp
next
  case (Cons c p)
  have all: "(\<forall>x\<in>set p. x \<noteq> CHR ''/'') \<longleftrightarrow> CHR ''/'' \<notin> set p" by auto
  show ?case
    unfolding baseName_loop.simps Cons.IH takeWhile_rev_Cons all
    by (simp add: takeWhile_no_slash)
qed

lemma baseName_eq: "baseName p = rev (takeWhile (\<lambda>c. c \<noteq> CHR ''/'') (rev p))"
  by (simp add: baseName_def baseName_loop_eq takeWhile_no_slash)

lemma baseName_no_slash: "CHR ''/'' \<notin> set (baseName p)"
  by (auto simp: baseName_eq dest: set_takeWhileD)

lemma baseName_strips_dir:
  "CHR ''/'' \<notin> set name \<Longrightarrow> baseName (dir @ CHR ''/'' # name) = name"
  by (auto simp: baseName_eq takeWhile_append takeWhile_eq_all_conv)

text \<open>A message is written exactly when its level reaches the threshold.\<close>

lemma vlog_written_iff: "vlog lg lv file line ts msg \<noteq> [] \<longleftrightarrow> lg_level lg \<le> lv"
  by (auto simp: vlog_def less_eq_LogLevel_def)

lemma parseLevel_case_insensitive: "parseLevel (map tolower v) = Inr l \<longleftrightarrow> parseLevel v = Inr l"
  by (simp add: parseLevel_def logger_lower_def Let_def comp_def)

lemma parseLevel_levelName: "parseLevel (levelName l) = Inr l"
  by (cases l; hypsubst; code_simp)

text \<open>The logger filters by level and prints one line: a message below the current threshold produces nothing; any
  other produces its timestamp, padded level, the file name without directories, the line number and the text.\<close>

lemma vlog_filters:
  "vlog (setLevel threshold lg) lv (dir @ CHR ''/'' # name) line ts msg =
     (if lv < threshold then []
      else ''['' @ ts @ ''] ['' @ pad5 (levelName lv) @ ''] ['' @ baseName name @ '':'' @ int_to_string line @ ''] '' @ msg
        @ [char_of (10 :: nat)])"
  by (simp add: vlog_def setLevel_def less_LogLevel_def baseName_eq takeWhile_stop)

text \<open>Level names round-trip: every level's printed name, in any letter case, parses back to that level.\<close>

lemma parseLevel_roundtrip:
  assumes "map tolower v = map tolower (levelName l)"
  shows "parseLevel v = Inr l"
proof -
  have "parseLevel (map tolower (levelName l)) = Inr l" by (simp add: parseLevel_case_insensitive parseLevel_levelName)
  then show ?thesis by (simp add: assms [symmetric] parseLevel_case_insensitive)
qed

end
