(* ===== verification/OS.thy ===== *)
theory OS
  imports Logger
begin

text \<open>
  The operating system as the program sees it. No system call is given a definition: a \<open>kernel\<close> is a
  parameter of every definition that performs one, and its answer may depend on the whole history of
  calls, so a theorem about all kernels covers every behaviour of the environment. What the code relies
  on (documented in the Linux manual pages) is stated as the named predicates at the end of the theory
  and appears as hypothesis where it is used.

  The history \<open>os\<close> is the list of the calls made so far with their answers, oldest first. It is what
  the theorems about bytes, descriptors and shutdowns speak of.
\<close>

section \<open>Error numbers and event flags (Linux)\<close>

type_synonym errno = int

abbreviation EINTR :: errno where "EINTR \<equiv> 4"
abbreviation EAGAIN :: errno where "EAGAIN \<equiv> 11"
abbreviation EWOULDBLOCK :: errno where "EWOULDBLOCK \<equiv> 11"
abbreviation EPIPE :: errno where "EPIPE \<equiv> 32"
abbreviation ECONNRESET :: errno where "ECONNRESET \<equiv> 104"
abbreviation EINPROGRESS :: errno where "EINPROGRESS \<equiv> 115"

abbreviation EPOLLIN :: u32 where "EPOLLIN \<equiv> 0x001"
abbreviation EPOLLOUT :: u32 where "EPOLLOUT \<equiv> 0x004"
abbreviation EPOLLERR :: u32 where "EPOLLERR \<equiv> 0x008"
abbreviation EPOLLHUP :: u32 where "EPOLLHUP \<equiv> 0x010"
abbreviation EPOLLRDHUP :: u32 where "EPOLLRDHUP \<equiv> 0x2000"

abbreviation POLLIN :: int where "POLLIN \<equiv> 1"
abbreviation POLLOUT :: int where "POLLOUT \<equiv> 4"
abbreviation AF_INET :: int where "AF_INET \<equiv> 2"
abbreviation AF_INET6 :: int where "AF_INET6 \<equiv> 10"
abbreviation O_NONBLOCK :: int where "O_NONBLOCK \<equiv> 2048"
abbreviation FD_CLOEXEC :: int where "FD_CLOEXEC \<equiv> 1"
abbreviation SIGINT :: int where "SIGINT \<equiv> 2"
abbreviation SIGPIPE :: int where "SIGPIPE \<equiv> 13"
abbreviation SIGTERM :: int where "SIGTERM \<equiv> 15"

section \<open>Addresses\<close>

text \<open>The fields of \<^verbatim>\<open>sockaddr_storage\<close> the program reads; the port is in network byte order.\<close>

record sockaddr_storage =
  ss_family :: int
  sin_addr :: "byte list"
  sin_port :: u16

record addrinfo =
  ai_addrlen :: nat
  ai_addr :: sockaddr_storage

section \<open>Calls and answers\<close>

datatype 'a sysret = Ok 'a | Err errno

datatype fcntl_cmd = F_GETFL | F_SETFL int | F_GETFD | F_SETFD int

datatype sockopt = SO_REUSEADDR | TCP_NODELAY

datatype epoll_op = EPOLL_CTL_ADD | EPOLL_CTL_MOD | EPOLL_CTL_DEL

datatype sysevent =
    Recv fd size_t "byte list sysret"
  | Send fd "byte list" "size_t sysret"
  | GetSoError fd "errno sysret"
  | ShutdownWr fd
  | Close fd
  | SteadyNow int
  | GetAddrInfo string string "addrinfo list sysret"
  | Socket int "fd sysret"
  | Fcntl fd fcntl_cmd "int sysret"
  | SetSockOpt fd sockopt "unit sysret"
  | Bind fd sockaddr_storage nat "unit sysret"
  | Listen fd int "unit sysret"
  | Connect fd sockaddr_storage nat "unit sysret"
  | Poll fd int int "(int \<times> int) sysret"
  | Accept4 fd "(fd \<times> sockaddr_storage) sysret"
  | EpollCreate "fd sysret"
  | EventFd "fd sysret"
  | EpollCtl fd epoll_op fd u32 "unit sysret"
  | EpollWait fd size_t int "(fd \<times> u32) list sysret"
  | EventFdRead fd "u64 sysret"
  | EventFdWrite fd "unit sysret"
  | SigAction int "unit sysret"
  | Log LogLevel string

type_synonym os = "sysevent list"

record kernel =
  k_recv :: "os \<Rightarrow> fd \<Rightarrow> size_t \<Rightarrow> byte list sysret"
  k_send :: "os \<Rightarrow> fd \<Rightarrow> byte list \<Rightarrow> size_t sysret"
  k_so_error :: "os \<Rightarrow> fd \<Rightarrow> errno sysret"
  k_now :: "os \<Rightarrow> int"
  k_getaddrinfo :: "os \<Rightarrow> string \<Rightarrow> string \<Rightarrow> addrinfo list sysret"
  k_inet_ntop :: "int \<Rightarrow> byte list \<Rightarrow> string"
  k_socket :: "os \<Rightarrow> int \<Rightarrow> fd sysret"
  k_fcntl :: "os \<Rightarrow> fd \<Rightarrow> fcntl_cmd \<Rightarrow> int sysret"
  k_setsockopt :: "os \<Rightarrow> fd \<Rightarrow> sockopt \<Rightarrow> unit sysret"
  k_bind :: "os \<Rightarrow> fd \<Rightarrow> sockaddr_storage \<Rightarrow> nat \<Rightarrow> unit sysret"
  k_listen :: "os \<Rightarrow> fd \<Rightarrow> int \<Rightarrow> unit sysret"
  k_connect :: "os \<Rightarrow> fd \<Rightarrow> sockaddr_storage \<Rightarrow> nat \<Rightarrow> unit sysret"
  k_poll :: "os \<Rightarrow> fd \<Rightarrow> int \<Rightarrow> int \<Rightarrow> (int \<times> int) sysret"
  k_accept4 :: "os \<Rightarrow> fd \<Rightarrow> (fd \<times> sockaddr_storage) sysret"
  k_epoll_create1 :: "os \<Rightarrow> fd sysret"
  k_eventfd :: "os \<Rightarrow> fd sysret"
  k_epoll_ctl :: "os \<Rightarrow> fd \<Rightarrow> epoll_op \<Rightarrow> fd \<Rightarrow> u32 \<Rightarrow> unit sysret"
  k_epoll_wait :: "os \<Rightarrow> fd \<Rightarrow> size_t \<Rightarrow> int \<Rightarrow> (fd \<times> u32) list sysret"
  k_eventfd_read :: "os \<Rightarrow> fd \<Rightarrow> u64 sysret"
  k_eventfd_write :: "os \<Rightarrow> fd \<Rightarrow> unit sysret"
  k_sigaction :: "os \<Rightarrow> int \<Rightarrow> unit sysret"

definition sys_recv :: "kernel \<Rightarrow> fd \<Rightarrow> size_t \<Rightarrow> os \<Rightarrow> byte list sysret \<times> os" where [os_simps]:
  "sys_recv K fd n h = (k_recv K h fd n, h @ [Recv fd n (k_recv K h fd n)])"

definition sys_send :: "kernel \<Rightarrow> fd \<Rightarrow> byte list \<Rightarrow> os \<Rightarrow> size_t sysret \<times> os" where [os_simps]:
  "sys_send K fd bs h = (k_send K h fd bs, h @ [Send fd bs (k_send K h fd bs)])"

definition sys_so_error :: "kernel \<Rightarrow> fd \<Rightarrow> os \<Rightarrow> errno sysret \<times> os" where [os_simps]:
  "sys_so_error K fd h = (k_so_error K h fd, h @ [GetSoError fd (k_so_error K h fd)])"

definition sys_now :: "kernel \<Rightarrow> os \<Rightarrow> int \<times> os" where [os_simps]:
  "sys_now K h = (k_now K h, h @ [SteadyNow (k_now K h)])"

definition sys_close :: "fd \<Rightarrow> os \<Rightarrow> os" where [os_simps]:
  "sys_close fd h = h @ [Close fd]"

definition sys_shutdown_wr :: "fd \<Rightarrow> os \<Rightarrow> os" where [os_simps]:
  "sys_shutdown_wr fd h = h @ [ShutdownWr fd]"

definition fg_log :: "LogLevel \<Rightarrow> string \<Rightarrow> os \<Rightarrow> os" where [os_simps]:
  "fg_log level format h = h @ [Log level format]"

section \<open>What a history says\<close>

text \<open>Bytes taken from, and bytes accepted for, a descriptor.\<close>

fun recv_bytes :: "fd \<Rightarrow> sysevent \<Rightarrow> byte list" where
  "recv_bytes f (Recv fd n (Ok bs)) = (if fd = f then bs else [])"
| "recv_bytes f _ = []"

fun sent_bytes :: "fd \<Rightarrow> sysevent \<Rightarrow> byte list" where
  "sent_bytes f (Send fd bs (Ok n)) = (if fd = f then take (unat n) bs else [])"
| "sent_bytes f _ = []"

definition received :: "fd \<Rightarrow> os \<Rightarrow> byte list" where
  "received f h = concat (map (recv_bytes f) h)"

definition sent :: "fd \<Rightarrow> os \<Rightarrow> byte list" where
  "sent f h = concat (map (sent_bytes f) h)"

definition saw_eof :: "fd \<Rightarrow> os \<Rightarrow> bool" where
  "saw_eof f h = (\<exists>e\<in>set h. case e of Recv fd n r \<Rightarrow> fd = f \<and> r = Ok [] | _ \<Rightarrow> False)"

lemma received_simps [simp]:
  "received f [] = []"
  "received f (h @ h') = received f h @ received f h'"
  "received f (e # h) = recv_bytes f e @ received f h"
  by (simp_all add: received_def)

lemma sent_simps [simp]:
  "sent f [] = []"
  "sent f (h @ h') = sent f h @ sent f h'"
  "sent f (e # h) = sent_bytes f e @ sent f h"
  by (simp_all add: sent_def)

lemma saw_eof_simps [simp]:
  "\<not> saw_eof f []"
  "saw_eof f (h @ h') \<longleftrightarrow> saw_eof f h \<or> saw_eof f h'"
  "saw_eof f (e # h) \<longleftrightarrow>
     (case e of Recv fd n r \<Rightarrow> fd = f \<and> r = Ok [] | _ \<Rightarrow> False) \<or> saw_eof f h"
  by (auto simp: saw_eof_def)

text \<open>Open descriptors, from the calls that create and close them.\<close>

fun fd_step :: "sysevent \<Rightarrow> fd set \<Rightarrow> fd set" where
  "fd_step (Socket _ (Ok f)) A = insert f A"
| "fd_step (Accept4 _ (Ok (f, _))) A = insert f A"
| "fd_step (EpollCreate (Ok f)) A = insert f A"
| "fd_step (EventFd (Ok f)) A = insert f A"
| "fd_step (Close f) A = A - {f}"
| "fd_step _ A = A"

definition open_fds :: "os \<Rightarrow> fd set" where
  "open_fds h = fold fd_step h {}"

lemma open_fds_Nil [simp]: "open_fds [] = {}"
  by (simp add: open_fds_def)

lemma open_fds_append [simp]: "open_fds (h @ h') = fold fd_step h' (open_fds h)"
  by (simp add: open_fds_def)

text \<open>Every \<^verbatim>\<open>close\<close> of a history hits a descriptor that is open at that moment.\<close>

fun closes_ok_from :: "fd set \<Rightarrow> os \<Rightarrow> bool" where
  "closes_ok_from A [] = True"
| "closes_ok_from A (e # h) =
     ((case e of Close f \<Rightarrow> f \<in> A | _ \<Rightarrow> True) \<and> closes_ok_from (fd_step e A) h)"

definition closes_ok :: "os \<Rightarrow> bool" where
  "closes_ok h = closes_ok_from {} h"

lemma closes_ok_from_append:
  "closes_ok_from A (h @ h') \<longleftrightarrow> closes_ok_from A h \<and> closes_ok_from (fold fd_step h A) h'"
  by (induction h arbitrary: A) auto

lemma closes_ok_Nil [simp]: "closes_ok []"
  by (simp add: closes_ok_def)

lemma closes_ok_append [simp]:
  "closes_ok (h @ h') \<longleftrightarrow> closes_ok h \<and> closes_ok_from (open_fds h) h'"
  by (simp add: closes_ok_def closes_ok_from_append open_fds_def)

section \<open>What the program relies on\<close>

text \<open>recv(2) returns at most the requested number of bytes, send(2) accepts at most the bytes given.\<close>

definition recv_bounded :: "kernel \<Rightarrow> bool" where
  "recv_bounded K \<longleftrightarrow> (\<forall>h fd n bs. k_recv K h fd n = Ok bs \<longrightarrow> length bs \<le> unat n)"

definition send_bounded :: "kernel \<Rightarrow> bool" where
  "send_bounded K \<longleftrightarrow> (\<forall>h fd bs n. k_send K h fd bs = Ok n \<longrightarrow> unat n \<le> length bs)"

text \<open>socket(2), accept(2), epoll_create(2) and eventfd(2) return a descriptor that is not open.\<close>

definition fresh_fds :: "kernel \<Rightarrow> bool" where
  "fresh_fds K \<longleftrightarrow>
     (\<forall>h fam f. k_socket K h fam = Ok f \<longrightarrow> 0 \<le> f \<and> f \<notin> open_fds h) \<and>
     (\<forall>h l f a. k_accept4 K h l = Ok (f, a) \<longrightarrow> 0 \<le> f \<and> f \<notin> open_fds h) \<and>
     (\<forall>h f. k_epoll_create1 K h = Ok f \<longrightarrow> 0 \<le> f \<and> f \<notin> open_fds h) \<and>
     (\<forall>h f. k_eventfd K h = Ok f \<longrightarrow> 0 \<le> f \<and> f \<notin> open_fds h)"

text \<open>
  A call is not interrupted by signals for ever: repeating an interrupted call at most \<open>B\<close> times, one of
  the answers is not \<open>EINTR\<close>.
\<close>

fun recv_retries :: "fd \<Rightarrow> size_t \<Rightarrow> os \<Rightarrow> nat \<Rightarrow> os" where
  "recv_retries fd n h 0 = h"
| "recv_retries fd n h (Suc i) = recv_retries fd n (h @ [Recv fd n (Err EINTR)]) i"

fun send_retries :: "fd \<Rightarrow> byte list \<Rightarrow> os \<Rightarrow> nat \<Rightarrow> os" where
  "send_retries fd bs h 0 = h"
| "send_retries fd bs h (Suc i) = send_retries fd bs (h @ [Send fd bs (Err EINTR)]) i"

definition eintr_bounded :: "kernel \<Rightarrow> nat \<Rightarrow> bool" where
  "eintr_bounded K B \<longleftrightarrow>
     (\<forall>h fd n. \<exists>i\<le>B. k_recv K (recv_retries fd n h i) fd n \<noteq> Err EINTR) \<and>
     (\<forall>h fd bs. \<exists>i\<le>B. k_send K (send_retries fd bs h i) fd bs \<noteq> Err EINTR)"

text \<open>The same for \<^verbatim>\<open>poll\<close> as the health probe calls it.\<close>

fun poll_retries :: "fd \<Rightarrow> int \<Rightarrow> os \<Rightarrow> nat \<Rightarrow> os" where
  "poll_retries fd t h 0 = h"
| "poll_retries fd t h (Suc i) = poll_retries fd t (h @ [Poll fd POLLOUT t (Err EINTR)]) i"

definition poll_bounded :: "kernel \<Rightarrow> nat \<Rightarrow> bool" where
  "poll_bounded K B \<longleftrightarrow> (\<forall>h fd t. \<exists>i\<le>B. k_poll K (poll_retries fd t h i) fd POLLOUT t \<noteq> Err EINTR)"

text \<open>A later history continues an earlier one. \<^verbatim>\<open>std::chrono::steady_clock\<close> never goes back.\<close>

definition extends :: "os \<Rightarrow> os \<Rightarrow> bool" where
  "extends h h' \<longleftrightarrow> (\<exists>tr. h' = h @ tr)"

lemma extends_intros [intro, simp]: "extends h h" "extends h (h @ tr)"
  by (simp_all add: extends_def)

lemma extends_trans: "extends h1 h2 \<Longrightarrow> extends h2 h3 \<Longrightarrow> extends h1 h3"
  by (auto simp: extends_def)

lemma extends_mem: "extends h h' \<Longrightarrow> e \<in> set h \<Longrightarrow> e \<in> set h'"
  by (auto simp: extends_def)

definition clock_monotone :: "kernel \<Rightarrow> bool" where
  "clock_monotone K \<longleftrightarrow> (\<forall>h h'. extends h h' \<longrightarrow> k_now K h \<le> k_now K h')"

end
