(* ===== verification/ByteBuffer.thy ===== *)
theory ByteBuffer
  imports OS
begin

text \<open>
  The fixed-capacity byte buffer of a forwarding direction (\<^verbatim>\<open>ByteBuffer.h\<close>), with its cursors as
  64-bit words, the interface it offers the session (a bounded first-in first-out byte queue) as the
  locale \<open>bounded_fifo\<close>, and the proof that the buffer implements that interface.
\<close>

section \<open>The bounded queue a session relies on\<close>

datatype 'a fifo_op = Put "'a list" | TakeOut nat | Compact

text \<open>What went in and what came out; nothing is lost, duplicated or reordered.\<close>

fun put_total :: "'a fifo_op list \<Rightarrow> 'a list" where
  "put_total [] = []"
| "put_total (Put xs # ops) = xs @ put_total ops"
| "put_total (_ # ops) = put_total ops"

fun out_total :: "'a fifo_op list \<Rightarrow> nat" where
  "out_total [] = 0"
| "out_total (TakeOut n # ops) = n + out_total ops"
| "out_total (_ # ops) = out_total ops"

locale bounded_fifo =
  fixes invar :: "'b \<Rightarrow> bool"
    and content :: "'b \<Rightarrow> 'a list"
    and capacity :: "'b \<Rightarrow> nat"
    and tail_space :: "'b \<Rightarrow> nat"
    and put :: "'a list \<Rightarrow> 'b \<Rightarrow> 'b"
    and take_out :: "nat \<Rightarrow> 'b \<Rightarrow> 'b"
    and compact :: "'b \<Rightarrow> 'b"
  assumes invar_put: "invar b \<Longrightarrow> length xs \<le> tail_space b \<Longrightarrow> invar (put xs b)"
    and content_put: "invar b \<Longrightarrow> length xs \<le> tail_space b \<Longrightarrow> content (put xs b) = content b @ xs"
    and capacity_put: "invar b \<Longrightarrow> length xs \<le> tail_space b \<Longrightarrow> capacity (put xs b) = capacity b"
    and tail_put: "invar b \<Longrightarrow> length xs \<le> tail_space b \<Longrightarrow>
      tail_space (put xs b) = tail_space b - length xs"
    and invar_take_out: "invar b \<Longrightarrow> n \<le> length (content b) \<Longrightarrow> invar (take_out n b)"
    and content_take_out: "invar b \<Longrightarrow> n \<le> length (content b) \<Longrightarrow>
      content (take_out n b) = drop n (content b)"
    and capacity_take_out: "invar b \<Longrightarrow> n \<le> length (content b) \<Longrightarrow>
      capacity (take_out n b) = capacity b"
    and invar_compact: "invar b \<Longrightarrow> invar (compact b)"
    and content_compact: "invar b \<Longrightarrow> content (compact b) = content b"
    and capacity_compact: "invar b \<Longrightarrow> capacity (compact b) = capacity b"
    and space_bound: "invar b \<Longrightarrow> length (content b) + tail_space b \<le> capacity b"
    and compact_full: "invar b \<Longrightarrow> tail_space (compact b) = 0 \<Longrightarrow> length (content b) = capacity b"
begin

lemmas laws = invar_put content_put capacity_put invar_take_out content_take_out capacity_take_out
  invar_compact content_compact capacity_compact

text \<open>A sequence of operations, each within its precondition.\<close>

fun exec :: "'a fifo_op list \<Rightarrow> 'b \<Rightarrow> 'b option" where
  "exec [] b = Some b"
| "exec (Put xs # ops) b = (if length xs \<le> tail_space b then exec ops (put xs b) else None)"
| "exec (TakeOut n # ops) b = (if n \<le> length (content b) then exec ops (take_out n b) else None)"
| "exec (Compact # ops) b = exec ops (compact b)"

lemma exec_content:
  assumes "invar b" "exec ops b = Some b'"
  shows "invar b' \<and> content b' = drop (out_total ops) (content b @ put_total ops)
    \<and> out_total ops \<le> length (content b @ put_total ops) \<and> capacity b' = capacity b"
  using assms
proof (induction ops arbitrary: b)
  case Nil
  then show ?case by simp
next
  case (Cons op ops)
  show ?case
  proof (cases op)
    case (Put xs)
    then have "length xs \<le> tail_space b" "exec ops (put xs b) = Some b'"
      using Cons.prems by (auto split: if_splits)
    with Cons.IH [of "put xs b"] Cons.prems Put show ?thesis by (simp add: laws)
  next
    case (TakeOut n)
    then have "n \<le> length (content b)" "exec ops (take_out n b) = Some b'"
      using Cons.prems by (auto split: if_splits)
    with Cons.IH [of "take_out n b"] Cons.prems TakeOut show ?thesis
      by (auto simp: laws add.commute)
  next
    case Compact
    with Cons.IH [of "compact b"] Cons.prems show ?thesis by (simp add: laws)
  qed
qed

end

section \<open>The buffer\<close>

record ByteBuffer =
  bb_storage :: "byte list"
  bb_readIndex :: size_t
  bb_writeIndex :: size_t

definition ByteBuffer_new :: "size_t \<Rightarrow> ByteBuffer" where
  "ByteBuffer_new capacity =
     \<lparr> bb_storage = replicate (unat capacity) 0, bb_readIndex = 0, bb_writeIndex = 0 \<rparr>"

definition storage_size :: "ByteBuffer \<Rightarrow> size_t" where
  "storage_size b = of_nat (length (bb_storage b))"

definition readableBytes :: "ByteBuffer \<Rightarrow> size_t" where
  "readableBytes b = bb_writeIndex b - bb_readIndex b"

definition writableBytes :: "ByteBuffer \<Rightarrow> size_t" where
  "writableBytes b = storage_size b - bb_writeIndex b"

definition bb_empty :: "ByteBuffer \<Rightarrow> bool" where
  "bb_empty b = (readableBytes b = 0)"

text \<open>The bytes a caller reads through the pointer \<^verbatim>\<open>readData()\<close> and the length \<^verbatim>\<open>readableBytes()\<close>.\<close>

definition readData :: "ByteBuffer \<Rightarrow> byte list" where
  "readData b = take (unat (readableBytes b)) (drop (unat (bb_readIndex b)) (bb_storage b))"

text \<open>The storage after a callee has written \<open>bs\<close> through the pointer \<^verbatim>\<open>writeData()\<close>.\<close>

definition writeData :: "byte list \<Rightarrow> ByteBuffer \<Rightarrow> ByteBuffer" where
  "writeData bs b =
     b\<lparr> bb_storage := take (unat (bb_writeIndex b)) (bb_storage b) @ bs
          @ drop (unat (bb_writeIndex b) + length bs) (bb_storage b) \<rparr>"

definition hasWritten :: "size_t \<Rightarrow> ByteBuffer \<Rightarrow> ByteBuffer" where
  "hasWritten bytes b = b\<lparr> bb_writeIndex := bb_writeIndex b + bytes \<rparr>"

definition consume :: "size_t \<Rightarrow> ByteBuffer \<Rightarrow> ByteBuffer" where
  "consume bytes b =
     (let b = b\<lparr> bb_readIndex := bb_readIndex b + bytes \<rparr> in
      if bb_readIndex b = bb_writeIndex b then b\<lparr> bb_readIndex := 0, bb_writeIndex := 0 \<rparr> else b)"

text \<open>\<^verbatim>\<open>std::copy(begin + first, begin + last, begin + d)\<close>: one element after the other, in place.\<close>

function copy_fwd :: "'a list \<Rightarrow> nat \<Rightarrow> nat \<Rightarrow> nat \<Rightarrow> 'a list" where
  "copy_fwd st first until d =
     (if first < until then copy_fwd (st[d := st ! first]) (Suc first) until (Suc d) else st)"
  by pat_completeness auto
termination
  by (relation "measure (\<lambda>(st, first, until, d). until - first)") auto

declare copy_fwd.simps [simp del]

definition makeWritable :: "ByteBuffer \<Rightarrow> ByteBuffer" where
  "makeWritable b =
     (if writableBytes b = 0 \<and> bb_readIndex b > 0
      then let len = readableBytes b in
        b\<lparr> bb_storage := copy_fwd (bb_storage b) (unat (bb_readIndex b)) (unat (bb_writeIndex b)) 0,
           bb_readIndex := 0, bb_writeIndex := len \<rparr>
      else b)"

section \<open>The in-place copy\<close>

text \<open>
  The source range and the destination overlap, but the destination lies before the source, so every
  element is read before it is overwritten.
\<close>

lemma copy_fwd_eq:
  assumes "d \<le> first" "first \<le> until" "until \<le> length st"
  shows "copy_fwd st first until d =
    take d st @ take (until - first) (drop first st) @ drop (d + (until - first)) st"
  using assms
proof (induction st first until d rule: copy_fwd.induct)
  case (1 st first until d)
  show ?case
  proof (cases "first < until")
    case False
    then show ?thesis
      using "1.prems" by (subst copy_fwd.simps) simp
  next
    case True
    have len: "first < length st" "d < length st" using True "1.prems" by auto
    have "copy_fwd st first until d = copy_fwd (st[d := st ! first]) (Suc first) until (Suc d)"
      using True by (simp add: copy_fwd.simps [of st first until d])
    also have "\<dots> = take (Suc d) (st[d := st ! first])
        @ take (until - Suc first) (drop (Suc first) (st[d := st ! first]))
        @ drop (Suc d + (until - Suc first)) (st[d := st ! first])"
      using True "1.prems" by (intro "1.IH") auto
    also have "\<dots> = take d st @ [st ! first]
        @ take (until - Suc first) (drop (Suc first) st) @ drop (d + (until - first)) st"
      using True "1.prems" len by (simp add: take_Suc_conv_app_nth Suc_diff_Suc)
    also have "\<dots> = take d st @ take (until - first) (drop first st) @ drop (d + (until - first)) st"
    proof -
      have "take (until - first) (drop first st) = st ! first # take (until - Suc first) (drop (Suc first) st)"
        using True len by (simp add: Cons_nth_drop_Suc [symmetric] Suc_diff_Suc [symmetric])
      then show ?thesis by simp
    qed
    finally show ?thesis .
  qed
qed

section \<open>Invariant\<close>

text \<open>The cursors are in order and in range, and an empty buffer has them at the start.\<close>

definition bb_inv :: "ByteBuffer \<Rightarrow> bool" where
  "bb_inv b \<longleftrightarrow> unat (bb_readIndex b) \<le> unat (bb_writeIndex b) \<and>
     unat (bb_writeIndex b) \<le> length (bb_storage b) \<and> length (bb_storage b) < 2 ^ 64 \<and>
     (bb_readIndex b = bb_writeIndex b \<longrightarrow> bb_writeIndex b = 0)"

lemma bb_inv_new: "bb_inv (ByteBuffer_new n)"
  using unsigned_less [of n, where 'a = nat] by (simp add: bb_inv_def ByteBuffer_new_def)

lemma readData_new [simp]: "readData (ByteBuffer_new n) = []"
  by (simp add: readData_def ByteBuffer_new_def readableBytes_def)

lemma unat_storage_size: "bb_inv b \<Longrightarrow> unat (storage_size b) = length (bb_storage b)"
  by (simp add: bb_inv_def storage_size_def)

lemma unat_readableBytes:
  "bb_inv b \<Longrightarrow> unat (readableBytes b) = unat (bb_writeIndex b) - unat (bb_readIndex b)"
  by (simp add: bb_inv_def readableBytes_def unat_minus_no_wrap)

lemma unat_writableBytes:
  "bb_inv b \<Longrightarrow> unat (writableBytes b) = length (bb_storage b) - unat (bb_writeIndex b)"
  using unat_storage_size [of b] by (simp add: bb_inv_def writableBytes_def unat_minus_no_wrap)

lemmas bb_unat = unat_storage_size unat_readableBytes unat_writableBytes

lemma length_readData: "bb_inv b \<Longrightarrow> length (readData b) = unat (readableBytes b)"
  by (simp add: readData_def bb_unat) (auto simp: bb_inv_def)

lemma bb_empty_iff: "bb_inv b \<Longrightarrow> bb_empty b \<longleftrightarrow> readData b = []"
  using length_readData [of b] by (auto simp: bb_empty_def unat_size_zero_iff)

lemma writable_zero_iff:
  "bb_inv b \<Longrightarrow> writableBytes b = 0 \<longleftrightarrow> unat (bb_writeIndex b) = length (bb_storage b)"
  unfolding unat_size_zero_iff by (simp add: unat_writableBytes) (auto simp: bb_inv_def)

text \<open>Receiving: the callee writes through \<^verbatim>\<open>writeData()\<close>, then \<^verbatim>\<open>hasWritten\<close> moves the cursor.\<close>

definition recv_into :: "byte list \<Rightarrow> ByteBuffer \<Rightarrow> ByteBuffer" where
  "recv_into bs b = hasWritten (of_nat (length bs)) (writeData bs b)"

lemma unat_writeIndex_recv_into:
  assumes "bb_inv b" "length bs \<le> unat (writableBytes b)"
  shows "unat (bb_writeIndex (recv_into bs b)) = unat (bb_writeIndex b) + length bs"
    and "length (bb_storage (recv_into bs b)) = length (bb_storage b)"
    and "bb_readIndex (recv_into bs b) = bb_readIndex b"
  using assms
  by (auto simp: bb_inv_def recv_into_def hasWritten_def writeData_def unat_writableBytes
      intro!: unat_plus_no_wrap [THEN trans])

lemma recv_into_inv:
  assumes "bb_inv b" "length bs \<le> unat (writableBytes b)"
  shows "bb_inv (recv_into bs b)"
  using assms unat_writeIndex_recv_into [OF assms]
  by (auto simp: bb_inv_def unat_writableBytes word_unat_eq_iff)

lemma recv_into_readData:
  assumes "bb_inv b" "length bs \<le> unat (writableBytes b)"
  shows "readData (recv_into bs b) = readData b @ bs"
proof -
  let ?r = "unat (bb_readIndex b)" and ?w = "unat (bb_writeIndex b)" and ?st = "bb_storage b"
  have le: "?r \<le> ?w" "?w \<le> length ?st" using assms(1) by (auto simp: bb_inv_def)
  have "readData (recv_into bs b) =
      take (?w + length bs - ?r) (drop ?r (take ?w ?st @ bs @ drop (?w + length bs) ?st))"
    using unat_writeIndex_recv_into [OF assms] recv_into_inv [OF assms]
    by (simp add: readData_def unat_readableBytes)
       (simp add: recv_into_def hasWritten_def writeData_def)
  also have "\<dots> = take (?w - ?r) (drop ?r ?st) @ bs"
    using le by (simp add: drop_take)
  finally show ?thesis using assms(1) by (simp add: readData_def unat_readableBytes)
qed

lemma consume_facts:
  assumes "bb_inv b" "n \<le> unat (readableBytes b)"
  shows "bb_inv (consume (of_nat n) b)"
    and "readData (consume (of_nat n) b) = drop n (readData b)"
    and "length (bb_storage (consume (of_nat n) b)) = length (bb_storage b)"
proof -
  let ?r = "unat (bb_readIndex b)" and ?w = "unat (bb_writeIndex b)" and ?st = "bb_storage b"
  have le: "?r + n \<le> ?w" "?w \<le> length ?st" "length ?st < 2 ^ 64"
    using assms by (auto simp: bb_inv_def unat_readableBytes)
  then have rn: "unat (bb_readIndex b + of_nat n) = ?r + n"
    by (subst unat_plus_no_wrap) auto
  then have eq: "bb_readIndex b + of_nat n = bb_writeIndex b \<longleftrightarrow> ?r + n = ?w"
    by (simp add: word_unat_eq_iff)
  show inv: "bb_inv (consume (of_nat n) b)"
    using le rn eq by (auto simp: consume_def Let_def bb_inv_def)
  show "length (bb_storage (consume (of_nat n) b)) = length ?st"
    by (simp add: consume_def Let_def)
  have len: "length (readData b) = ?w - ?r"
    using assms by (simp add: length_readData unat_readableBytes)
  show "readData (consume (of_nat n) b) = drop n (readData b)"
  proof (cases "?r + n = ?w")
    case True
    then show ?thesis using eq len by (simp add: consume_def Let_def readData_def readableBytes_def)
  next
    case False
    then have "readData (consume (of_nat n) b) = take (?w - (?r + n)) (drop (?r + n) ?st)"
      using inv eq rn by (simp add: readData_def unat_readableBytes) (simp add: consume_def Let_def)
    also have "\<dots> = drop n (readData b)"
      using assms(1) by (simp add: readData_def unat_readableBytes drop_take add.commute)
    finally show ?thesis .
  qed
qed

lemma makeWritable_facts:
  assumes "bb_inv b"
  shows "bb_inv (makeWritable b)"
    and "readData (makeWritable b) = readData b"
    and "length (bb_storage (makeWritable b)) = length (bb_storage b)"
    and "writableBytes (makeWritable b) = 0 \<Longrightarrow> unat (readableBytes b) = length (bb_storage b)"
proof -
  let ?r = "unat (bb_readIndex b)" and ?w = "unat (bb_writeIndex b)" and ?st = "bb_storage b"
  have le: "?r \<le> ?w" "?w \<le> length ?st" "length ?st < 2 ^ 64" using assms by (auto simp: bb_inv_def)
  define moved where "moved \<longleftrightarrow> writableBytes b = 0 \<and> bb_readIndex b > 0"
  have st: "bb_storage (makeWritable b) =
      (if moved then take (?w - ?r) (drop ?r ?st) @ drop (?w - ?r) ?st else ?st)"
    and ix: "bb_readIndex (makeWritable b) = (if moved then 0 else bb_readIndex b)"
      "bb_writeIndex (makeWritable b) = (if moved then readableBytes b else bb_writeIndex b)"
    using le by (simp_all add: makeWritable_def moved_def Let_def copy_fwd_eq)
  show len: "length (bb_storage (makeWritable b)) = length ?st"
    using le by (simp add: st)
  show inv: "bb_inv (makeWritable b)"
    using le assms assms [unfolded bb_inv_def] unfolding bb_inv_def [of "makeWritable b"] len ix
    by (auto simp: unat_readableBytes)
  show "readData (makeWritable b) = readData b"
  proof (cases moved)
    case True
    then show ?thesis using assms le
      by (simp add: readData_def readableBytes_def [of "makeWritable b"] ix st unat_readableBytes)
  next
    case False
    then show ?thesis by (simp add: readData_def readableBytes_def ix st)
  qed
  show "unat (readableBytes b) = length ?st" if full: "writableBytes (makeWritable b) = 0"
  proof (cases moved)
    case True
    have "unat (bb_writeIndex (makeWritable b)) = length ?st"
      using full inv len by (simp add: writable_zero_iff)
    with True show ?thesis by (simp add: ix)
  next
    case False
    then have "makeWritable b = b" unfolding makeWritable_def moved_def by (auto simp: Let_def)
    with full False have "bb_readIndex b = 0" "?w = length ?st"
      using assms by (auto simp: moved_def writable_zero_iff word_gt_0)
    then show ?thesis using assms by (simp add: unat_readableBytes)
  qed
qed

section \<open>The buffer implements the bounded queue\<close>

interpretation bbq: bounded_fifo bb_inv readData "\<lambda>b. length (bb_storage b)"
  "\<lambda>b. unat (writableBytes b)" recv_into "\<lambda>n. consume (of_nat n)" makeWritable
proof unfold_locales
  fix b :: ByteBuffer and xs :: "byte list"
  assume b: "bb_inv b"
  show "length (readData b) + unat (writableBytes b) \<le> length (bb_storage b)"
    using b by (simp add: length_readData bb_unat) (simp add: bb_inv_def)
  show "unat (writableBytes (makeWritable b)) = 0 \<Longrightarrow> length (readData b) = length (bb_storage b)"
    using b makeWritable_facts(4) [OF b] by (simp add: length_readData unat_size_zero_iff)
  assume xs: "length xs \<le> unat (writableBytes b)"
  show "unat (writableBytes (recv_into xs b)) = unat (writableBytes b) - length xs"
    using b xs recv_into_inv [OF b xs] unat_writeIndex_recv_into [OF b xs]
    by (simp add: unat_writableBytes)
qed (simp_all add: recv_into_inv recv_into_readData unat_writeIndex_recv_into consume_facts
    makeWritable_facts length_readData)

section \<open>Properties\<close>

text \<open>C15. The buffer is a bounded first-in first-out queue: after any sequence of writes, consumptions and compactions, each
  within its precondition, a new buffer holds exactly the bytes written minus the bytes consumed, in order, and
  never more than its capacity.\<close>

theorem buffer_is_fifo:
  assumes "bbq.exec ops (ByteBuffer_new n) = Some b"
  shows "readData b = drop (out_total ops) (put_total ops) \<and> unat (readableBytes b) \<le> unat n \<and> bb_inv b"
proof -
  note e = bbq.exec_content [OF bb_inv_new assms]
  then have b: "bb_inv b" "length (bb_storage b) = unat n" by (simp_all add: ByteBuffer_new_def)
  then have "length (readData b) \<le> unat n" using bbq.space_bound [of b] by linarith
  then show ?thesis using e b length_readData [of b] by simp
qed

theorem buffer_is_fifo_witness:
  "\<exists>b. bbq.exec [Put [1, 2, 3], TakeOut 2, Put [4], Compact, Put [5, 6]] (ByteBuffer_new 4) = Some b \<and> readData b = [3, 4, 5, 6]"
proof -
  have "bbq.exec [Put [1, 2, 3], TakeOut 2, Put [4], Compact, Put [5, 6]] (ByteBuffer_new 4) \<noteq> None"
    unfolding bbq.exec.simps by code_simp
  then obtain b where b: "bbq.exec [Put [1, 2, 3], TakeOut 2, Put [4], Compact, Put [5, 6]] (ByteBuffer_new 4) = Some b" by auto
  then show ?thesis using buffer_is_fifo [OF b] by simp
qed

text \<open>C30. Compaction moves the bytes and nothing else: the in-place forward copy over overlapping ranges is the plain
  move of the unread bytes to the front, the content is unchanged, and only a buffer full of unread bytes is left
  without room.\<close>

theorem compaction_correct:
  assumes "bb_inv b"
  shows "bb_inv (makeWritable b) \<and> readData (makeWritable b) = readData b \<and>
    length (bb_storage (makeWritable b)) = length (bb_storage b) \<and>
    (writableBytes (makeWritable b) = 0 \<longleftrightarrow> length (readData b) = length (bb_storage b))"
proof -
  have "writableBytes (makeWritable b) = 0" if "length (readData b) = length (bb_storage b)"
    using bbq.space_bound [OF makeWritable_facts(1) [OF assms]] makeWritable_facts(2,3) [OF assms] that
    by (simp add: unat_size_zero_iff)
  then show ?thesis using makeWritable_facts [OF assms] assms by (auto simp: length_readData)
qed

theorem compaction_correct_witness: "bb_inv (makeWritable (ByteBuffer_new 8)) \<and> readData (makeWritable (ByteBuffer_new 8)) = []"
  using compaction_correct [OF bb_inv_new, of 8] by simp

end
