(* ===== verification/Config.thy ===== *)
theory Config
  imports Prelude
begin

text \<open>
  The strict INI loader (\<^verbatim>\<open>Config.h\<close>, \<^verbatim>\<open>Config.cpp\<close>): character level helpers, the integer parser, the
  key tables of the sections, the line loop with its section state, and the final checks. The file is
  its content (\<open>None\<close> when it cannot be opened). Strings are byte strings, as in the source.
\<close>

section \<open>Configuration data\<close>

record BackendConfig =
  bc_name :: string
  bc_host :: string
  bc_port :: u16
  bc_weight :: size_t

text \<open>\<^verbatim>\<open>int\<close> fields are \<open>int\<close>; the casts that fill them are written out below.\<close>

record AppConfig =
  cfg_listenHost :: string
  cfg_listenPort :: u16
  cfg_workers :: size_t
  cfg_backlog :: int
  cfg_maxEvents :: size_t
  cfg_bufferSize :: size_t
  cfg_connectTimeoutMs :: int
  cfg_idleTimeoutSeconds :: int
  cfg_statsIntervalSeconds :: int
  cfg_healthCheckIntervalMs :: int
  cfg_healthCheckTimeoutMs :: int
  cfg_healthCheckFailureThreshold :: size_t
  cfg_healthCheckSuccessThreshold :: size_t
  cfg_logLevel :: string
  cfg_backends :: "BackendConfig list"

definition AppConfig_default :: AppConfig where
  "AppConfig_default = \<lparr>
     cfg_listenHost = ''0.0.0.0'',
     cfg_listenPort = 8080,
     cfg_workers = 4,
     cfg_backlog = 1024,
     cfg_maxEvents = 2048,
     cfg_bufferSize = 64 * 1024,
     cfg_connectTimeoutMs = 3000,
     cfg_idleTimeoutSeconds = 60,
     cfg_statsIntervalSeconds = 10,
     cfg_healthCheckIntervalMs = 3000,
     cfg_healthCheckTimeoutMs = 800,
     cfg_healthCheckFailureThreshold = 3,
     cfg_healthCheckSuccessThreshold = 2,
     cfg_logLevel = ''info'',
     cfg_backends = [] \<rparr>"

section \<open>Text helpers\<close>

definition trim :: "string \<Rightarrow> string" where
  "trim value = rev (dropWhile isspace (rev (dropWhile isspace value)))"

definition lower :: "string \<Rightarrow> string" where
  "lower value = map tolower value"

text \<open>\<^verbatim>\<open>std::getline\<close> until end of file: a last line without newline counts when it is not empty.\<close>

fun getlines_acc :: "string \<Rightarrow> string \<Rightarrow> string list" where
  "getlines_acc cur [] = (if cur = [] then [] else [rev cur])"
| "getlines_acc cur (c # cs) =
     (if c = char_of (10 :: nat) then rev cur # getlines_acc [] cs else getlines_acc (c # cur) cs)"

definition getlines :: "string \<Rightarrow> string list" where
  "getlines s = getlines_acc [] s"

text \<open>\<^verbatim>\<open>line.erase(line.find_first_of("#;"))\<close>.\<close>

definition strip_comment :: "string \<Rightarrow> string" where
  "strip_comment l = takeWhile (\<lambda>c. c \<noteq> CHR ''#'' \<and> c \<noteq> CHR '';'') l"

section \<open>Integers\<close>

definition is_digit :: "char \<Rightarrow> bool" where
  "is_digit c = (let n = (of_char c :: nat) in 48 \<le> n \<and> n \<le> 57)"

definition digits_value :: "string \<Rightarrow> nat" where
  "digits_value ds = foldl (\<lambda>a c. 10 * a + (of_char c - 48)) 0 ds"

text \<open>
  \<^verbatim>\<open>std::stol(value, &consumed, 10)\<close> with a 64-bit \<^verbatim>\<open>long\<close>: leading white space, an optional sign and at
  least one digit; \<open>None\<close> is either of its two exceptions.
\<close>

definition stol :: "string \<Rightarrow> (int \<times> nat) option" where
  "stol s =
     (let ws = takeWhile isspace s;
          r = dropWhile isspace s;
          neg = (r \<noteq> [] \<and> hd r = CHR ''-'');
          signed = (r \<noteq> [] \<and> (hd r = CHR ''-'' \<or> hd r = CHR ''+''));
          ds = takeWhile is_digit (if signed then tl r else r);
          v = (if neg then - int (digits_value ds) else int (digits_value ds))
      in if ds = [] then None
         else if v < - (2 ^ 63) \<or> 2 ^ 63 \<le> v then None
         else Some (v, length ws + (if signed then 1 else 0) + length ds))"

definition quoted :: "string \<Rightarrow> string" where
  "quoted s = char_of (39 :: nat) # s @ [char_of (39 :: nat)]"

definition parseLong :: "string \<Rightarrow> string \<Rightarrow> int \<Rightarrow> int \<Rightarrow> int result" where
  "parseLong value key minimum maximum =
     (case stol value of
        None \<Rightarrow> Inl (RuntimeError (''invalid integer for '' @ quoted key @ '': '' @ value))
      | Some (result, consumed) \<Rightarrow>
          if consumed \<noteq> length value \<or> result < minimum \<or> result > maximum
          then Inl (RuntimeError (''value out of range for '' @ quoted key @ '': '' @ value))
          else Inr result)"

text \<open>\<^verbatim>\<open>static_cast\<close> of a \<^verbatim>\<open>long\<close> to the field types.\<close>

definition to_u16 :: "int \<Rightarrow> u16" where
  "to_u16 v = word_of_int v"

definition to_size_t :: "int \<Rightarrow> size_t" where
  "to_size_t v = word_of_int v"

definition to_int :: "int \<Rightarrow> int" where
  "to_int v = signed_take_bit 31 v"

definition parse_then :: "string \<Rightarrow> string \<Rightarrow> int \<Rightarrow> int \<Rightarrow> (int \<Rightarrow> 'a) \<Rightarrow> 'a result" where
  "parse_then value key minimum maximum f =
     (case parseLong value key minimum maximum of Inl e \<Rightarrow> Inl e | Inr v \<Rightarrow> Inr (f v))"

section \<open>Key tables\<close>

definition assignServerValue :: "AppConfig \<Rightarrow> string \<Rightarrow> string \<Rightarrow> AppConfig result" where
  "assignServerValue config key value =
     (if key = ''listen_host'' then Inr (config\<lparr> cfg_listenHost := value \<rparr>)
      else if key = ''listen_port'' then
        parse_then value key 1 65535 (\<lambda>v. config\<lparr> cfg_listenPort := to_u16 v \<rparr>)
      else if key = ''workers'' then
        parse_then value key 1 128 (\<lambda>v. config\<lparr> cfg_workers := to_size_t v \<rparr>)
      else if key = ''backlog'' then
        parse_then value key 16 65535 (\<lambda>v. config\<lparr> cfg_backlog := to_int v \<rparr>)
      else if key = ''max_events'' then
        parse_then value key 16 65536 (\<lambda>v. config\<lparr> cfg_maxEvents := to_size_t v \<rparr>)
      else if key = ''buffer_size'' then
        parse_then value key 4096 (16 * 1024 * 1024) (\<lambda>v. config\<lparr> cfg_bufferSize := to_size_t v \<rparr>)
      else if key = ''connect_timeout_ms'' then
        parse_then value key 50 60000 (\<lambda>v. config\<lparr> cfg_connectTimeoutMs := to_int v \<rparr>)
      else if key = ''idle_timeout_seconds'' then
        parse_then value key 1 86400 (\<lambda>v. config\<lparr> cfg_idleTimeoutSeconds := to_int v \<rparr>)
      else if key = ''stats_interval_seconds'' then
        parse_then value key 0 3600 (\<lambda>v. config\<lparr> cfg_statsIntervalSeconds := to_int v \<rparr>)
      else if key = ''log_level'' then Inr (config\<lparr> cfg_logLevel := lower value \<rparr>)
      else Inl (RuntimeError (''unknown key in [server]: '' @ key)))"

definition assignHealthValue :: "AppConfig \<Rightarrow> string \<Rightarrow> string \<Rightarrow> AppConfig result" where
  "assignHealthValue config key value =
     (if key = ''interval_ms'' then
        parse_then value key 200 600000 (\<lambda>v. config\<lparr> cfg_healthCheckIntervalMs := to_int v \<rparr>)
      else if key = ''timeout_ms'' then
        parse_then value key 50 60000 (\<lambda>v. config\<lparr> cfg_healthCheckTimeoutMs := to_int v \<rparr>)
      else if key = ''failure_threshold'' then
        parse_then value key 1 100 (\<lambda>v. config\<lparr> cfg_healthCheckFailureThreshold := to_size_t v \<rparr>)
      else if key = ''success_threshold'' then
        parse_then value key 1 100 (\<lambda>v. config\<lparr> cfg_healthCheckSuccessThreshold := to_size_t v \<rparr>)
      else Inl (RuntimeError (''unknown key in [health_check]: '' @ key)))"

section \<open>The line loop\<close>

text \<open>The locals of \<^verbatim>\<open>ConfigLoader::load\<close> that live across lines.\<close>

record Loader =
  ld_config :: AppConfig
  ld_section :: string
  ld_currentBackend :: BackendConfig
  ld_insideBackend :: bool
  ld_backendHasHost :: bool
  ld_backendHasPort :: bool
  ld_lineNumber :: nat

definition Loader_init :: Loader where
  "Loader_init = \<lparr> ld_config = AppConfig_default, ld_section = [],
     ld_currentBackend = \<lparr> bc_name = [], bc_host = [], bc_port = 0, bc_weight = 0 \<rparr>,
     ld_insideBackend = False, ld_backendHasHost = False, ld_backendHasPort = False,
     ld_lineNumber = 0 \<rparr>"

definition finishBackend :: "Loader \<Rightarrow> Loader result" where
  "finishBackend ld =
     (if \<not> ld_insideBackend ld then Inr ld
      else if bc_name (ld_currentBackend ld) = [] \<or> \<not> ld_backendHasHost ld \<or> \<not> ld_backendHasPort ld
      then Inl (RuntimeError ''backend section requires name, host and port'')
      else let c = ld_config ld in
        Inr (ld\<lparr> ld_config := c\<lparr> cfg_backends := cfg_backends c @ [ld_currentBackend ld] \<rparr> \<rparr>))"

definition at_line :: "string \<Rightarrow> Loader \<Rightarrow> string" where
  "at_line msg ld = msg @ '' at line '' @ nat_to_string (ld_lineNumber ld)"

text \<open>A line \<^verbatim>\<open>[...]\<close>: submit the previous backend, reset the section state, open the new section.\<close>

definition sectionLine :: "Loader \<Rightarrow> string \<Rightarrow> Loader result" where
  "sectionLine ld line =
     (case finishBackend ld of
        Inl e \<Rightarrow> Inl e
      | Inr ld \<Rightarrow>
          let ld = ld\<lparr> ld_insideBackend := False, ld_backendHasHost := False, ld_backendHasPort := False,
                ld_currentBackend := \<lparr> bc_name = [], bc_host = [], bc_port = 0, bc_weight = 1 \<rparr> \<rparr>;
              sect = trim (take (length line - 2) (drop 1 line));
              normalized = lower sect
          in if normalized = ''server'' \<or> normalized = ''health_check''
             then Inr (ld\<lparr> ld_section := normalized \<rparr>)
             else if take 8 normalized = ''backend '' then
               let bname = trim (drop 8 sect) in
               if bname = [] then Inl (RuntimeError (at_line ''empty backend name'' ld))
               else Inr (ld\<lparr> ld_currentBackend := (ld_currentBackend ld)\<lparr> bc_name := bname \<rparr>,
                      ld_section := ''backend'', ld_insideBackend := True \<rparr>)
             else Inl (RuntimeError (at_line ''unknown section'' ld @ '': '' @ sect)))"

definition assignBackendValue :: "Loader \<Rightarrow> string \<Rightarrow> string \<Rightarrow> Loader result" where
  "assignBackendValue ld key value =
     (let b = ld_currentBackend ld in
      if key = ''host'' then
        Inr (ld\<lparr> ld_currentBackend := b\<lparr> bc_host := value \<rparr>, ld_backendHasHost := True \<rparr>)
      else if key = ''port'' then
        parse_then value key 1 65535
          (\<lambda>v. ld\<lparr> ld_currentBackend := b\<lparr> bc_port := to_u16 v \<rparr>, ld_backendHasPort := True \<rparr>)
      else if key = ''weight'' then
        parse_then value key 1 1000 (\<lambda>v. ld\<lparr> ld_currentBackend := b\<lparr> bc_weight := to_size_t v \<rparr> \<rparr>)
      else Inl (RuntimeError (at_line ''unknown backend key'' ld @ '': '' @ key)))"

text \<open>A line \<^verbatim>\<open>key = value\<close>, dispatched on the current section.\<close>

definition keyValueLine :: "Loader \<Rightarrow> string \<Rightarrow> Loader result" where
  "keyValueLine ld line =
     (if CHR ''='' \<notin> set line then Inl (RuntimeError (at_line ''expected key=value'' ld))
      else
        let key = lower (trim (takeWhile (\<lambda>c. c \<noteq> CHR ''='') line));
            value = trim (drop 1 (dropWhile (\<lambda>c. c \<noteq> CHR ''='') line))
        in if key = [] \<or> value = [] then Inl (RuntimeError (at_line ''empty key or value'' ld))
           else if ld_section ld = ''server'' then
             (case assignServerValue (ld_config ld) key value of
                Inl e \<Rightarrow> Inl e | Inr c \<Rightarrow> Inr (ld\<lparr> ld_config := c \<rparr>))
           else if ld_section ld = ''health_check'' then
             (case assignHealthValue (ld_config ld) key value of
                Inl e \<Rightarrow> Inl e | Inr c \<Rightarrow> Inr (ld\<lparr> ld_config := c \<rparr>))
           else if ld_section ld = ''backend'' \<and> ld_insideBackend ld then assignBackendValue ld key value
           else Inl (RuntimeError (at_line ''key appears before a valid section'' ld)))"

definition loadLine :: "Loader \<Rightarrow> string \<Rightarrow> Loader result" where
  "loadLine ld line =
     (let ld = ld\<lparr> ld_lineNumber := ld_lineNumber ld + 1 \<rparr>;
          line = trim (strip_comment line)
      in if line = [] then Inr ld
         else if hd line = CHR ''['' \<and> last line = CHR '']'' then sectionLine ld line
         else keyValueLine ld line)"

fun loadLines :: "Loader \<Rightarrow> string list \<Rightarrow> Loader result" where
  "loadLines ld [] = Inr ld"
| "loadLines ld (l # ls) = (case loadLine ld l of Inl e \<Rightarrow> Inl e | Inr ld \<Rightarrow> loadLines ld ls)"

text \<open>The loop over \<^verbatim>\<open>config.backends\<close> with the map \<^verbatim>\<open>names\<close>.\<close>

fun checkNames :: "(string \<rightharpoonup> bool) \<Rightarrow> BackendConfig list \<Rightarrow> unit result" where
  "checkNames names [] = Inr ()"
| "checkNames names (b # bs) =
     (if names (bc_name b) = Some True then Inl (RuntimeError (''duplicate backend name: '' @ bc_name b))
      else checkNames (names(bc_name b \<mapsto> True)) bs)"

definition load :: "string \<Rightarrow> string option \<Rightarrow> AppConfig result" where
  "load path input =
     (case input of
        None \<Rightarrow> Inl (RuntimeError (''cannot open config file: '' @ path))
      | Some text \<Rightarrow>
         (case loadLines Loader_init (getlines text) of
            Inl e \<Rightarrow> Inl e
          | Inr ld \<Rightarrow>
             (case finishBackend ld of
                Inl e \<Rightarrow> Inl e
              | Inr ld \<Rightarrow>
                  let config = ld_config ld in
                  if cfg_backends config = [] then Inl (RuntimeError ''at least one backend is required'')
                  else if cfg_healthCheckTimeoutMs config \<ge> cfg_healthCheckIntervalMs config
                  then Inl (RuntimeError ''health_check.timeout_ms must be smaller than interval_ms'')
                  else (case checkNames Map.empty (cfg_backends config) of
                          Inl e \<Rightarrow> Inl e | Inr _ \<Rightarrow> Inr config))))"

section \<open>Ranges\<close>

lemma parse_then_Inr [config_simps]:
  "parse_then value key lo hi f = Inr x \<longleftrightarrow>
     (\<exists>v. parseLong value key lo hi = Inr v \<and> x = f v)"
  by (auto simp: parse_then_def split: sum.splits)

lemma parseLong_range: "parseLong value key lo hi = Inr v \<Longrightarrow> lo \<le> v \<and> v \<le> hi"
  by (auto simp: parseLong_def split: option.splits if_splits prod.splits)

lemma uint_to_u16: "0 \<le> v \<Longrightarrow> v \<le> 65535 \<Longrightarrow> uint (to_u16 v) = v"
  by (simp add: to_u16_def uint_word_of_int)

lemma uint_to_size_t: "0 \<le> v \<Longrightarrow> v < 2 ^ 64 \<Longrightarrow> uint (to_size_t v) = v"
  by (simp add: to_size_t_def uint_word_of_int)

lemma to_int_id: "- (2 ^ 31) \<le> v \<Longrightarrow> v < 2 ^ 31 \<Longrightarrow> to_int v = v"
  by (simp add: to_int_def signed_take_bit_int_eq_self)

definition backend_ok :: "BackendConfig \<Rightarrow> bool" where
  "backend_ok b \<longleftrightarrow> bc_name b \<noteq> [] \<and> bc_host b \<noteq> [] \<and> 1 \<le> uint (bc_port b) \<and>
     1 \<le> uint (bc_weight b) \<and> uint (bc_weight b) \<le> 1000"

definition ranges_ok :: "AppConfig \<Rightarrow> bool" where
  "ranges_ok c \<longleftrightarrow>
     cfg_listenHost c \<noteq> [] \<and>
     1 \<le> uint (cfg_listenPort c) \<and>
     uint (cfg_workers c) \<in> {1..128} \<and>
     cfg_backlog c \<in> {16..65535} \<and>
     uint (cfg_maxEvents c) \<in> {16..65536} \<and>
     uint (cfg_bufferSize c) \<in> {4096..16777216} \<and>
     cfg_connectTimeoutMs c \<in> {50..60000} \<and>
     cfg_idleTimeoutSeconds c \<in> {1..86400} \<and>
     cfg_statsIntervalSeconds c \<in> {0..3600} \<and>
     cfg_healthCheckIntervalMs c \<in> {200..600000} \<and>
     cfg_healthCheckTimeoutMs c \<in> {50..60000} \<and>
     uint (cfg_healthCheckFailureThreshold c) \<in> {1..100} \<and>
     uint (cfg_healthCheckSuccessThreshold c) \<in> {1..100}"

definition config_valid :: "AppConfig \<Rightarrow> bool" where
  "config_valid c \<longleftrightarrow> ranges_ok c \<and> cfg_backends c \<noteq> [] \<and> list_all backend_ok (cfg_backends c) \<and>
     distinct (map bc_name (cfg_backends c)) \<and>
     cfg_healthCheckTimeoutMs c < cfg_healthCheckIntervalMs c"

lemma ranges_ok_default: "ranges_ok AppConfig_default"
  by (simp add: ranges_ok_def AppConfig_default_def)

lemmas cast_facts = uint_to_u16 uint_to_size_t to_int_id

lemma parse_then_D:
  "parse_then value key lo hi f = Inr x \<Longrightarrow> \<exists>v. lo \<le> v \<and> v \<le> hi \<and> x = f v"
  by (auto simp: parse_then_Inr dest: parseLong_range)

lemma ranges_ok_set:
  assumes "ranges_ok c"
  shows
    "1 \<le> v \<Longrightarrow> v \<le> 65535 \<Longrightarrow> ranges_ok (c\<lparr> cfg_listenPort := to_u16 v \<rparr>)"
    "1 \<le> v \<Longrightarrow> v \<le> 128 \<Longrightarrow> ranges_ok (c\<lparr> cfg_workers := to_size_t v \<rparr>)"
    "16 \<le> v \<Longrightarrow> v \<le> 65535 \<Longrightarrow> ranges_ok (c\<lparr> cfg_backlog := to_int v \<rparr>)"
    "16 \<le> v \<Longrightarrow> v \<le> 65536 \<Longrightarrow> ranges_ok (c\<lparr> cfg_maxEvents := to_size_t v \<rparr>)"
    "4096 \<le> v \<Longrightarrow> v \<le> 16777216 \<Longrightarrow> ranges_ok (c\<lparr> cfg_bufferSize := to_size_t v \<rparr>)"
    "50 \<le> v \<Longrightarrow> v \<le> 60000 \<Longrightarrow> ranges_ok (c\<lparr> cfg_connectTimeoutMs := to_int v \<rparr>)"
    "1 \<le> v \<Longrightarrow> v \<le> 86400 \<Longrightarrow> ranges_ok (c\<lparr> cfg_idleTimeoutSeconds := to_int v \<rparr>)"
    "0 \<le> v \<Longrightarrow> v \<le> 3600 \<Longrightarrow> ranges_ok (c\<lparr> cfg_statsIntervalSeconds := to_int v \<rparr>)"
    "200 \<le> v \<Longrightarrow> v \<le> 600000 \<Longrightarrow> ranges_ok (c\<lparr> cfg_healthCheckIntervalMs := to_int v \<rparr>)"
    "50 \<le> v \<Longrightarrow> v \<le> 60000 \<Longrightarrow> ranges_ok (c\<lparr> cfg_healthCheckTimeoutMs := to_int v \<rparr>)"
    "1 \<le> v \<Longrightarrow> v \<le> 100 \<Longrightarrow> ranges_ok (c\<lparr> cfg_healthCheckFailureThreshold := to_size_t v \<rparr>)"
    "1 \<le> v \<Longrightarrow> v \<le> 100 \<Longrightarrow> ranges_ok (c\<lparr> cfg_healthCheckSuccessThreshold := to_size_t v \<rparr>)"
    "w \<noteq> [] \<Longrightarrow> ranges_ok (c\<lparr> cfg_listenHost := w \<rparr>)"
    "ranges_ok (c\<lparr> cfg_logLevel := w \<rparr>)"
  using assms by (simp_all add: ranges_ok_def cast_facts)

lemma assignServerValue_ok:
  assumes "ranges_ok c" "assignServerValue c key value = Inr c'" "value \<noteq> []"
  shows "ranges_ok c' \<and> cfg_backends c' = cfg_backends c"
  using assms(2,3) unfolding assignServerValue_def
  by (simp only: split: if_split_asm)
    (auto dest!: parse_then_D intro: ranges_ok_set [OF assms(1)])

lemma assignHealthValue_ok:
  assumes "ranges_ok c" "assignHealthValue c key value = Inr c'"
  shows "ranges_ok c' \<and> cfg_backends c' = cfg_backends c"
  using assms(2) unfolding assignHealthValue_def
  by (simp only: split: if_split_asm)
    (auto dest!: parse_then_D intro: ranges_ok_set [OF assms(1)])

section \<open>The loader invariant\<close>

text \<open>
  Between two lines: the scalar settings are in range, every submitted backend is complete, and an open
  backend section has a name, a weight in range and, once they were read, a host and a port in range.
\<close>

definition loader_inv :: "Loader \<Rightarrow> bool" where
  "loader_inv ld \<longleftrightarrow>
     ranges_ok (ld_config ld) \<and> list_all backend_ok (cfg_backends (ld_config ld)) \<and>
     (ld_insideBackend ld \<longrightarrow>
        bc_name (ld_currentBackend ld) \<noteq> [] \<and>
        1 \<le> uint (bc_weight (ld_currentBackend ld)) \<and> uint (bc_weight (ld_currentBackend ld)) \<le> 1000 \<and>
        (ld_backendHasHost ld \<longrightarrow> bc_host (ld_currentBackend ld) \<noteq> []) \<and>
        (ld_backendHasPort ld \<longrightarrow> 1 \<le> uint (bc_port (ld_currentBackend ld))))"

lemma loader_inv_init: "loader_inv Loader_init"
  using ranges_ok_default by (simp add: loader_inv_def Loader_init_def AppConfig_default_def)

lemma loader_inv_lineNumber [simp]: "loader_inv (ld\<lparr> ld_lineNumber := n \<rparr>) = loader_inv ld"
  by (simp add: loader_inv_def)

lemma ranges_ok_backends [simp]: "ranges_ok (c\<lparr> cfg_backends := bs \<rparr>) = ranges_ok c"
  by (simp add: ranges_ok_def)

lemma finishBackend_inv: "loader_inv ld \<Longrightarrow> finishBackend ld = Inr ld' \<Longrightarrow> loader_inv ld'"
  by (auto simp: finishBackend_def loader_inv_def backend_ok_def Let_def split: if_splits)

lemma sectionLine_inv:
  assumes "loader_inv ld" "sectionLine ld line = Inr ld'"
  shows "loader_inv ld'"
proof -
  obtain ld1 where f: "finishBackend ld = Inr ld1"
    using assms(2) by (auto simp: sectionLine_def split: sum.splits)
  from finishBackend_inv [OF assms(1) f] have "loader_inv ld1" .
  then show ?thesis
    using assms(2) f by (auto simp: sectionLine_def loader_inv_def Let_def split: if_split_asm)
qed

lemma assignBackendValue_inv:
  assumes "loader_inv ld" "ld_insideBackend ld" "assignBackendValue ld key value = Inr ld'" "value \<noteq> []"
  shows "loader_inv ld'"
  using assms unfolding assignBackendValue_def Let_def
  by (auto simp: parse_then_Inr loader_inv_def cast_facts dest!: parseLong_range split: if_split_asm)

lemma keyValueLine_inv:
  assumes "loader_inv ld" "keyValueLine ld line = Inr ld'"
  shows "loader_inv ld'"
proof -
  have cfg: "loader_inv (ld\<lparr> ld_config := c \<rparr>)"
    if "ranges_ok c" "cfg_backends c = cfg_backends (ld_config ld)" for c
    using that assms(1) by (simp add: loader_inv_def)
  have "ranges_ok (ld_config ld)" using assms(1) by (simp add: loader_inv_def)
  then show ?thesis
    using assms unfolding keyValueLine_def Let_def
    by (auto intro!: cfg elim: assignBackendValue_inv dest: assignServerValue_ok assignHealthValue_ok
        split: if_split_asm sum.splits)
qed

lemma loadLine_inv: "loader_inv ld \<Longrightarrow> loadLine ld line = Inr ld' \<Longrightarrow> loader_inv ld'"
  by (auto simp: loadLine_def Let_def split: if_split_asm elim: sectionLine_inv [rotated]
      keyValueLine_inv [rotated])

lemma loadLines_inv: "loader_inv ld \<Longrightarrow> loadLines ld ls = Inr ld' \<Longrightarrow> loader_inv ld'"
  by (induction ls arbitrary: ld) (auto split: sum.splits dest: loadLine_inv)

lemma checkNames_distinct:
  "checkNames names bs = Inr () \<longleftrightarrow>
     distinct (map bc_name bs) \<and> (\<forall>b\<in>set bs. names (bc_name b) \<noteq> Some True)"
  by (induction bs arbitrary: names) (force simp: image_iff)+

section \<open>A branch that cannot be taken\<close>

text \<open>
  The section text is trimmed before it is compared with the prefix, so what follows the blank of
  \<^verbatim>\<open>backend\<close> is not blank: the check for an empty backend name never fires.
\<close>

lemma trim_last: "trim s \<noteq> [] \<Longrightarrow> \<not> isspace (last (trim s))"
  using hd_dropWhile [of isspace "rev (dropWhile isspace s)"]
  by (simp add: trim_def last_rev)

lemma trim_Nil_iff: "trim s = [] \<longleftrightarrow> (\<forall>c\<in>set s. isspace c)"
proof
  assume "trim s = []"
  then have d: "\<forall>c\<in>set (dropWhile isspace s). isspace c" by (simp add: trim_def)
  have "dropWhile isspace s = []"
  proof (rule ccontr)
    assume ne: "dropWhile isspace s \<noteq> []"
    with hd_dropWhile [OF ne] d show False by simp
  qed
  then show "\<forall>c\<in>set s. isspace c" by simp
next
  assume "\<forall>c\<in>set s. isspace c"
  then show "trim s = []" by (auto simp: trim_def dest: set_dropWhileD)
qed

lemma backend_name_nonempty:
  assumes "take 8 (lower (trim s)) = ''backend ''"
  shows "trim (drop 8 (trim s)) \<noteq> []"
proof -
  let ?t = "trim s"
  have len: "8 \<le> length ?t" using arg_cong [OF assms, of length] by (simp add: lower_def)
  have "lower ?t ! 7 = CHR '' ''" using arg_cong [OF assms, of "\<lambda>x. x ! 7"] by simp
  then have "isspace (tolower (?t ! 7))" using len by (simp add: lower_def isspace_def)
  then have sp: "isspace (?t ! 7)" by simp
  have "?t \<noteq> []" using len by auto
  then have last: "\<not> isspace (last ?t)" "last ?t = ?t ! (length ?t - 1)"
    by (rule trim_last) (use \<open>?t \<noteq> []\<close> in \<open>rule last_conv_nth\<close>)
  with sp len have "length ?t \<noteq> 8" by (auto simp: numeral_eq_Suc)
  with len have "last (drop 8 ?t) = last ?t" "drop 8 ?t \<noteq> []" by auto
  with last(1) show ?thesis by (metis last_in_set trim_Nil_iff)
qed

section \<open>Printing and reading integers\<close>

lemma is_digit_char_of: "n < 10 \<Longrightarrow> is_digit (char_of (48 + n :: nat))"
  by (simp add: is_digit_def)

lemma nat_to_string_digits: "\<forall>c\<in>set (nat_to_string n). is_digit c"
proof (induction n rule: less_induct)
  case (less n)
  show ?case
    using less.IH [of "n div 10"] is_digit_char_of [of n] is_digit_char_of [of "n mod 10"]
    by (cases "n < 10") (simp_all add: nat_to_string.simps [of n] ball_Un)
qed

lemma digits_value_nat_to_string: "digits_value (nat_to_string n) = n"
proof (induction n rule: less_induct)
  case (less n)
  show ?case
  proof (cases "n < 10")
    case True
    then show ?thesis by (simp add: nat_to_string.simps [of n] digits_value_def)
  next
    case False
    then have "digits_value (nat_to_string (n div 10)) = n div 10" by (intro less.IH) simp
    then show ?thesis using False
      by (simp add: nat_to_string.simps [of n] digits_value_def)
  qed
qed

lemma digit_not_special: "is_digit c \<Longrightarrow> \<not> isspace c \<and> c \<noteq> CHR ''-'' \<and> c \<noteq> CHR ''+''"
  by (auto simp: is_digit_def isspace_def Let_def)

lemma stol_nat_to_string:
  assumes "int n < 2 ^ 63"
  shows "stol (nat_to_string n) = Some (int n, length (nat_to_string n))"
    and "stol (CHR ''-'' # nat_to_string n) = Some (- int n, length (nat_to_string n) + 1)"
proof -
  obtain c cs where s: "nat_to_string n = c # cs" by (cases "nat_to_string n") auto
  have d: "\<forall>x\<in>set (c # cs). is_digit x" using nat_to_string_digits [of n] by (simp only: s)
  then have c: "\<not> isspace c" "c \<noteq> CHR ''-''" "c \<noteq> CHR ''+''" using digit_not_special [of c] by simp_all
  have tw: "takeWhile is_digit (c # cs) = c # cs" using d by (simp add: takeWhile_eq_all_conv)
  have v: "digits_value (c # cs) = n" using digits_value_nat_to_string [of n] by (simp only: s)
  show "stol (nat_to_string n) = Some (int n, length (nat_to_string n))"
    using assms c tw v by (simp add: stol_def s)
  have "\<not> isspace (CHR ''-'')" by (simp add: isspace_def)
  then show "stol (CHR ''-'' # nat_to_string n) = Some (- int n, length (nat_to_string n) + 1)"
    using assms tw v by (simp add: stol_def s)
qed

section \<open>Properties\<close>

lemma load_config_valid:
  assumes "load path input = Inr config"
  shows "config_valid config"
proof -
  obtain str ld ld' where steps: "input = Some str" "loadLines Loader_init (getlines str) = Inr ld"
    "finishBackend ld = Inr ld'" and cfg: "config = ld_config ld'" "cfg_backends config \<noteq> []"
    "\<not> cfg_healthCheckTimeoutMs config \<ge> cfg_healthCheckIntervalMs config"
    "checkNames Map.empty (cfg_backends config) = Inr ()"
    using assms by (auto simp: load_def Let_def split: option.splits sum.splits if_split_asm)
  have "loader_inv ld'" using steps loader_inv_init by (blast intro: finishBackend_inv loadLines_inv)
  then show ?thesis using cfg by (auto simp: config_valid_def loader_inv_def checkNames_distinct)
qed

text \<open>C10. A configuration that loads is valid: every number is within the range the program is written for, there is at
  least one backend, every backend is complete (a name, a host, a port and a weight between 1 and 1000), names are unique, the listening
  address is not empty, and a health probe times out before the next one starts.\<close>

theorem load_valid:
  assumes "load path input = Inr config"
  shows "config_valid config"
  using assms by (rule load_config_valid)

definition sample_config :: string where
  "sample_config = ''[server]'' @ [char_of (10 :: nat)] @ ''workers = 2 # two'' @ [char_of (10 :: nat)] @
     ''[backend a]'' @ [char_of (10 :: nat)] @ ''host = h'' @ [char_of (10 :: nat)] @ ''port = 80'' @ [char_of (10 :: nat)]"

theorem load_valid_witness:
  "\<exists>config. load ''f'' (Some sample_config) = Inr config \<and> config_valid config \<and> cfg_workers config = 2"
proof -
  have "case load ''f'' (Some sample_config) of Inl _ \<Rightarrow> False | Inr c \<Rightarrow> cfg_workers c = 2" by code_simp
  then obtain c where c: "load ''f'' (Some sample_config) = Inr c" "cfg_workers c = 2" by (auto split: sum.splits)
  then show ?thesis using load_valid [OF c(1)] by blast
qed

text \<open>C37. Integers survive printing and reading: the decimal text of a number within the allowed range is accepted by
  \<open>parseLong\<close> with that very number.\<close>

theorem parseLong_roundtrip:
  assumes "lo \<le> v" "v \<le> hi" "\<bar>v\<bar> < 2 ^ 63"
  shows "parseLong (int_to_string v) key lo hi = Inr v"
  using assms stol_nat_to_string [of "nat v"] stol_nat_to_string [of "nat (- v)"]
  by (cases "v < 0") (simp_all add: parseLong_def int_to_string_def)

theorem parseLong_roundtrip_witness: "parseLong (int_to_string 65535) ''port'' 1 65535 = Inr 65535"
  by (rule parseLong_roundtrip) simp_all

text \<open>\<open>parseLong\<close> accepts nothing out of range and never crashes: the answer is a value between the two bounds, or one of
  its two error messages.\<close>

lemma parseLong_total:
  "case parseLong value key lo hi of
     Inr v \<Rightarrow> lo \<le> v \<and> v \<le> hi
   | Inl e \<Rightarrow> e = RuntimeError (''invalid integer for '' @ quoted key @ '': '' @ value) \<or>
       e = RuntimeError (''value out of range for '' @ quoted key @ '': '' @ value)"
  by (auto simp: parseLong_def split: option.splits)

text \<open>Comments do not matter: whatever follows the first number sign or semicolon of a line has no effect on loading.\<close>

lemma comments_ignored:
  assumes "c = CHR ''#'' \<or> c = CHR '';''"
  shows "loadLine ld (line @ c # comment) = loadLine ld line"
proof -
  have "strip_comment (line @ c # comment) = strip_comment line"
    using assms unfolding strip_comment_def by (intro takeWhile_stop) auto
  then show ?thesis by (simp add: loadLine_def)
qed

text \<open>C38. The check for an empty backend name is dead code: no section line is ever answered with that error, since a
  section text that starts with the backend keyword and a blank was trimmed and so goes on with a name.\<close>

theorem empty_backend_name_unreachable:
  "sectionLine ld line \<noteq> Inl (RuntimeError (''empty backend name'' @ rest))"
proof
  assume eq: "sectionLine ld line = Inl (RuntimeError (''empty backend name'' @ rest))"
  have fb: "finishBackend ld \<noteq> Inl (RuntimeError (''empty backend name'' @ rest))"
    by (simp add: finishBackend_def Let_def)
  show False
  proof (cases "finishBackend ld")
    case (Inl e)
    then show ?thesis using eq fb by (simp add: sectionLine_def)
  next
    case (Inr ld1)
    note eq' = eq [unfolded sectionLine_def Inr sum.case Let_def]
    show ?thesis
      using eq' backend_name_nonempty [of "take (length line - 2) (drop 1 line)"]
      by (simp only: split: if_split_asm) (simp_all only: sum.inject exn.inject at_line_def sum.distinct, simp_all)
  qed
qed

end
