(* ===== verification/UniqueFd.thy ===== *)
theory UniqueFd
  imports OS
begin

text \<open>
  Exclusive ownership of a resource. The locale \<open>raii_handle\<close> is the discipline shared by
  \<^verbatim>\<open>UniqueFd\<close> (a descriptor, given back by \<^verbatim>\<open>close\<close>) and \<^verbatim>\<open>BackendLease\<close> (a unit of a backend's
  connection count, given back by \<^verbatim>\<open>Backend::release\<close>); its consequences about moves and destruction
  are proved once. This theory models \<^verbatim>\<open>UniqueFd.h\<close> and interprets the locale on it; \<open>Backend\<close> does
  the same for the lease.
\<close>

section \<open>Owning handles\<close>

locale raii_handle =
  fixes owned :: "'h \<Rightarrow> 'r option"
    and give_back :: "'r \<Rightarrow> 'w \<Rightarrow> 'w"
    and reset :: "'h \<Rightarrow> 'w \<Rightarrow> 'h \<times> 'w"
    and move :: "'h \<Rightarrow> 'h \<times> 'h"
    and move_assign :: "'h \<Rightarrow> 'h \<Rightarrow> 'w \<Rightarrow> 'h \<times> 'h \<times> 'w"
  assumes reset_handle: "owned (fst (reset x w)) = None"
    and reset_world: "snd (reset x w) = (case owned x of None \<Rightarrow> w | Some r \<Rightarrow> give_back r w)"
    and move_new: "owned (fst (move x)) = owned x"
    and move_old: "owned (snd (move x)) = None"
    and assign_eq: "move_assign x y w =
      (case reset x w of (_, w') \<Rightarrow> (fst (move y), snd (move y), w'))"
begin

definition destroy :: "'h \<Rightarrow> 'w \<Rightarrow> 'w" where
  "destroy x w = snd (reset x w)"

lemma destroy_empty: "owned x = None \<Longrightarrow> destroy x w = w"
  by (simp add: destroy_def reset_world)

lemma destroy_owned: "owned x = Some r \<Longrightarrow> destroy x w = give_back r w"
  by (simp add: destroy_def reset_world)

text \<open>An early reset makes the later destruction a no-op: the resource goes back once.\<close>

lemma destroy_after_reset: "destroy (fst (reset x w)) (snd (reset x w)) = destroy x w"
  by (simp add: destroy_empty reset_handle) (simp add: destroy_def)

text \<open>After a move the two handles together give back what the one owned.\<close>

lemma destroy_moved: "destroy (snd (move x)) (destroy (fst (move x)) w) = destroy x w"
  by (cases "owned x") (simp_all add: destroy_empty destroy_owned move_new move_old)

lemma assign_transfers:
  assumes "move_assign x y w = (x', y', w')"
  shows "owned x' = owned y \<and> owned y' = None \<and> w' = destroy x w"
  using assms by (auto simp: assign_eq move_new move_old destroy_def split: prod.splits)

end

section \<open>File descriptors\<close>

record UniqueFd =
  uf_fd :: fd

definition UniqueFd_new :: "fd \<Rightarrow> UniqueFd" where
  "UniqueFd_new fd = \<lparr> uf_fd = fd \<rparr>"

definition UniqueFd_get :: "UniqueFd \<Rightarrow> fd" where
  "UniqueFd_get u = uf_fd u"

definition UniqueFd_valid :: "UniqueFd \<Rightarrow> bool" where
  "UniqueFd_valid u = (uf_fd u \<ge> 0)"

definition UniqueFd_release :: "UniqueFd \<Rightarrow> fd \<times> UniqueFd" where
  "UniqueFd_release u = (let value = uf_fd u in (value, u\<lparr> uf_fd := -1 \<rparr>))"

definition UniqueFd_reset :: "fd \<Rightarrow> UniqueFd \<Rightarrow> os \<Rightarrow> UniqueFd \<times> os" where
  "UniqueFd_reset fd u h =
     (let h = (if uf_fd u \<ge> 0 then sys_close (uf_fd u) h else h) in (u\<lparr> uf_fd := fd \<rparr>, h))"

definition UniqueFd_destroy :: "UniqueFd \<Rightarrow> os \<Rightarrow> os" where
  "UniqueFd_destroy u h = snd (UniqueFd_reset (-1) u h)"

definition UniqueFd_move :: "UniqueFd \<Rightarrow> UniqueFd \<times> UniqueFd" where
  "UniqueFd_move other = (let (value, other) = UniqueFd_release other in (UniqueFd_new value, other))"

text \<open>Move assignment between two distinct objects; assigning an object to itself changes nothing.\<close>

definition UniqueFd_move_assign ::
  "UniqueFd \<Rightarrow> UniqueFd \<Rightarrow> os \<Rightarrow> UniqueFd \<times> UniqueFd \<times> os" where
  "UniqueFd_move_assign this other h =
     (let (value, other) = UniqueFd_release other;
          (this, h) = UniqueFd_reset value this h
      in (this, other, h))"

definition fd_owned :: "UniqueFd \<Rightarrow> fd option" where
  "fd_owned u = (if UniqueFd_valid u then Some (uf_fd u) else None)"

lemmas UniqueFd_defs = UniqueFd_new_def UniqueFd_get_def UniqueFd_valid_def UniqueFd_release_def
  UniqueFd_reset_def UniqueFd_destroy_def UniqueFd_move_def UniqueFd_move_assign_def fd_owned_def

interpretation ufd: raii_handle fd_owned sys_close "UniqueFd_reset (-1)" UniqueFd_move
  UniqueFd_move_assign
  by unfold_locales (auto simp: UniqueFd_defs Let_def)

lemma destroy_is_destroy: "ufd.destroy = UniqueFd_destroy"
  by (simp add: fun_eq_iff ufd.destroy_def UniqueFd_destroy_def)

text \<open>A descriptor handed out by \<^verbatim>\<open>release\<close> is not closed by the object that gave it away.\<close>

lemma destroy_released: "UniqueFd_destroy (snd (UniqueFd_release u)) h = h"
  by (simp add: UniqueFd_defs)

lemma destroy_new [simp]:
  "UniqueFd_destroy (UniqueFd_new f) h = (if f \<ge> 0 then h @ [Close f] else h)"
  by (simp add: UniqueFd_defs sys_close_def)

lemma UniqueFd_new_simps [simp]:
  "UniqueFd_get (UniqueFd_new f) = f"
  "UniqueFd_valid (UniqueFd_new f) \<longleftrightarrow> f \<ge> 0"
  "fst (UniqueFd_release (UniqueFd_new f)) = f"
  by (simp_all add: UniqueFd_defs)

section \<open>Properties\<close>

text \<open>C29. A descriptor has one owner and is closed once: when an owner is moved and both objects are destroyed, when it is reset
  and then destroyed, and when it is released, the descriptor is closed once, once and not at all; a move assignment
  closes what the target held and hands the source's descriptor over.\<close>

theorem unique_fd_closed_once:
  "UniqueFd_destroy (snd (UniqueFd_move u)) (UniqueFd_destroy (fst (UniqueFd_move u)) h)
     = (if uf_fd u \<ge> 0 then h @ [Close (uf_fd u)] else h) \<and>
   UniqueFd_destroy (fst (UniqueFd_reset (-1) u h)) (snd (UniqueFd_reset (-1) u h))
     = (if uf_fd u \<ge> 0 then h @ [Close (uf_fd u)] else h) \<and>
   UniqueFd_destroy (snd (UniqueFd_release u)) h = h \<and>
   (case UniqueFd_move_assign this u h of (this', u', h') \<Rightarrow>
      fd_owned this' = fd_owned u \<and> fd_owned u' = None \<and> h' = UniqueFd_destroy this h)"
proof -
  have d: "UniqueFd_destroy u h = (if uf_fd u \<ge> 0 then h @ [Close (uf_fd u)] else h)"
    by (simp add: UniqueFd_defs sys_close_def)
  show ?thesis
    using ufd.destroy_moved [of u h] ufd.destroy_after_reset [of u h] destroy_released [of u h]
      ufd.assign_transfers [of this u h]
    by (auto simp: destroy_is_destroy d split: prod.splits)
qed

end
