(* ===== verification/Environment.thy ===== *)
theory Environment
  imports OS
begin

text \<open>
  One concrete environment that meets every contract of theory \<open>OS\<close>, so that the hypotheses of the theorems can
  be met, and executable, so that the model can be run on it. Peers send two bytes and then nothing, \<^verbatim>\<open>send\<close> takes
  one byte at a time, connects are in progress at first and succeed, every name resolves to one address.
\<close>

text \<open>A descriptor above all that were ever handed out.\<close>

fun fd_above :: "sysevent \<Rightarrow> fd \<Rightarrow> fd" where
  "fd_above (Socket _ (Ok f)) m = max m (f + 1)"
| "fd_above (Accept4 _ (Ok (f, _))) m = max m (f + 1)"
| "fd_above (EpollCreate (Ok f)) m = max m (f + 1)"
| "fd_above (EventFd (Ok f)) m = max m (f + 1)"
| "fd_above _ m = m"

definition next_fd :: "os \<Rightarrow> fd" where
  "next_fd h = fold fd_above h 3"

definition sample_address :: sockaddr_storage where
  "sample_address = \<lparr> ss_family = AF_INET, sin_addr = [127, 0, 0, 1], sin_port = 0 \<rparr>"

text \<open>One client is waiting.\<close>

fun is_accepted :: "sysevent \<Rightarrow> bool" where
  "is_accepted (Accept4 l (Ok _)) = True"
| "is_accepted e = False"

definition sample_kernel :: kernel where
  "sample_kernel =
     \<lparr> k_recv = \<lambda>h fd n. if received fd h = [] then Ok (take (unat n) [104, 105]) else Err EAGAIN,
       k_send = \<lambda>h fd bs. Ok (if bs = [] then 0 else 1),
       k_so_error = \<lambda>h fd. Ok 0,
       k_now = \<lambda>h. int (length h),
       k_getaddrinfo = \<lambda>h host service. Ok [\<lparr> ai_addrlen = 16, ai_addr = sample_address \<rparr>],
       k_inet_ntop = \<lambda>fam a. ''127.0.0.1'',
       k_socket = \<lambda>h fam. Ok (next_fd h),
       k_fcntl = \<lambda>h fd c. Ok 0,
       k_setsockopt = \<lambda>h fd c. Ok (),
       k_bind = \<lambda>h fd a l. Ok (),
       k_listen = \<lambda>h fd b. Ok (),
       k_connect = \<lambda>h fd a l. Err EINPROGRESS,
       k_poll = \<lambda>h fd ev t. Ok (1, ev),
       k_accept4 = \<lambda>h l. if list_ex is_accepted h then Err EAGAIN else Ok (next_fd h, sample_address),
       k_epoll_create1 = \<lambda>h. Ok (next_fd h),
       k_eventfd = \<lambda>h. Ok (next_fd h),
       k_epoll_ctl = \<lambda>h ep op fd ev. Ok (),
       k_epoll_wait = \<lambda>h ep n t. Ok [],
       k_eventfd_read = \<lambda>h fd. Err EAGAIN,
       k_eventfd_write = \<lambda>h fd. Ok (),
       k_sigaction = \<lambda>h n. Ok () \<rparr>"

lemma fd_above_mono: "m \<le> fd_above e m"
  by (induction e m rule: fd_above.induct) auto

lemma fold_fd_above_mono: "m \<le> fold fd_above h m"
proof (induction h arbitrary: m)
  case (Cons e h)
  show ?case using order_trans [OF fd_above_mono [of m e] Cons.IH] by simp
qed simp

lemma fd_step_below: "\<forall>f\<in>A. f < m \<Longrightarrow> f \<in> fd_step e A \<Longrightarrow> f < fd_above e m"
  by (induction e m rule: fd_above.induct) (auto simp: max_def split: if_splits)

lemma fold_fd_step_below: "\<forall>f\<in>A. f < m \<Longrightarrow> f \<in> fold fd_step h A \<Longrightarrow> f < fold fd_above h m"
proof (induction h arbitrary: A m)
  case (Cons e h)
  have "\<forall>f\<in>fd_step e A. f < fd_above e m" using Cons.prems(1) fd_step_below by blast
  with Cons show ?case by simp
qed simp

lemma next_fd_fresh: "0 \<le> next_fd h \<and> next_fd h \<notin> open_fds h"
  using fold_fd_step_below [of "{}" 3 "next_fd h" h] fold_fd_above_mono [of 3 h]
  by (auto simp: next_fd_def open_fds_def)

lemma sample_contracts:
  "recv_bounded sample_kernel" "send_bounded sample_kernel" "fresh_fds sample_kernel" "eintr_bounded sample_kernel 0"
  by (auto simp: recv_bounded_def send_bounded_def fresh_fds_def eintr_bounded_def sample_kernel_def next_fd_fresh
      Suc_le_eq split: if_splits)

lemma sample_poll_bounded: "poll_bounded sample_kernel 0"
  by (simp add: poll_bounded_def sample_kernel_def)

end
