(* ===== verification/Net.thy ===== *)
theory Net
  imports UniqueFd Environment
begin

text \<open>
  The socket helpers of \<^verbatim>\<open>Net.cpp\<close>: descriptor flags, address resolution, the listening socket, the
  non-blocking connect and the health probe. A throwing function is a computation \<open>'a io\<close> that returns
  an exception or a value together with the history; unwinding through a \<^verbatim>\<open>UniqueFd\<close> is \<open>guard_fd\<close>.
\<close>

section \<open>Computations that may throw\<close>

type_synonym 'a io = "os \<Rightarrow> 'a result \<times> os"

definition io_return :: "'a \<Rightarrow> 'a io" where
  "io_return x h = (Inr x, h)"

definition io_throw :: "exn \<Rightarrow> 'a io" where
  "io_throw e h = (Inl e, h)"

definition io_bind :: "'a io \<Rightarrow> ('a \<Rightarrow> 'b io) \<Rightarrow> 'b io" where
  "io_bind m f h = (case m h of (Inl e, h) \<Rightarrow> (Inl e, h) | (Inr x, h) \<Rightarrow> f x h)"

text \<open>
  The scope of a local \<^verbatim>\<open>UniqueFd\<close>: its destructor runs at the end, on the object as it was when an exception leaves the scope, and on what
  the body has left of it (the second component of the result) when the body returns.
\<close>

definition guard_fd :: "UniqueFd \<Rightarrow> ('a \<times> UniqueFd) io \<Rightarrow> 'a io" where
  "guard_fd u m h =
     (case m h of
        (Inl e, h) \<Rightarrow> (Inl e, UniqueFd_destroy u h)
      | (Inr (x, u'), h) \<Rightarrow> (Inr x, UniqueFd_destroy u' h))"

lemmas io_simps = io_return_def io_throw_def

text \<open>A call whose failure is turned into \<^verbatim>\<open>systemError(action)\<close>.\<close>

definition systemError :: "string \<Rightarrow> errno \<Rightarrow> exn" where
  "systemError action e = SystemError action e"

definition sys_fcntl :: "kernel \<Rightarrow> fd \<Rightarrow> fcntl_cmd \<Rightarrow> os \<Rightarrow> int sysret \<times> os" where [os_simps]:
  "sys_fcntl K fd c h = (k_fcntl K h fd c, h @ [Fcntl fd c (k_fcntl K h fd c)])"

definition sys_setsockopt :: "kernel \<Rightarrow> fd \<Rightarrow> sockopt \<Rightarrow> os \<Rightarrow> unit sysret \<times> os" where [os_simps]:
  "sys_setsockopt K fd c h = (k_setsockopt K h fd c, h @ [SetSockOpt fd c (k_setsockopt K h fd c)])"

definition sys_socket :: "kernel \<Rightarrow> int \<Rightarrow> os \<Rightarrow> fd sysret \<times> os" where [os_simps]:
  "sys_socket K fam h = (k_socket K h fam, h @ [Socket fam (k_socket K h fam)])"

definition sys_bind :: "kernel \<Rightarrow> fd \<Rightarrow> sockaddr_storage \<Rightarrow> nat \<Rightarrow> os \<Rightarrow> unit sysret \<times> os" where
  [os_simps]: "sys_bind K fd a l h = (k_bind K h fd a l, h @ [Bind fd a l (k_bind K h fd a l)])"

definition sys_listen :: "kernel \<Rightarrow> fd \<Rightarrow> int \<Rightarrow> os \<Rightarrow> unit sysret \<times> os" where [os_simps]:
  "sys_listen K fd b h = (k_listen K h fd b, h @ [Listen fd b (k_listen K h fd b)])"

definition sys_connect :: "kernel \<Rightarrow> fd \<Rightarrow> sockaddr_storage \<Rightarrow> nat \<Rightarrow> os \<Rightarrow> unit sysret \<times> os" where
  [os_simps]: "sys_connect K fd a l h =
    (k_connect K h fd a l, h @ [Connect fd a l (k_connect K h fd a l)])"

definition sys_poll :: "kernel \<Rightarrow> fd \<Rightarrow> int \<Rightarrow> int \<Rightarrow> os \<Rightarrow> (int \<times> int) sysret \<times> os" where [os_simps]:
  "sys_poll K fd ev t h = (k_poll K h fd ev t, h @ [Poll fd ev t (k_poll K h fd ev t)])"

definition sys_getaddrinfo :: "kernel \<Rightarrow> string \<Rightarrow> string \<Rightarrow> os \<Rightarrow> addrinfo list sysret \<times> os" where
  [os_simps]: "sys_getaddrinfo K host service h =
    (k_getaddrinfo K h host service, h @ [GetAddrInfo host service (k_getaddrinfo K h host service)])"

section \<open>Descriptor flags\<close>

definition setReuseAddress :: "kernel \<Rightarrow> fd \<Rightarrow> unit io" where
  "setReuseAddress K fd h =
     (case sys_setsockopt K fd SO_REUSEADDR h of
        (Err e, h) \<Rightarrow> io_throw (systemError ''setsockopt(SO_REUSEADDR) failed'' e) h
      | (Ok _, h) \<Rightarrow> io_return () h)"

definition setNonBlocking :: "kernel \<Rightarrow> fd \<Rightarrow> unit io" where
  "setNonBlocking K fd h =
     (case sys_fcntl K fd F_GETFL h of
        (Err e, h) \<Rightarrow> io_throw (systemError ''fcntl(O_NONBLOCK) failed'' e) h
      | (Ok flags, h) \<Rightarrow>
          (case sys_fcntl K fd (F_SETFL (flags OR O_NONBLOCK)) h of
             (Err e, h) \<Rightarrow> io_throw (systemError ''fcntl(O_NONBLOCK) failed'' e) h
           | (Ok _, h) \<Rightarrow> io_return () h))"

definition setCloseOnExec :: "kernel \<Rightarrow> fd \<Rightarrow> unit io" where
  "setCloseOnExec K fd h =
     (case sys_fcntl K fd F_GETFD h of
        (Err e, h) \<Rightarrow> io_throw (systemError ''fcntl(FD_CLOEXEC) failed'' e) h
      | (Ok flags, h) \<Rightarrow>
          (case sys_fcntl K fd (F_SETFD (flags OR FD_CLOEXEC)) h of
             (Err e, h) \<Rightarrow> io_throw (systemError ''fcntl(FD_CLOEXEC) failed'' e) h
           | (Ok _, h) \<Rightarrow> io_return () h))"

definition setTcpNoDelay :: "kernel \<Rightarrow> fd \<Rightarrow> unit io" where
  "setTcpNoDelay K fd h =
     (case sys_setsockopt K fd TCP_NODELAY h of
        (Err e, h) \<Rightarrow> io_throw (systemError ''setsockopt(TCP_NODELAY) failed'' e) h
      | (Ok _, h) \<Rightarrow> io_return () h)"

section \<open>Address resolution\<close>

record ResolvedEndpoint =
  ep_address :: sockaddr_storage
  ep_length :: nat
  ep_text :: string

record ConnectResult =
  cr_fd :: fd
  cr_connecting :: bool

definition sizeof_sockaddr_storage :: nat where
  "sizeof_sockaddr_storage = 128"

text \<open>The loop over the list returned by \<^verbatim>\<open>getaddrinfo\<close>: the first entry that fits.\<close>

fun first_usable :: "addrinfo list \<Rightarrow> (sockaddr_storage \<times> nat) option" where
  "first_usable [] = None"
| "first_usable (item # rest) =
     (if ai_addrlen item \<le> sizeof_sockaddr_storage then Some (ai_addr item, ai_addrlen item)
      else first_usable rest)"

definition resolveTcpEndpoint :: "kernel \<Rightarrow> string \<Rightarrow> u16 \<Rightarrow> ResolvedEndpoint io" where
  "resolveTcpEndpoint K host port h =
     (let service = nat_to_string (unat port) in
      case sys_getaddrinfo K host service h of
        (Err status, h) \<Rightarrow> io_throw (SystemError (''getaddrinfo failed for '' @ host) status) h
      | (Ok result, h) \<Rightarrow>
          (case first_usable result of
             None \<Rightarrow> io_throw (RuntimeError (''no usable address for '' @ host)) h
           | Some (address, len) \<Rightarrow>
               if len = 0 then io_throw (RuntimeError (''no usable address for '' @ host)) h
               else
                 let family = (if ss_family address = AF_INET then AF_INET else AF_INET6)
                 in io_return \<lparr> ep_address = address, ep_length = len,
                      ep_text = k_inet_ntop K family (sin_addr address) @ '':'' @ service \<rparr> h))"

section \<open>Sockets\<close>

definition createListenSocket :: "kernel \<Rightarrow> string \<Rightarrow> u16 \<Rightarrow> int \<Rightarrow> fd io" where
  "createListenSocket K host port backlog =
     io_bind (resolveTcpEndpoint K host port) (\<lambda>endpoint h.
       case sys_socket K (ss_family (ep_address endpoint)) h of
         (Err e, h) \<Rightarrow> io_throw (systemError ''socket failed'' e) h
       | (Ok f, h) \<Rightarrow>
           let socketFd = UniqueFd_new f in
           guard_fd socketFd (
             io_bind (setCloseOnExec K (UniqueFd_get socketFd)) (\<lambda>_.
             io_bind (setNonBlocking K (UniqueFd_get socketFd)) (\<lambda>_.
             io_bind (setReuseAddress K (UniqueFd_get socketFd)) (\<lambda>_ h.
             case sys_bind K (UniqueFd_get socketFd) (ep_address endpoint) (ep_length endpoint) h of
               (Err e, h) \<Rightarrow> io_throw (systemError ''bind failed'' e) h
             | (Ok _, h) \<Rightarrow>
                 (case sys_listen K (UniqueFd_get socketFd) backlog h of
                    (Err e, h) \<Rightarrow> io_throw (systemError ''listen failed'' e) h
                  | (Ok _, h) \<Rightarrow> io_return (UniqueFd_release socketFd) h))))) h)"

definition connectNonBlocking :: "kernel \<Rightarrow> ResolvedEndpoint \<Rightarrow> ConnectResult io" where
  "connectNonBlocking K endpoint h =
     (case sys_socket K (ss_family (ep_address endpoint)) h of
        (Err e, h) \<Rightarrow> io_throw (systemError ''upstream socket failed'' e) h
      | (Ok f, h) \<Rightarrow>
          let socketFd = UniqueFd_new f in
          guard_fd socketFd (
            io_bind (setCloseOnExec K (UniqueFd_get socketFd)) (\<lambda>_.
            io_bind (setNonBlocking K (UniqueFd_get socketFd)) (\<lambda>_.
            io_bind (setTcpNoDelay K (UniqueFd_get socketFd)) (\<lambda>_ h.
            case sys_connect K (UniqueFd_get socketFd) (ep_address endpoint) (ep_length endpoint) h of
              (Ok _, h) \<Rightarrow>
                (let (fd, socketFd) = UniqueFd_release socketFd
                 in io_return (\<lparr> cr_fd = fd, cr_connecting = False \<rparr>, socketFd) h)
            | (Err e, h) \<Rightarrow>
                if e = EINPROGRESS
                then (let (fd, socketFd) = UniqueFd_release socketFd
                      in io_return (\<lparr> cr_fd = fd, cr_connecting = True \<rparr>, socketFd) h)
                else io_throw
                  (systemError (''connect to '' @ ep_text endpoint @ '' failed'') e) h)))) h)"

text \<open>\<^verbatim>\<open>do \<dots> while (pollResult < 0 && errno == EINTR)\<close>; \<open>None\<close> when the calls never stop being interrupted.\<close>

partial_function (option) poll_loop ::
  "kernel \<Rightarrow> fd \<Rightarrow> int \<Rightarrow> os \<Rightarrow> ((int \<times> int) sysret \<times> os) option" where
  "poll_loop K fd timeoutMs h =
     (let r = k_poll K h fd POLLOUT timeoutMs; h' = h @ [Poll fd POLLOUT timeoutMs r] in
      if r = Err EINTR then poll_loop K fd timeoutMs h' else Some (r, h'))"

declare poll_loop.simps [code]

text \<open>The local \<^verbatim>\<open>UniqueFd socketFd(result.fd)\<close> is destroyed on every way out after the connect.\<close>

definition waitForConnect :: "kernel \<Rightarrow> ResolvedEndpoint \<Rightarrow> int \<Rightarrow> os \<Rightarrow> (bool \<times> os) option" where
  "waitForConnect K endpoint timeoutMs h =
     (case connectNonBlocking K endpoint h of
        (Inl _, h) \<Rightarrow> Some (False, h)
      | (Inr result, h) \<Rightarrow>
          let socketFd = UniqueFd_new (cr_fd result) in
          if \<not> cr_connecting result then Some (True, UniqueFd_destroy socketFd h)
          else do {
            (pollResult, h) \<leftarrow> poll_loop K (UniqueFd_get socketFd) timeoutMs h;
            (case pollResult of
               Err _ \<Rightarrow> Some (False, UniqueFd_destroy socketFd h)
             | Ok (n, _) \<Rightarrow>
                 if n \<le> 0 then Some (False, UniqueFd_destroy socketFd h)
                 else let (r, h) = sys_so_error K (UniqueFd_get socketFd) h
                      in Some (r = Ok 0, UniqueFd_destroy socketFd h)) })"

text \<open>\<^verbatim>\<open>ntohs\<close> on the little-endian hosts the program is built for.\<close>

definition ntohs :: "u16 \<Rightarrow> u16" where
  "ntohs p = push_bit 8 p OR drop_bit 8 p"

definition peerAddress :: "kernel \<Rightarrow> sockaddr_storage \<Rightarrow> string" where
  "peerAddress K address =
     (if ss_family address = AF_INET
      then k_inet_ntop K AF_INET (sin_addr address) @ '':'' @ nat_to_string (unat (ntohs (sin_port address)))
      else if ss_family address = AF_INET6
      then k_inet_ntop K AF_INET6 (sin_addr address) @ '':'' @ nat_to_string (unat (ntohs (sin_port address)))
      else ''unknown'')"

section \<open>Descriptor accounting\<close>

text \<open>A computation that neither opens nor closes a descriptor.\<close>

definition fd_neutral :: "'a io \<Rightarrow> bool" where
  "fd_neutral m \<longleftrightarrow>
     (\<forall>h. open_fds (snd (m h)) = open_fds h \<and> (closes_ok h \<longrightarrow> closes_ok (snd (m h))))"

lemma fd_neutral_bind:
  "fd_neutral m \<Longrightarrow> (\<And>x. fd_neutral (f x)) \<Longrightarrow> fd_neutral (io_bind m f)"
  unfolding fd_neutral_def io_bind_def
  by (auto split: prod.splits sum.splits) (metis snd_conv)+

lemma fd_neutral_prims [intro, simp]:
  "fd_neutral (setReuseAddress K fd)" "fd_neutral (setNonBlocking K fd)"
  "fd_neutral (setCloseOnExec K fd)" "fd_neutral (setTcpNoDelay K fd)"
  "fd_neutral (resolveTcpEndpoint K host port)"
  by (auto simp: fd_neutral_def setReuseAddress_def setNonBlocking_def setCloseOnExec_def
      setTcpNoDelay_def resolveTcpEndpoint_def os_simps io_simps Let_def
      split: sysret.splits option.splits)

text \<open>
  The shape shared by the two socket constructors: a fresh descriptor, a computation guarded by its
  owner, and the descriptor released on success.
\<close>

definition releases :: "('a \<Rightarrow> fd) \<Rightarrow> fd \<Rightarrow> ('a \<times> UniqueFd) io \<Rightarrow> bool" where
  "releases val f m \<longleftrightarrow> (\<forall>h x u h'. m h = (Inr (x, u), h') \<longrightarrow> val x = f \<and> uf_fd u = -1)"

lemma guard_fd_value:
  assumes "guard_fd u m h = (Inr x, h')" "releases val f m"
  shows "\<exists>u'. m h = (Inr (x, u'), h') \<and> val x = f"
proof -
  obtain u' h1 where m: "m h = (Inr (x, u'), h1)" "h' = UniqueFd_destroy u' h1"
    using assms(1) by (auto simp: guard_fd_def split: prod.split_asm sum.split_asm)
  then have "val x = f" "uf_fd u' = -1" using assms(2) unfolding releases_def by blast+
  then show ?thesis using m by (simp add: UniqueFd_destroy_def UniqueFd_reset_def)
qed

lemma guard_fd_accounting:
  assumes m: "fd_neutral m" and f: "f \<ge> 0" "f \<in> open_fds h"
    and released: "releases val f m"
    and eq: "guard_fd (UniqueFd_new f) m h = (r, h')"
  shows "open_fds h' = (case r of Inl _ \<Rightarrow> open_fds h - {f} | Inr _ \<Rightarrow> open_fds h)
    \<and> (closes_ok h \<longrightarrow> closes_ok h')"
proof -
  obtain r1 h1 where mh: "m h = (r1, h1)" by (cases "m h")
  with m [unfolded fd_neutral_def, THEN spec, of h]
  have h1: "open_fds h1 = open_fds h" "closes_ok h \<longrightarrow> closes_ok h1" by simp_all
  show ?thesis
  proof (cases r)
    case (Inl e)
    then have "h' = h1 @ [Close f]" using eq mh f by (auto simp: guard_fd_def split: sum.split_asm)
    with h1 f Inl show ?thesis by simp
  next
    case (Inr x)
    then obtain u' where "m h = (Inr (x, u'), h')" using guard_fd_value [OF _ released, of "UniqueFd_new f" h x h'] eq by blast
    then have "h' = h1" using mh by simp
    with h1 Inr show ?thesis by simp
  qed
qed

lemma io_bind_Inr:
  "io_bind m f h = (Inr y, h') \<longleftrightarrow> (\<exists>x h1. m h = (Inr x, h1) \<and> f x h1 = (Inr y, h'))"
  by (auto simp: io_bind_def split: prod.splits sum.splits)

text \<open>A connect that throws leaves no descriptor behind; one that succeeds leaves exactly the one it returns.\<close>

lemma connectNonBlocking_accounting:
  assumes K: "fresh_fds K" and eq: "connectNonBlocking K ep h = (r, h')"
  shows "(case r of Inl _ \<Rightarrow> open_fds h' = open_fds h
      | Inr c \<Rightarrow> cr_fd c \<ge> 0 \<and> cr_fd c \<notin> open_fds h \<and> open_fds h' = insert (cr_fd c) (open_fds h))
    \<and> (closes_ok h \<longrightarrow> closes_ok h')"
proof (cases "k_socket K h (ss_family (ep_address ep))")
  case (Err e)
  with eq show ?thesis by (auto simp: connectNonBlocking_def os_simps io_simps)
next
  case (Ok f)
  let ?h1 = "h @ [Socket (ss_family (ep_address ep)) (Ok f)]"
  define m where "m = io_bind (setCloseOnExec K f) (\<lambda>_. io_bind (setNonBlocking K f) (\<lambda>_.
      io_bind (setTcpNoDelay K f) (\<lambda>_ h.
        case sys_connect K f (ep_address ep) (ep_length ep) h of
          (Ok _, h) \<Rightarrow> (let (fd, u) = UniqueFd_release (UniqueFd_new f) in io_return (\<lparr> cr_fd = fd, cr_connecting = False \<rparr>, u) h)
        | (Err e, h) \<Rightarrow> if e = EINPROGRESS
            then (let (fd, u) = UniqueFd_release (UniqueFd_new f) in io_return (\<lparr> cr_fd = fd, cr_connecting = True \<rparr>, u) h)
            else io_throw (systemError (''connect to '' @ ep_text ep @ '' failed'') e) h)))"
  have g: "guard_fd (UniqueFd_new f) m ?h1 = (r, h')"
    using eq Ok by (simp add: connectNonBlocking_def sys_socket_def m_def Let_def)
  have m: "fd_neutral m"
    unfolding m_def
    by (intro fd_neutral_bind fd_neutral_prims)
       (auto simp: fd_neutral_def os_simps io_simps UniqueFd_release_def split: sysret.splits)
  from K Ok have f: "f \<ge> 0" "f \<notin> open_fds h" by (auto simp: fresh_fds_def)
  have val: "releases cr_fd f m"
    unfolding releases_def m_def io_bind_Inr
    by (intro allI impI, elim exE conjE) (auto simp: os_simps io_simps UniqueFd_release_def UniqueFd_new_def split: sysret.split_asm if_split_asm)
  have h1: "open_fds ?h1 = insert f (open_fds h)" "closes_ok ?h1 = closes_ok h" by simp_all
  then have "f \<in> open_fds ?h1" by simp
  note acc = guard_fd_accounting [OF m f(1) this val g, unfolded h1]
  show ?thesis
  proof (cases r)
    case (Inr c)
    with g have "cr_fd c = f" using guard_fd_value [OF _ val] by blast
    with acc f Inr show ?thesis by simp
  qed (use acc f in simp)
qed

text \<open>The listening socket has the same discipline.\<close>

lemma createListenSocket_accounting:
  assumes K: "fresh_fds K" and eq: "createListenSocket K host port backlog h = (r, h')"
  shows "(case r of Inl _ \<Rightarrow> open_fds h' = open_fds h
      | Inr f \<Rightarrow> f \<ge> 0 \<and> f \<notin> open_fds h \<and> open_fds h' = insert f (open_fds h))
    \<and> (closes_ok h \<longrightarrow> closes_ok h')"
proof -
  obtain r0 h0 where r0: "resolveTcpEndpoint K host port h = (r0, h0)"
    by (cases "resolveTcpEndpoint K host port h")
  have "fd_neutral (resolveTcpEndpoint K host port)" by simp
  with r0 have h0: "open_fds h0 = open_fds h" "closes_ok h \<longrightarrow> closes_ok h0"
    using fd_neutral_def [of "resolveTcpEndpoint K host port", THEN iffD1, THEN spec, of h] by simp_all
  show ?thesis
  proof (cases r0)
    case (Inl e)
    with eq r0 have "r = Inl e" "h' = h0" by (simp_all add: createListenSocket_def io_bind_def)
    with h0 show ?thesis by simp
  next
    case (Inr ep)
    show ?thesis
    proof (cases "k_socket K h0 (ss_family (ep_address ep))")
      case (Err e)
      with eq r0 Inr h0 show ?thesis
        by (auto simp: createListenSocket_def io_bind_def os_simps io_simps)
    next
      case (Ok f)
      let ?h1 = "h0 @ [Socket (ss_family (ep_address ep)) (Ok f)]"
      define m where "m = io_bind (setCloseOnExec K f) (\<lambda>_. io_bind (setNonBlocking K f) (\<lambda>_.
          io_bind (setReuseAddress K f) (\<lambda>_ h.
          case sys_bind K f (ep_address ep) (ep_length ep) h of
            (Err e, h) \<Rightarrow> io_throw (systemError ''bind failed'' e) h
          | (Ok _, h) \<Rightarrow> (case sys_listen K (UniqueFd_get (UniqueFd_new f)) backlog h of
              (Err e, h) \<Rightarrow> io_throw (systemError ''listen failed'' e) h
            | (Ok _, h) \<Rightarrow> io_return (UniqueFd_release (UniqueFd_new f)) h))))"
      have g: "guard_fd (UniqueFd_new f) m ?h1 = (r, h')"
        using eq r0 Inr Ok by (simp add: createListenSocket_def io_bind_def [of "resolveTcpEndpoint K host port"]
            sys_socket_def m_def Let_def)
      have m: "fd_neutral m"
        unfolding m_def
        by (intro fd_neutral_bind fd_neutral_prims)
           (auto simp: fd_neutral_def os_simps io_simps split: sysret.splits)
      from K Ok have f: "f \<ge> 0" "f \<notin> open_fds h0" by (auto simp: fresh_fds_def)
      have val: "releases (\<lambda>x. x) f m"
        unfolding releases_def m_def io_bind_Inr
        by (intro allI impI, elim exE conjE) (auto simp: os_simps io_simps UniqueFd_release_def UniqueFd_new_def split: sysret.split_asm)
      have h1: "open_fds ?h1 = insert f (open_fds h0)" "closes_ok ?h1 = closes_ok h0" by simp_all
      then have "f \<in> open_fds ?h1" by simp
      note acc = guard_fd_accounting [OF m f(1) this val g, unfolded h1]
      show ?thesis
      proof (cases r)
        case (Inr x)
        with g have "x = f" using guard_fd_value [OF _ val] by blast
        with acc f h0 Inr show ?thesis by simp
      qed (use acc f h0 in simp)
    qed
  qed
qed

section \<open>The probe\<close>

lemma poll_loop_result:
  assumes "poll_loop K fd t h = Some (r, h')"
  shows "r \<noteq> Err EINTR \<and> open_fds h' = open_fds h \<and> (closes_ok h \<longrightarrow> closes_ok h')"
proof -
  let ?P = "\<lambda>h x. fst x \<noteq> Err EINTR \<and> open_fds (snd x) = open_fds h \<and>
      (closes_ok h \<longrightarrow> closes_ok (snd x))"
  have "?P h (r, h')"
  proof (rule poll_loop.raw_induct [where P = "\<lambda>K fd t h x. ?P h x", OF _ assms])
    fix pl :: "kernel \<Rightarrow> fd \<Rightarrow> int \<Rightarrow> os \<Rightarrow> ((int \<times> int) sysret \<times> os) option"
    fix K fd t h x
    assume IH: "\<And>K fd t h x. pl K fd t h = Some x \<Longrightarrow> ?P h x"
      and eq: "(let r = k_poll K h fd POLLOUT t; h' = h @ [Poll fd POLLOUT t r] in
        if r = Err EINTR then pl K fd t h' else Some (r, h')) = Some x"
    show "?P h x"
      using eq IH [of K fd t "h @ [Poll fd POLLOUT t (Err EINTR)]" x]
      by (auto simp: Let_def split: if_splits)
  qed
  then show ?thesis by simp
qed

text \<open>Whatever the outcome of a probe, the descriptor it opened is closed exactly once.\<close>

lemma waitForConnect_accounting:
  assumes K: "fresh_fds K" and eq: "waitForConnect K ep t h = Some (ok, h')"
  shows "open_fds h' = open_fds h \<and> (closes_ok h \<longrightarrow> closes_ok h')"
proof -
  obtain r h1 where c: "connectNonBlocking K ep h = (r, h1)" by (cases "connectNonBlocking K ep h")
  note acc = connectNonBlocking_accounting [OF K c]
  show ?thesis
  proof (cases r)
    case (Inl e)
    with eq c acc show ?thesis by (simp add: waitForConnect_def)
  next
    case (Inr cr)
    with acc have f: "cr_fd cr \<ge> 0" "cr_fd cr \<notin> open_fds h"
      and h1: "open_fds h1 = insert (cr_fd cr) (open_fds h)" "closes_ok h \<longrightarrow> closes_ok h1" by simp_all
    have fin: "open_fds (h2 @ [Close (cr_fd cr)]) = open_fds h \<and>
        (closes_ok h \<longrightarrow> closes_ok (h2 @ [Close (cr_fd cr)]))"
      if "open_fds h2 = open_fds h1" "closes_ok h1 \<longrightarrow> closes_ok h2" for h2
      using that h1 f by simp
    show ?thesis
    proof (cases "cr_connecting cr")
      case False
      with eq c Inr f have "h' = h1 @ [Close (cr_fd cr)]" by (simp add: waitForConnect_def Let_def)
      with fin [of h1] show ?thesis by simp
    next
      case True
      with eq c Inr obtain pr h2 where p: "poll_loop K (cr_fd cr) t h1 = Some (pr, h2)"
        by (auto simp: waitForConnect_def Let_def split: option.splits bind_splits)
      note h2 = poll_loop_result [OF p]
      have "h' = h2 @ [Close (cr_fd cr)] \<or>
          h' = (h2 @ [GetSoError (cr_fd cr) (k_so_error K h2 (cr_fd cr))]) @ [Close (cr_fd cr)]"
        using eq c Inr True p f
        by (auto simp: waitForConnect_def Let_def os_simps split: sysret.splits if_splits)
      then show ?thesis
        using h2 fin [of h2] fin [of "h2 @ [GetSoError (cr_fd cr) (k_so_error K h2 (cr_fd cr))]"]
        by (elim disjE) simp_all
    qed
  qed
qed

text \<open>A probe always returns when the interruptions of its \<^verbatim>\<open>poll\<close> end.\<close>

lemma poll_loop_returns:
  "k_poll K (poll_retries fd t h i) fd POLLOUT t \<noteq> Err EINTR \<Longrightarrow> \<exists>x. poll_loop K fd t h = Some x"
proof (induction i arbitrary: h)
  case 0
  then show ?case by (subst poll_loop.simps) (simp add: Let_def)
next
  case (Suc i)
  then show ?case by (subst poll_loop.simps) (simp add: Let_def)
qed

lemma waitForConnect_returns:
  assumes "poll_bounded K B"
  shows "\<exists>x. waitForConnect K ep t h = Some x"
proof -
  obtain r h1 where c: "connectNonBlocking K ep h = (r, h1)" by fastforce
  have "poll_loop K fd t h1 \<noteq> None" for fd
    using assms poll_loop_returns unfolding poll_bounded_def by blast
  then have p: "\<exists>pr h2. poll_loop K fd t h1 = Some (pr, h2)" for fd by fastforce
  show ?thesis
  proof (cases r)
    case (Inr cr)
    obtain pr h2 where "poll_loop K (cr_fd cr) t h1 = Some (pr, h2)" using p by blast
    then show ?thesis using c Inr by (auto simp: waitForConnect_def Let_def split: sysret.split prod.split)
  qed (use c in \<open>auto simp: waitForConnect_def\<close>)
qed

section \<open>Properties\<close>

text \<open>C27. A non-blocking connect leaks no descriptor: when it throws, whatever step failed, the set of open descriptors is what
  it was; when it succeeds, exactly the returned descriptor was added; and nothing is closed that is not open.\<close>

theorem connect_no_leak:
  assumes "fresh_fds K" "connectNonBlocking K ep h = (r, h')"
  shows "(case r of Inl _ \<Rightarrow> open_fds h' = open_fds h
      | Inr c \<Rightarrow> cr_fd c \<ge> 0 \<and> cr_fd c \<notin> open_fds h \<and> open_fds h' = insert (cr_fd c) (open_fds h))
    \<and> (closes_ok h \<longrightarrow> closes_ok h')"
  by (rule connectNonBlocking_accounting [OF assms])

definition sample_endpoint :: ResolvedEndpoint where
  "sample_endpoint = \<lparr> ep_address = sample_address, ep_length = 16, ep_text = ''127.0.0.1:80'' \<rparr>"

theorem connect_no_leak_witness:
  "\<exists>c h'. connectNonBlocking sample_kernel sample_endpoint [] = (Inr c, h') \<and> open_fds h' = {cr_fd c} \<and> closes_ok h'"
proof -
  obtain r h' where c: "connectNonBlocking sample_kernel sample_endpoint [] = (r, h')"
    by (cases "connectNonBlocking sample_kernel sample_endpoint []")
  have "case connectNonBlocking sample_kernel sample_endpoint [] of (r, h') \<Rightarrow> \<not> isl r" by code_simp
  then obtain x where "r = Inr x" using c by (cases r) auto
  then show ?thesis using connect_no_leak [OF sample_contracts(3) c] c by simp
qed

end
