(* ===== verification/Metrics.thy ===== *)
theory Metrics
  imports Prelude
begin

text \<open>
  The atomic counters (\<^verbatim>\<open>Metrics.h\<close>, \<^verbatim>\<open>Metrics.cpp\<close>) and the discipline shared by the two counters of
  the program that go down as well as up: the active sessions of \<^verbatim>\<open>Metrics\<close> and the active connections
  of a \<^verbatim>\<open>Backend\<close> (theory \<open>Backend\<close>). Both are incremented unconditionally and decremented by a load, a
  test and a \<^verbatim>\<open>fetch_sub\<close>; the locale \<open>guarded_counter\<close> states it and derives what callers rely on, and
  \<open>dec_step\<close> is the interleaving of that load and \<^verbatim>\<open>fetch_sub\<close> among threads.
\<close>

section \<open>Guarded counters\<close>

datatype counter_op = Inc | Dec

fun balance :: "counter_op list \<Rightarrow> int" where
  "balance [] = 0"
| "balance (Inc # ops) = 1 + balance ops"
| "balance (Dec # ops) = balance ops - 1"

locale guarded_counter =
  fixes get :: "'s \<Rightarrow> 64 word"
    and inc :: "'s \<Rightarrow> 's"
    and dec :: "'s \<Rightarrow> 's"
  assumes get_inc: "get (inc s) = get s + 1"
    and get_dec: "get (dec s) = (if get s > 0 then get s - 1 else get s)"
begin

lemma unat_dec: "unat (get (dec s)) = unat (get s) - 1"
  by (auto simp: get_dec unat_minus_one word_gt_0)

lemma unat_inc: "unat (get s) + 1 < 2 ^ 64 \<Longrightarrow> unat (get (inc s)) = unat (get s) + 1"
  by (simp add: get_inc unat_word_ariths)

text \<open>A decrement never wraps below zero.\<close>

lemma dec_le: "get (dec s) \<le> get s"
  by (simp add: word_le_nat_alt unat_dec)

lemma dec_inc: "unat (get s) + 1 < 2 ^ 64 \<Longrightarrow> get (dec (inc s)) = get s"
  by (rule word_unat_eq_iff [THEN iffD2]) (simp add: unat_dec unat_inc)

fun run :: "counter_op list \<Rightarrow> 's \<Rightarrow> 's" where
  "run [] s = s"
| "run (Inc # ops) s = run ops (inc s)"
| "run (Dec # ops) s = run ops (dec s)"

text \<open>
  As long as no prefix of the operations takes more than was put in, the counter is exactly the number
  of increments not yet taken back.
\<close>

lemma run_exact:
  assumes "\<And>n. 0 \<le> int (unat (get s)) + balance (take n ops)"
    and "unat (get s) + length ops < 2 ^ 64"
  shows "int (unat (get (run ops s))) = int (unat (get s)) + balance ops"
  using assms
proof (induction ops arbitrary: s)
  case Nil
  then show ?case by simp
next
  case (Cons op ops)
  show ?case
  proof (cases op)
    case Inc
    have g: "unat (get (inc s)) = unat (get s) + 1" using Cons.prems(2) by (simp add: unat_inc)
    have "int (unat (get (run ops (inc s)))) = int (unat (get (inc s))) + balance ops"
    proof (rule Cons.IH)
      show "0 \<le> int (unat (get (inc s))) + balance (take n ops)" for n
        using Cons.prems(1) [of "Suc n"] Inc g by simp
      show "unat (get (inc s)) + length ops < 2 ^ 64" using Cons.prems(2) g by simp
    qed
    then show ?thesis using Inc g by simp
  next
    case Dec
    have pos: "0 < unat (get s)" using Cons.prems(1) [of 1] Dec by (simp del: of_nat_unat)
    have g: "unat (get (dec s)) = unat (get s) - 1" by (rule unat_dec)
    have "int (unat (get (run ops (dec s)))) = int (unat (get (dec s))) + balance ops"
    proof (rule Cons.IH)
      show "0 \<le> int (unat (get (dec s))) + balance (take n ops)" for n
        using Cons.prems(1) [of "Suc n"] Dec g pos by (simp add: of_nat_diff)
      show "unat (get (dec s)) + length ops < 2 ^ 64" using Cons.prems(2) g by simp
    qed
    then show ?thesis using Dec g pos by (simp add: of_nat_diff)
  qed
qed

end

section \<open>The metrics object\<close>

record Metrics =
  mt_accepted :: u64
  mt_active :: u64
  mt_rejected :: u64
  mt_connectFailures :: u64
  mt_clientToBackendBytes :: u64
  mt_backendToClientBytes :: u64

definition Metrics_new :: Metrics where
  "Metrics_new = \<lparr> mt_accepted = 0, mt_active = 0, mt_rejected = 0, mt_connectFailures = 0,
     mt_clientToBackendBytes = 0, mt_backendToClientBytes = 0 \<rparr>"

definition onAccepted :: "Metrics \<Rightarrow> Metrics" where
  "onAccepted m = m\<lparr> mt_accepted := mt_accepted m + 1 \<rparr>"

definition onOpened :: "Metrics \<Rightarrow> Metrics" where
  "onOpened m = m\<lparr> mt_active := mt_active m + 1 \<rparr>"

definition onClosed :: "Metrics \<Rightarrow> Metrics" where
  "onClosed m = (let current = mt_active m in
     if current > 0 then m\<lparr> mt_active := mt_active m - 1 \<rparr> else m)"

definition onRejected :: "Metrics \<Rightarrow> Metrics" where
  "onRejected m = m\<lparr> mt_rejected := mt_rejected m + 1 \<rparr>"

definition onConnectFailure :: "Metrics \<Rightarrow> Metrics" where
  "onConnectFailure m = m\<lparr> mt_connectFailures := mt_connectFailures m + 1 \<rparr>"

definition addClientToBackend :: "size_t \<Rightarrow> Metrics \<Rightarrow> Metrics" where
  "addClientToBackend bytes m = m\<lparr> mt_clientToBackendBytes := mt_clientToBackendBytes m + bytes \<rparr>"

definition addBackendToClient :: "size_t \<Rightarrow> Metrics \<Rightarrow> Metrics" where
  "addBackendToClient bytes m = m\<lparr> mt_backendToClientBytes := mt_backendToClientBytes m + bytes \<rparr>"

definition snapshot :: "Metrics \<Rightarrow> string" where
  "snapshot m =
     ''accepted='' @ nat_to_string (unat (mt_accepted m)) @
     '' active='' @ nat_to_string (unat (mt_active m)) @
     '' rejected='' @ nat_to_string (unat (mt_rejected m)) @
     '' connect_failures='' @ nat_to_string (unat (mt_connectFailures m)) @
     '' c2b_bytes='' @ nat_to_string (unat (mt_clientToBackendBytes m)) @
     '' b2c_bytes='' @ nat_to_string (unat (mt_backendToClientBytes m))"

lemmas metrics_defs = onAccepted_def onOpened_def onClosed_def onRejected_def onConnectFailure_def
  addClientToBackend_def addBackendToClient_def

interpretation sessions: guarded_counter mt_active onOpened onClosed
  by unfold_locales (simp_all add: onOpened_def onClosed_def Let_def)

section \<open>The decrement is two atomic operations\<close>

text \<open>
  \<^verbatim>\<open>load\<close>, test and \<^verbatim>\<open>fetch_sub\<close> of \<^verbatim>\<open>Metrics::onClosed\<close> and \<^verbatim>\<open>Backend::release\<close>, interleaved among
  threads. \<open>Owes\<close>: the thread has not started its decrement; \<open>Loaded v\<close>: it has read \<open>v\<close>.
\<close>

datatype dec_pc = Idle | Owes | Loaded u64

inductive dec_step :: "u64 \<times> (nat \<Rightarrow> dec_pc) \<Rightarrow> u64 \<times> (nat \<Rightarrow> dec_pc) \<Rightarrow> bool" where
  load: "pc t = Owes \<Longrightarrow> dec_step (c, pc) (c, pc(t := Loaded c))"
| sub: "pc t = Loaded v \<Longrightarrow> v > 0 \<Longrightarrow> dec_step (c, pc) (c - 1, pc(t := Idle))"
| skip: "pc t = Loaded v \<Longrightarrow> \<not> v > 0 \<Longrightarrow> dec_step (c, pc) (c, pc(t := Idle))"

inductive_cases dec_stepE: "dec_step (c, pc) s'"

text \<open>The threads that have yet to give their unit back.\<close>

definition debtors :: "(nat \<Rightarrow> dec_pc) \<Rightarrow> nat set" where
  "debtors pc = {t. pc t \<noteq> Idle}"

text \<open>
  When every thread that decrements owns one unit of the counter, the test never fails, nobody wraps the
  counter, and it stays the number of units owed.
\<close>

definition counted :: "u64 \<times> (nat \<Rightarrow> dec_pc) \<Rightarrow> bool" where
  "counted s \<longleftrightarrow> (case s of (c, pc) \<Rightarrow>
     finite (debtors pc) \<and> card (debtors pc) \<le> unat c \<and> (\<forall>t v. pc t = Loaded v \<longrightarrow> v > 0))"

lemma debtors_load: "pc t = Owes \<Longrightarrow> debtors (pc(t := Loaded c)) = debtors pc"
  by (auto simp: debtors_def)

lemma debtors_done: "debtors (pc(t := Idle)) = debtors pc - {t}"
  by (auto simp: debtors_def)

lemma counted_step:
  assumes "dec_step s s'" "counted s"
  shows "counted s' \<and> int (unat (fst s')) - int (card (debtors (snd s')))
    = int (unat (fst s)) - int (card (debtors (snd s)))"
  using assms
proof (induction rule: dec_step.induct)
  case (load pc t c)
  then have "t \<in> debtors pc" by (simp add: debtors_def)
  then have "0 < card (debtors pc)" using load by (auto simp: counted_def card_gt_0_iff)
  with load have "0 < unat c" by (simp add: counted_def)
  then have "c > 0" by (simp add: word_gt_0 unat_gt_0)
  moreover have "debtors (pc(t := Loaded c)) = debtors pc" using load by (simp only: debtors_load)
  ultimately show ?case using load by (auto simp: counted_def fun_upd_def)
next
  case (sub pc t v c)
  then have t: "t \<in> debtors pc" "finite (debtors pc)" by (simp_all add: debtors_def counted_def)
  then have "card (debtors pc - {t}) = card (debtors pc) - 1" "0 < card (debtors pc)"
    by (auto simp: card_gt_0_iff)
  moreover have "card (debtors pc) \<le> unat c" using sub by (simp add: counted_def)
  moreover have "unat (c - 1) = unat c - 1" if "0 < unat c" using that by (simp add: unat_minus_one unat_gt_0)
  ultimately show ?case using sub t by (auto simp: counted_def debtors_done debtors_done [unfolded fun_upd_def] of_nat_diff)
next
  case (skip pc t v c)
  then show ?case by (auto simp: counted_def)
qed

lemma counted_reachable:
  assumes "dec_step\<^sup>*\<^sup>* s s'" "counted s"
  shows "counted s' \<and> int (unat (fst s')) - int (card (debtors (snd s')))
    = int (unat (fst s)) - int (card (debtors (snd s)))"
  using assms by (induction rule: rtranclp_induct) (auto dest: counted_step)

section \<open>Properties\<close>

text \<open>The session gauge is exact: as long as no more sessions are closed than were opened, after any sequence of openings
  and closings the gauge is the number of sessions opened and not yet closed.\<close>

lemma active_gauge_exact:
  assumes "\<forall>n. 0 \<le> balance (take n ops)" "length ops < 2 ^ 64"
  shows "int (unat (mt_active (sessions.run ops Metrics_new))) = balance ops"
  using sessions.run_exact [of Metrics_new ops] assms by (simp add: Metrics_new_def)

text \<open>C35. Concurrent decrements are safe among owners: when every thread that decrements holds one unit of the counter, then in
  every interleaving of their loads and subtractions the counter goes down by one per finished decrement and never
  wraps below zero.\<close>

theorem concurrent_decrements_exact:
  assumes "dec_step\<^sup>*\<^sup>* (c, pc) (c', pc')" "finite (debtors pc)" "card (debtors pc) \<le> unat c" "\<forall>t v. pc t \<noteq> Loaded v"
  shows "unat c' + card (debtors pc) = unat c + card (debtors pc') \<and> card (debtors pc') \<le> unat c'"
proof -
  have "counted (c, pc)" using assms(2-4) by (auto simp: counted_def)
  from counted_reachable [OF assms(1) this]
  have "card (debtors pc') \<le> unat c'" "int (unat c') - int (card (debtors pc')) = int (unat c) - int (card (debtors pc))"
    by (simp_all add: counted_def del: of_nat_unat)
  then show ?thesis by linarith
qed

theorem concurrent_decrements_exact_witness:
  "dec_step\<^sup>*\<^sup>* (2, (\<lambda>t. if t < 2 then Owes else Idle)) (2, (\<lambda>t. if t < 2 then Owes else Idle)(0 := Loaded 2)) \<and>
   card (debtors ((\<lambda>t. if t < 2 then Owes else Idle)(0 := Loaded 2))) \<le> 2"
proof -
  let ?pc = "\<lambda>t :: nat. if t < 2 then Owes else Idle"
  have r: "dec_step\<^sup>*\<^sup>* (2, ?pc) (2, ?pc(0 := Loaded 2))" by (intro r_into_rtranclp dec_step.load) simp
  have "debtors ?pc = {0, 1}" by (auto simp: debtors_def split: if_splits)
  then have "finite (debtors ?pc)" "card (debtors ?pc) \<le> unat (2 :: u64)" by simp_all
  from concurrent_decrements_exact [OF r this] r show ?thesis by simp
qed

text \<open>C36. The test before the subtraction does not by itself prevent underflow: with the counter at one, two threads that both
  decrement can leave it at its largest value.\<close>

theorem guard_does_not_prevent_underflow:
  "\<exists>pc pc'. (\<forall>t. pc t = (if t < 2 then Owes else Idle)) \<and> dec_step\<^sup>*\<^sup>* (1, pc) (2 ^ 64 - 1, pc') \<and> (\<forall>t. pc' t = Idle)"
proof -
  let ?pc = "\<lambda>t :: nat. if t < 2 then Owes else Idle"
  let ?p1 = "?pc(0 := Loaded 1)" and ?p2 = "?pc(0 := Loaded 1, 1 := Loaded 1)"
  let ?p3 = "?p2(0 := Idle)" and ?p4 = "?p2(0 := Idle, 1 := Idle)"
  have a: "dec_step (1, ?pc) (1, ?p1)" and b: "dec_step (1, ?p1) (1, ?p2)" by (rule dec_step.load; simp)+
  have c: "dec_step (1, ?p2) (1 - 1, ?p3)" by (rule dec_step.sub [of _ _ 1]) simp_all
  have d: "dec_step (1 - 1, ?p3) (1 - 1 - 1, ?p4)" by (rule dec_step.sub [of _ _ 1]) simp_all
  have "dec_step\<^sup>*\<^sup>* (1, ?pc) (1 - 1 - 1, ?p4)"
    by (rule rtranclp.rtrancl_into_rtrancl [where r = dec_step, OF rtranclp.rtrancl_into_rtrancl [where r = dec_step, OF
          rtranclp.rtrancl_into_rtrancl [where r = dec_step, OF r_into_rtranclp [where r = dec_step, OF a] b] c] d])
  moreover have "(1 - 1 - 1 :: u64) = 2 ^ 64 - 1" by code_simp
  ultimately have "dec_step\<^sup>*\<^sup>* (1, ?pc) (2 ^ 64 - 1, ?p4)" by (simp only:)
  then show ?thesis by (intro exI [of _ ?pc] exI [of _ ?p4]) simp
qed

end
