(* ===== verification/Scan.thy ===== *)
theory Scan
  imports Prelude
begin

text \<open>
  The selection scheme the program uses twice: \<^verbatim>\<open>BackendPool::acquire\<close> and \<^verbatim>\<open>selectWorker\<close> both walk their
  candidates from a rotating start and replace the candidate in hand only by a strictly better one. The
  locale \<open>rotating_scan\<close> asks that "better" be a strict weak order on the candidates in question; what
  the scan then returns is proved once, and interpreted for backends (theory \<open>Backend\<close>) and for workers
  (theory \<open>Dispatch\<close>).
\<close>

fun scan_best :: "('a \<Rightarrow> 'a \<Rightarrow> bool) \<Rightarrow> 'a option \<Rightarrow> 'a list \<Rightarrow> 'a option" where
  "scan_best better sel [] = sel"
| "scan_best better sel (x # xs) =
     scan_best better (case sel of None \<Rightarrow> Some x | Some s \<Rightarrow> if better x s then Some x else Some s) xs"

lemma scan_best_Some: "\<exists>m. scan_best better (Some s) xs = Some m"
  by (induction xs arbitrary: s) auto

lemma scan_best_None_iff: "scan_best better None xs = None \<longleftrightarrow> xs = []"
proof (cases xs)
  case (Cons x ys)
  with scan_best_Some [of better x ys] show ?thesis by auto
qed simp

locale rotating_scan =
  fixes better :: "'a \<Rightarrow> 'a \<Rightarrow> bool"
    and dom :: "'a \<Rightarrow> bool"
  assumes asym: "dom a \<Longrightarrow> dom b \<Longrightarrow> better a b \<Longrightarrow> \<not> better b a"
    and neg_trans: "dom a \<Longrightarrow> dom b \<Longrightarrow> dom c \<Longrightarrow> \<not> better a b \<Longrightarrow> \<not> better b c \<Longrightarrow> \<not> better a c"
begin

text \<open>
  The result is a candidate, no candidate is strictly better, and every candidate visited before it is
  strictly worse: ties go to the first one in visiting order.
\<close>

lemma scan_from:
  assumes "dom s" "\<forall>x\<in>set xs. dom x" "scan_best better (Some s) xs = Some m"
  shows "dom m \<and> \<not> better s m \<and> (\<forall>x\<in>set xs. \<not> better x m) \<and>
    (m = s \<or> (\<exists>ys zs. xs = ys @ m # zs \<and> better m s \<and> (\<forall>y\<in>set ys. better m y)))"
  using assms
proof (induction xs arbitrary: s)
  case Nil
  then show ?case using asym [of s s] by auto
next
  case (Cons x xs)
  show ?case
  proof (cases "better x s")
    case True
    with Cons have IH: "dom m \<and> \<not> better x m \<and> (\<forall>y\<in>set xs. \<not> better y m) \<and>
        (m = x \<or> (\<exists>ys zs. xs = ys @ m # zs \<and> better m x \<and> (\<forall>y\<in>set ys. better m y)))"
      by (intro Cons.IH) simp_all
    have sx: "\<not> better s x" using True asym [of x s] Cons.prems by auto
    have sm: "\<not> better s m" using IH sx neg_trans [of s x m] Cons.prems by auto
    have ms: "better m s" using IH True neg_trans [of x m s] Cons.prems by auto
    show ?thesis
    proof (cases "m = x")
      case True
      then have "x # xs = [] @ m # xs" by simp
      with IH sm ms show ?thesis by (metis empty_iff list.set(1) set_ConsD)
    next
      case False
      with IH obtain ys zs where "xs = ys @ m # zs" "better m x" "\<forall>y\<in>set ys. better m y" by auto
      then have "x # xs = (x # ys) @ m # zs \<and> (\<forall>y\<in>set (x # ys). better m y)" by simp
      with IH sm ms show ?thesis by (metis set_ConsD)
    qed
  next
    case False
    with Cons have IH: "dom m \<and> \<not> better s m \<and> (\<forall>y\<in>set xs. \<not> better y m) \<and>
        (m = s \<or> (\<exists>ys zs. xs = ys @ m # zs \<and> better m s \<and> (\<forall>y\<in>set ys. better m y)))"
      by (intro Cons.IH) simp_all
    have xm: "\<not> better x m" using IH False neg_trans [of x s m] Cons.prems by auto
    show ?thesis
    proof (cases "m = s")
      case True
      with IH xm show ?thesis by simp
    next
      case m: False
      with IH obtain ys zs where yz: "xs = ys @ m # zs" "better m s" "\<forall>y\<in>set ys. better m y" by auto
      have "better m x" using yz(2) False IH neg_trans [of m x s] Cons.prems by auto
      with yz have "x # xs = (x # ys) @ m # zs \<and> (\<forall>y\<in>set (x # ys). better m y)" by simp
      with IH xm yz(2) show ?thesis by (metis set_ConsD)
    qed
  qed
qed

lemma scan_first_best:
  assumes "\<forall>x\<in>set xs. dom x" "scan_best better None xs = Some m"
  shows "(\<forall>x\<in>set xs. \<not> better x m) \<and> (\<exists>ys zs. xs = ys @ m # zs \<and> (\<forall>y\<in>set ys. better m y))"
proof (cases xs)
  case Nil
  with assms show ?thesis by simp
next
  case (Cons x xs')
  with assms have "scan_best better (Some x) xs' = Some m" "dom x" "\<forall>y\<in>set xs'. dom y" by auto
  note sf = scan_from [OF this(2,3,1)]
  show ?thesis
  proof (cases "m = x")
    case True
    then have "xs = [] @ m # xs'" using Cons by simp
    with sf Cons True show ?thesis by (metis empty_iff list.set(1) set_ConsD)
  next
    case False
    with sf obtain ys zs where "xs' = ys @ m # zs" "better m x" "\<forall>y\<in>set ys. better m y" by auto
    then have "xs = (x # ys) @ m # zs \<and> (\<forall>y\<in>set (x # ys). better m y)" using Cons by simp
    with sf Cons show ?thesis by (metis set_ConsD)
  qed
qed

end

section \<open>Rotation\<close>

text \<open>Visiting order from \<open>start\<close>, once around \<open>n\<close> places.\<close>

definition rotation :: "nat \<Rightarrow> nat \<Rightarrow> nat list" where
  "rotation start n = map (\<lambda>off. (start + off) mod n) [0..<n]"

lemma set_rotation: "set (rotation start n) = {0..<n}"
proof
  show "set (rotation start n) \<subseteq> {0..<n}" by (auto simp: rotation_def)
  show "{0..<n} \<subseteq> set (rotation start n)"
  proof
    fix i assume i: "i \<in> {0..<n}"
    then have n: "0 < n" by auto
    define off where "off = (i + (n - start mod n)) mod n"
    have "(start + off) mod n = (start mod n + (i + (n - start mod n))) mod n"
      unfolding off_def by (metis mod_add_left_eq mod_add_right_eq)
    also have "start mod n + (i + (n - start mod n)) = i + n"
      using mod_less_divisor [OF n, of start] by linarith
    finally have "(start + off) mod n = i" using i by simp
    moreover have "off < n" using n by (simp add: off_def)
    ultimately show "i \<in> set (rotation start n)" unfolding rotation_def by force
  qed
qed

lemma distinct_rotation: "distinct (rotation start n)"
  by (rule card_distinct) (simp add: set_rotation, simp add: rotation_def)

end
