(* ===== verification/Backend.thy ===== *)
theory Backend
  imports Config Net Metrics Scan
begin

text \<open>
  Backends, leases and the pool (\<^verbatim>\<open>Backend.h/.cpp\<close>, \<^verbatim>\<open>BackendPool.h/.cpp\<close>). A \<^verbatim>\<open>shared_ptr<Backend>\<close> is the
  backend's position in the pool, whose objects live as long as the process. An operation under
  \<^verbatim>\<open>selectionMutex_\<close> is one step of the model. The theory shows that \<^verbatim>\<open>acquire\<close> picks a healthy backend
  of least active/weight, first in rotation order among equals; that leases keep the connection counts
  exact; and that acquisitions distribute in proportion to the weights.
\<close>

section \<open>Backend\<close>

record Backend =
  be_config :: BackendConfig
  be_endpoint :: ResolvedEndpoint
  be_healthy :: bool
  be_activeConnections :: size_t
  be_totalConnections :: u64
  be_failedConnections :: u64

definition Backend_new :: "kernel \<Rightarrow> BackendConfig \<Rightarrow> Backend io" where
  "Backend_new K config =
     io_bind (resolveTcpEndpoint K (bc_host config) (bc_port config)) (\<lambda>endpoint.
       io_return \<lparr> be_config = config, be_endpoint = endpoint, be_healthy = True,
         be_activeConnections = 0, be_totalConnections = 0, be_failedConnections = 0 \<rparr>)"

definition weight :: "Backend \<Rightarrow> size_t" where
  "weight b = bc_weight (be_config b)"

definition setHealthy :: "bool \<Rightarrow> Backend \<Rightarrow> Backend" where
  "setHealthy value b = b\<lparr> be_healthy := value \<rparr>"

definition Backend_acquire :: "Backend \<Rightarrow> Backend" where
  "Backend_acquire b = b\<lparr> be_activeConnections := be_activeConnections b + 1 \<rparr>"

definition Backend_release :: "Backend \<Rightarrow> Backend" where
  "Backend_release b =
     (let current = be_activeConnections b in
      if current > 0 then b\<lparr> be_activeConnections := be_activeConnections b - 1 \<rparr> else b)"

definition recordConnectSuccess :: "Backend \<Rightarrow> Backend" where
  "recordConnectSuccess b = b\<lparr> be_totalConnections := be_totalConnections b + 1 \<rparr>"

definition recordConnectFailure :: "Backend \<Rightarrow> Backend" where
  "recordConnectFailure b = b\<lparr> be_failedConnections := be_failedConnections b + 1 \<rparr>"

interpretation connections: guarded_counter be_activeConnections Backend_acquire Backend_release
  by unfold_locales (simp_all add: Backend_acquire_def Backend_release_def Let_def)

section \<open>Pool and lease\<close>

record BackendPool =
  bp_backends :: "Backend list"
  bp_tieBreaker :: size_t

record BackendLease =
  bl_backend :: "nat option"

text \<open>An operation on the backend a shared pointer refers to.\<close>

definition on_backend :: "nat \<Rightarrow> (Backend \<Rightarrow> Backend) \<Rightarrow> BackendPool \<Rightarrow> BackendPool" where
  "on_backend i f p = p\<lparr> bp_backends := (bp_backends p)[i := f (bp_backends p ! i)] \<rparr>"

definition BackendLease_new :: "nat option \<Rightarrow> BackendPool \<Rightarrow> BackendLease \<times> BackendPool" where
  "BackendLease_new backend p =
     (\<lparr> bl_backend = backend \<rparr>,
      case backend of None \<Rightarrow> p | Some i \<Rightarrow> on_backend i Backend_acquire p)"

definition BackendLease_valid :: "BackendLease \<Rightarrow> bool" where
  "BackendLease_valid l = (bl_backend l \<noteq> None)"

definition BackendLease_reset :: "BackendLease \<Rightarrow> BackendPool \<Rightarrow> BackendLease \<times> BackendPool" where
  "BackendLease_reset l p =
     (case bl_backend l of
        None \<Rightarrow> (l, p)
      | Some i \<Rightarrow> (l\<lparr> bl_backend := None \<rparr>, on_backend i Backend_release p))"

definition BackendLease_destroy :: "BackendLease \<Rightarrow> BackendPool \<Rightarrow> BackendPool" where
  "BackendLease_destroy l p = snd (BackendLease_reset l p)"

definition BackendLease_move :: "BackendLease \<Rightarrow> BackendLease \<times> BackendLease" where
  "BackendLease_move other = (\<lparr> bl_backend = bl_backend other \<rparr>, other\<lparr> bl_backend := None \<rparr>)"

text \<open>Between two distinct leases; a lease assigned to itself does not change.\<close>

definition BackendLease_move_assign ::
  "BackendLease \<Rightarrow> BackendLease \<Rightarrow> BackendPool \<Rightarrow> BackendLease \<times> BackendLease \<times> BackendPool" where
  "BackendLease_move_assign this other p =
     (let (this, p) = BackendLease_reset this p
      in (this\<lparr> bl_backend := bl_backend other \<rparr>, other\<lparr> bl_backend := None \<rparr>, p))"

lemmas lease_defs = BackendLease_new_def BackendLease_valid_def BackendLease_reset_def
  BackendLease_destroy_def BackendLease_move_def BackendLease_move_assign_def

interpretation lease: raii_handle bl_backend "\<lambda>i. on_backend i Backend_release" BackendLease_reset
  BackendLease_move BackendLease_move_assign
  by unfold_locales (auto simp: lease_defs split: option.splits)

fun backends_new :: "kernel \<Rightarrow> BackendConfig list \<Rightarrow> Backend list io" where
  "backends_new K [] = io_return []"
| "backends_new K (c # cs) =
     io_bind (Backend_new K c) (\<lambda>b. io_bind (backends_new K cs) (\<lambda>bs. io_return (b # bs)))"

definition BackendPool_new :: "kernel \<Rightarrow> BackendConfig list \<Rightarrow> BackendPool io" where
  "BackendPool_new K configs =
     (if configs = [] then io_throw (RuntimeError ''backend pool cannot be empty'')
      else io_bind (backends_new K configs) (\<lambda>bs.
        io_return \<lparr> bp_backends = bs, bp_tieBreaker = 0 \<rparr>))"

text \<open>The comparison of two candidates: \<^verbatim>\<open>left < right\<close> with 64-bit products.\<close>

definition less_loaded :: "Backend \<Rightarrow> Backend \<Rightarrow> bool" where
  "less_loaded candidate selected =
     (let left = be_activeConnections candidate * weight selected;
          right = be_activeConnections selected * weight candidate
      in left < right)"

function acquire_loop :: "Backend list \<Rightarrow> nat \<Rightarrow> nat \<Rightarrow> nat option \<Rightarrow> nat option" where
  "acquire_loop bs start offset selected =
     (if offset < length bs then
        let index = (start + offset) mod length bs; candidate = bs ! index in
        if \<not> be_healthy candidate then acquire_loop bs start (Suc offset) selected
        else
          (case selected of
             None \<Rightarrow> acquire_loop bs start (Suc offset) (Some index)
           | Some s \<Rightarrow>
               if less_loaded candidate (bs ! s) then acquire_loop bs start (Suc offset) (Some index)
               else acquire_loop bs start (Suc offset) selected)
      else selected)"
  by pat_completeness auto
termination
  by (relation "measure (\<lambda>(bs, start, offset, selected). length bs - offset)") auto

declare acquire_loop.simps [simp del]

definition acquire :: "BackendPool \<Rightarrow> BackendLease \<times> BackendPool" where
  "acquire p =
     (let start = unat (bp_tieBreaker p) mod length (bp_backends p);
          p = p\<lparr> bp_tieBreaker := bp_tieBreaker p + 1 \<rparr>
      in BackendLease_new (acquire_loop (bp_backends p) start 0 None) p)"

fun hasHealthy_loop :: "Backend list \<Rightarrow> bool" where
  "hasHealthy_loop [] = False"
| "hasHealthy_loop (b # bs) = (if be_healthy b then True else hasHealthy_loop bs)"

definition hasHealthyBackend :: "BackendPool \<Rightarrow> bool" where
  "hasHealthyBackend p = hasHealthy_loop (bp_backends p)"

lemma hasHealthyBackend_iff: "hasHealthyBackend p \<longleftrightarrow> (\<exists>b\<in>set (bp_backends p). be_healthy b)"
proof -
  have "hasHealthy_loop bs \<longleftrightarrow> (\<exists>b\<in>set bs. be_healthy b)" for bs by (induction bs) auto
  then show ?thesis by (simp add: hasHealthyBackend_def)
qed

section \<open>The scan\<close>

text \<open>Loads and weights for which the 64-bit products are exact: every configured weight is at most 1000.\<close>

definition load_bound :: "Backend \<Rightarrow> bool" where
  "load_bound b \<longleftrightarrow> 1 \<le> unat (weight b) \<and> unat (weight b) \<le> 1000 \<and>
     unat (be_activeConnections b) < 2 ^ 54"

lemma less_loaded_exact:
  assumes "load_bound a" "load_bound b"
  shows "less_loaded a b \<longleftrightarrow>
    unat (be_activeConnections a) * unat (weight b) < unat (be_activeConnections b) * unat (weight a)"
proof -
  have "unat (be_activeConnections x) * unat (weight y) < 2 ^ 64" if "load_bound x" "load_bound y" for x y
  proof -
    have "unat (be_activeConnections x) * unat (weight y) \<le> 2 ^ 54 * 1000"
      using that by (intro mult_le_mono) (auto simp: load_bound_def)
    then show ?thesis by simp
  qed
  then show ?thesis using assms
    by (simp add: less_loaded_def Let_def word_less_nat_alt unat_mult_no_wrap)
qed

text \<open>Comparing by cross multiplication is comparing the fractions active/weight.\<close>

lemma cross_trans:
  fixes a b c wa wb wc :: nat
  assumes "b * wa \<le> a * wb" "c * wb \<le> b * wc" "0 < wb"
  shows "c * wa \<le> a * wc"
proof -
  have "wb * (c * wa) = (c * wb) * wa" by (simp add: ac_simps)
  also have "\<dots> \<le> (b * wc) * wa" using assms(2) by (rule mult_le_mono1)
  also have "\<dots> = (b * wa) * wc" by (simp add: ac_simps)
  also have "\<dots> \<le> (a * wb) * wc" using assms(1) by (rule mult_le_mono1)
  also have "\<dots> = wb * (a * wc)" by (simp add: ac_simps)
  finally show ?thesis using assms(3) by simp
qed

interpretation wlc: rotating_scan "\<lambda>x y. less_loaded (snd x) (snd y)" "\<lambda>x :: nat \<times> Backend. load_bound (snd x)"
proof unfold_locales
  fix a b c :: "nat \<times> Backend"
  assume a: "load_bound (snd a)" and b: "load_bound (snd b)"
  show "less_loaded (snd a) (snd b) \<Longrightarrow> \<not> less_loaded (snd b) (snd a)"
    using a b by (simp add: less_loaded_exact)
  assume c: "load_bound (snd c)"
  assume "\<not> less_loaded (snd a) (snd b)" "\<not> less_loaded (snd b) (snd c)"
  then show "\<not> less_loaded (snd a) (snd c)"
    using a b c cross_trans [of "unat (be_activeConnections (snd b))" "unat (weight (snd a))"
        "unat (be_activeConnections (snd a))" "unat (weight (snd b))"
        "unat (be_activeConnections (snd c))" "unat (weight (snd c))"]
    by (simp add: less_loaded_exact not_less load_bound_def)
qed

text \<open>The candidates in visiting order.\<close>

definition candidates :: "Backend list \<Rightarrow> nat \<Rightarrow> nat \<Rightarrow> (nat \<times> Backend) list" where
  "candidates bs start offset =
     filter (\<lambda>x. be_healthy (snd x))
       (map (\<lambda>off. let i = (start + off) mod length bs in (i, bs ! i)) [offset..<length bs])"

lemma candidates_step:
  "offset < length bs \<Longrightarrow> candidates bs start offset =
     (let i = (start + offset) mod length bs in
      if be_healthy (bs ! i) then (i, bs ! i) # candidates bs start (Suc offset)
      else candidates bs start (Suc offset))"
  by (simp add: candidates_def upt_conv_Cons Let_def)

lemma candidates_end: "\<not> offset < length bs \<Longrightarrow> candidates bs start offset = []"
  by (simp add: candidates_def)

lemma acquire_loop_scan:
  "acquire_loop bs start offset sel =
     map_option fst (scan_best (\<lambda>x y. less_loaded (snd x) (snd y))
       (map_option (\<lambda>i. (i, bs ! i)) sel) (candidates bs start offset))"
proof (induction bs start offset sel rule: acquire_loop.induct)
  case (1 bs start offset sel)
  show ?case
  proof (cases "offset < length bs")
    case False
    then show ?thesis
      by (subst acquire_loop.simps) (simp add: candidates_end option.map_comp comp_def option.map_ident)
  next
    case True
    let ?i = "(start + offset) mod length bs"
    show ?thesis
    proof (cases "be_healthy (bs ! ?i)")
      case False
      with True "1.IH"(1) [OF True refl refl] show ?thesis
        by (subst acquire_loop.simps) (simp add: candidates_step Let_def)
    next
      case healthy: True
      show ?thesis
      proof (cases sel)
        case None
        with True healthy "1.IH"(2) [OF True refl refl] show ?thesis
          by (subst acquire_loop.simps) (simp add: candidates_step Let_def)
      next
        case (Some j)
        with True healthy "1.IH"(3) [OF True refl refl] "1.IH"(4) [OF True refl refl] show ?thesis
          by (subst acquire_loop.simps) (simp add: candidates_step Let_def)
      qed
    qed
  qed
qed

lemma candidates_rotation:
  "map fst (candidates bs start 0) = filter (\<lambda>i. be_healthy (bs ! i)) (rotation start (length bs))"
  unfolding candidates_def rotation_def by (induction "length bs") (auto simp: filter_map comp_def Let_def)

lemma set_candidates:
  "set (candidates bs start 0) = {(i, bs ! i) | i. i < length bs \<and> be_healthy (bs ! i)}"
proof -
  have "set (candidates bs start 0) =
      (\<lambda>i. (i, bs ! i)) ` {i \<in> set (rotation start (length bs)). be_healthy (bs ! i)}"
    by (auto simp: candidates_def rotation_def Let_def)
  then show ?thesis by (auto simp: set_rotation)
qed

definition pool_bound :: "BackendPool \<Rightarrow> bool" where
  "pool_bound p \<longleftrightarrow> bp_backends p \<noteq> [] \<and> list_all load_bound (bp_backends p)"

lemma pool_bound_nth: "pool_bound p \<Longrightarrow> i < length (bp_backends p) \<Longrightarrow> load_bound (bp_backends p ! i)"
  by (simp add: pool_bound_def list_all_length)

text \<open>What the scan selects: nobody eligible is less loaded, and whoever was visited before is more loaded.\<close>

definition selects :: "Backend list \<Rightarrow> nat \<Rightarrow> nat \<Rightarrow> bool" where
  "selects bs start i \<longleftrightarrow> i < length bs \<and> be_healthy (bs ! i) \<and>
     (\<forall>j<length bs. be_healthy (bs ! j) \<longrightarrow> \<not> less_loaded (bs ! j) (bs ! i)) \<and>
     (\<exists>before after. rotation start (length bs) = before @ i # after \<and>
        (\<forall>j\<in>set before. be_healthy (bs ! j) \<longrightarrow> less_loaded (bs ! i) (bs ! j)))"

lemma acquire_loop_selects:
  assumes "list_all load_bound bs" "acquire_loop bs start 0 None = Some i"
  shows "selects bs start i"
proof -
  let ?cs = "candidates bs start 0"
  obtain b where "scan_best (\<lambda>x y. less_loaded (snd x) (snd y)) None ?cs = Some (i, b)"
    using assms(2) by (auto simp: acquire_loop_scan)
  moreover have "\<forall>x\<in>set ?cs. load_bound (snd x)"
    using assms(1) by (auto simp: set_candidates list_all_length)
  ultimately obtain ys zs where best: "\<forall>x\<in>set ?cs. \<not> less_loaded (snd x) b"
    and split: "?cs = ys @ (i, b) # zs" and before: "\<forall>y\<in>set ys. less_loaded b (snd y)"
    using wlc.scan_first_best [of ?cs "(i, b)"] by auto
  have "(i, b) \<in> set ?cs" using split by simp
  then have i: "i < length bs" "be_healthy (bs ! i)" "b = bs ! i" by (auto simp: set_candidates)
  have mem: "i \<in> set (rotation start (length bs))" using i by (simp add: set_rotation)
  then obtain bf af where rot: "rotation start (length bs) = bf @ i # af" by (meson split_list)
  have "\<forall>j\<in>set bf. be_healthy (bs ! j) \<longrightarrow> less_loaded (bs ! i) (bs ! j)"
  proof (intro ballI impI)
    fix j assume j: "j \<in> set bf" "be_healthy (bs ! j)"
    have eq: "filter (\<lambda>i. be_healthy (bs ! i)) bf @ i # filter (\<lambda>i. be_healthy (bs ! i)) af
        = map fst ys @ i # map fst zs"
      using candidates_rotation [of bs start] i by (simp add: split rot)
    have "distinct (map fst ?cs)" by (simp add: candidates_rotation distinct_rotation)
    then have d: "distinct (map fst ys @ i # map fst zs)" by (simp add: split)
    then have "i \<notin> set (map fst ys)" "i \<notin> set (map fst zs)" by auto
    with eq have "filter (\<lambda>i. be_healthy (bs ! i)) bf = map fst ys"
      by (metis append_Cons_eq_iff)
    moreover have "j \<in> set (filter (\<lambda>i. be_healthy (bs ! i)) bf)" using j by simp
    ultimately have "j \<in> set (map fst ys)" by simp
    then obtain b' where "(j, b') \<in> set ys" by auto
    moreover from this have "b' = bs ! j" using split set_candidates [of bs start] by auto
    ultimately show "less_loaded (bs ! i) (bs ! j)" using before i by auto
  qed
  with i rot best show ?thesis by (force simp: selects_def set_candidates)
qed

lemma acquire_loop_None_iff:
  "acquire_loop bs start 0 None = None \<longleftrightarrow> (\<forall>b\<in>set bs. \<not> be_healthy b)"
proof -
  have "acquire_loop bs start 0 None = None \<longleftrightarrow> set (candidates bs start 0) = {}"
    by (simp add: acquire_loop_scan scan_best_None_iff)
  also have "\<dots> \<longleftrightarrow> (\<forall>b\<in>set bs. \<not> be_healthy b)"
    unfolding set_candidates by (fastforce simp: in_set_conv_nth)
  finally show ?thesis .
qed

section \<open>What acquire does\<close>

lemma length_on_backend [simp]: "length (bp_backends (on_backend i f p)) = length (bp_backends p)"
  by (simp add: on_backend_def)

lemma nth_on_backend [simp]:
  "i < length (bp_backends p) \<Longrightarrow> bp_backends (on_backend i f p) ! j =
     (if i = j then f (bp_backends p ! i) else bp_backends p ! j)"
  by (simp add: on_backend_def nth_list_update)

lemma acquire_None:
  "\<not> hasHealthyBackend p \<Longrightarrow>
     acquire p = (\<lparr> bl_backend = None \<rparr>, p\<lparr> bp_tieBreaker := bp_tieBreaker p + 1 \<rparr>)"
  by (simp add: acquire_def Let_def BackendLease_new_def hasHealthyBackend_iff
      acquire_loop_None_iff [THEN iffD2])

lemma acquire_Some:
  assumes "pool_bound p" "hasHealthyBackend p"
  shows "\<exists>i. selects (bp_backends p) (unat (bp_tieBreaker p) mod length (bp_backends p)) i \<and>
    acquire p = (\<lparr> bl_backend = Some i \<rparr>,
      on_backend i Backend_acquire (p\<lparr> bp_tieBreaker := bp_tieBreaker p + 1 \<rparr>))"
proof -
  let ?start = "unat (bp_tieBreaker p) mod length (bp_backends p)"
  obtain i where i: "acquire_loop (bp_backends p) ?start 0 None = Some i"
    using assms(2) acquire_loop_None_iff [of "bp_backends p" ?start]
    by (cases "acquire_loop (bp_backends p) ?start 0 None") (auto simp: hasHealthyBackend_iff)
  with acquire_loop_selects [OF _ i] assms(1) show ?thesis
    by (auto simp: acquire_def Let_def BackendLease_new_def pool_bound_def)
qed

text \<open>Active connections and weights as numbers.\<close>

definition active :: "BackendPool \<Rightarrow> nat \<Rightarrow> nat" where
  "active p i = unat (be_activeConnections (bp_backends p ! i))"

definition weight_of :: "BackendPool \<Rightarrow> nat \<Rightarrow> nat" where
  "weight_of p i = unat (weight (bp_backends p ! i))"

lemma selects_least:
  assumes "pool_bound p" "selects (bp_backends p) start i" "j < length (bp_backends p)"
    "be_healthy (bp_backends p ! j)"
  shows "active p i * weight_of p j \<le> active p j * weight_of p i"
  using assms pool_bound_nth [OF assms(1)]
  by (auto simp: selects_def less_loaded_exact active_def weight_of_def not_less)

section \<open>Distribution in proportion to the weights\<close>

text \<open>
  No backend is ahead of another by more than the connection it got last:
  \<open>(active i - 1) / weight i \<le> active j / weight j\<close> for all \<open>i\<close> and \<open>j\<close>.
\<close>

definition balanced :: "BackendPool \<Rightarrow> bool" where
  "balanced p \<longleftrightarrow> (\<forall>i<length (bp_backends p). \<forall>j<length (bp_backends p).
     (active p i - 1) * weight_of p j \<le> active p j * weight_of p i)"

definition total_active :: "BackendPool \<Rightarrow> nat" where
  "total_active p = (\<Sum>i<length (bp_backends p). active p i)"

definition total_weight :: "BackendPool \<Rightarrow> nat" where
  "total_weight p = (\<Sum>i<length (bp_backends p). weight_of p i)"

definition all_healthy :: "BackendPool \<Rightarrow> bool" where
  "all_healthy p \<longleftrightarrow> list_all be_healthy (bp_backends p)"

definition acquire_times :: "nat \<Rightarrow> BackendPool \<Rightarrow> BackendPool" where
  "acquire_times n p = ((\<lambda>p. snd (acquire p)) ^^ n) p"

text \<open>Everything one acquisition from an all-healthy pool changes.\<close>

lemma acquire_step:
  assumes "pool_bound p" "all_healthy p"
  obtains i p' where "acquire p = (\<lparr> bl_backend = Some i \<rparr>, p')"
    "i < length (bp_backends p)" "length (bp_backends p') = length (bp_backends p)"
    "\<And>j. j < length (bp_backends p) \<Longrightarrow> active p i * weight_of p j \<le> active p j * weight_of p i"
    "active p' i = active p i + 1" "\<And>j. j \<noteq> i \<Longrightarrow> active p' j = active p j"
    "\<And>j. weight_of p' j = weight_of p j" "all_healthy p'"
proof -
  have "hasHealthyBackend p"
    using assms by (cases "bp_backends p") (auto simp: hasHealthyBackend_iff all_healthy_def pool_bound_def)
  from acquire_Some [OF assms(1) this] obtain i start where
    i: "selects (bp_backends p) start i" and eq: "acquire p = (\<lparr> bl_backend = Some i \<rparr>,
      on_backend i Backend_acquire (p\<lparr> bp_tieBreaker := bp_tieBreaker p + 1 \<rparr>))" by blast
  define p' where "p' = on_backend i Backend_acquire (p\<lparr> bp_tieBreaker := bp_tieBreaker p + 1 \<rparr>)"
  have il: "i < length (bp_backends p)" using i by (simp add: selects_def)
  have lb: "unat (be_activeConnections (bp_backends p ! i)) < 2 ^ 54"
    using pool_bound_nth [OF assms(1) il] by (simp add: load_bound_def)
  show thesis
  proof (rule that [of i p'])
    show "acquire p = (\<lparr> bl_backend = Some i \<rparr>, p')" by (simp add: eq p'_def)
    show "i < length (bp_backends p)" by (rule il)
    show "length (bp_backends p') = length (bp_backends p)" by (simp add: p'_def)
    show "active p i * weight_of p j \<le> active p j * weight_of p i" if "j < length (bp_backends p)" for j
      using selects_least [OF assms(1) i that] assms(2) that by (simp add: all_healthy_def list_all_length)
    show "active p' i = active p i + 1"
      using il lb by (simp add: p'_def active_def connections.unat_inc)
    show "active p' j = active p j" if "j \<noteq> i" for j
      using that il by (simp add: p'_def active_def)
    show "weight_of p' j = weight_of p j" for j
      using il by (simp add: p'_def weight_of_def weight_def Backend_acquire_def)
    show "all_healthy p'"
      using assms(2) il by (simp add: all_healthy_def p'_def list_all_length Backend_acquire_def)
  qed
qed

lemma sum_update_nat:
  fixes f :: "nat \<Rightarrow> nat"
  assumes "i < n" "g i = f i + 1" "\<And>j. j \<noteq> i \<Longrightarrow> g j = f j"
  shows "sum g {..<n} = sum f {..<n} + 1"
proof -
  have "sum g {..<n} = g i + sum g ({..<n} - {i})" using assms(1) by (simp add: sum.remove)
  also have "sum g ({..<n} - {i}) = sum f ({..<n} - {i})" using assms(3) by (intro sum.cong) auto
  also have "g i + \<dots> = sum f {..<n} + 1" using assms by (simp add: sum.remove)
  finally show ?thesis .
qed

lemma acquire_balanced:
  assumes "pool_bound p" "all_healthy p" "balanced p" "acquire p = (l, p')"
  shows "balanced p' \<and> all_healthy p' \<and> total_active p' = total_active p + 1
    \<and> length (bp_backends p') = length (bp_backends p) \<and> weight_of p' = weight_of p"
proof -
  from acquire_step [OF assms(1,2)] obtain i p'' where eq: "acquire p = (\<lparr> bl_backend = Some i \<rparr>, p'')"
    and il: "i < length (bp_backends p)" and len: "length (bp_backends p'') = length (bp_backends p)"
    and least: "\<And>j. j < length (bp_backends p) \<Longrightarrow> active p i * weight_of p j \<le> active p j * weight_of p i"
    and ai: "active p'' i = active p i + 1" and aj: "\<And>j. j \<noteq> i \<Longrightarrow> active p'' j = active p j"
    and w: "\<And>j. weight_of p'' j = weight_of p j" and h: "all_healthy p''" by metis
  have p'': "p'' = p'" using eq assms(4) by simp
  have mono: "active p j \<le> active p'' j" for j using ai aj [of j] by (cases "j = i") auto
  have "balanced p''"
    unfolding balanced_def len w
  proof (intro allI impI)
    fix a b assume ab: "a < length (bp_backends p)" "b < length (bp_backends p)"
    have "(active p'' a - 1) * weight_of p b \<le> active p b * weight_of p a"
    proof (cases "a = i")
      case True
      with ai least [OF ab(2)] show ?thesis by simp
    next
      case False
      with aj [OF False] assms(3) ab show ?thesis by (simp add: balanced_def)
    qed
    also have "\<dots> \<le> active p'' b * weight_of p a" using mono by (rule mult_le_mono1)
    finally show "(active p'' a - 1) * weight_of p b \<le> active p'' b * weight_of p a" .
  qed
  moreover have "total_active p'' = total_active p + 1"
    unfolding total_active_def len by (rule sum_update_nat [where i = i]) (use il ai aj in auto)
  ultimately show ?thesis using h len w p'' by (auto simp: fun_eq_iff)
qed

text \<open>A pool as constructed: nobody connected, every weight in the configured range.\<close>

definition fresh_pool :: "BackendPool \<Rightarrow> bool" where
  "fresh_pool p \<longleftrightarrow> pool_bound p \<and> (\<forall>i<length (bp_backends p). active p i = 0)"

lemma active_le_total: "i < length (bp_backends p) \<Longrightarrow> active p i \<le> total_active p"
  unfolding total_active_def by (rule member_le_sum) auto

lemma pool_bound_from_total:
  assumes "pool_bound p" "length (bp_backends p') = length (bp_backends p)" "weight_of p' = weight_of p"
    "total_active p' < 2 ^ 54"
  shows "pool_bound p'"
  unfolding pool_bound_def list_all_length
proof (intro conjI allI impI)
  show "bp_backends p' \<noteq> []" using assms(1,2) by (auto simp: pool_bound_def)
  fix i assume i: "i < length (bp_backends p')"
  have "1 \<le> weight_of p i \<and> weight_of p i \<le> 1000"
    using pool_bound_nth [OF assms(1), of i] i assms(2) by (simp add: load_bound_def weight_of_def)
  moreover have "active p' i < 2 ^ 54" using active_le_total [OF i] assms(4) by simp
  ultimately show "load_bound (bp_backends p' ! i)"
    using fun_cong [OF assms(3), of i] by (simp add: load_bound_def weight_of_def active_def)
qed

lemma acquire_times_inv:
  assumes "fresh_pool p" "all_healthy p" "n < 2 ^ 54"
  shows "balanced (acquire_times n p) \<and> all_healthy (acquire_times n p) \<and>
    total_active (acquire_times n p) = n \<and> weight_of (acquire_times n p) = weight_of p \<and>
    length (bp_backends (acquire_times n p)) = length (bp_backends p)"
  using assms(3)
proof (induction n)
  case 0
  show ?case using assms
    by (simp add: acquire_times_def balanced_def fresh_pool_def total_active_def)
next
  case (Suc n)
  let ?q = "acquire_times n p"
  from Suc have IH: "balanced ?q \<and> all_healthy ?q \<and> total_active ?q = n \<and> weight_of ?q = weight_of p \<and>
      length (bp_backends ?q) = length (bp_backends p)" by simp
  have "pool_bound ?q"
  proof (rule pool_bound_from_total [of p])
    show "pool_bound p" using assms(1) by (simp add: fresh_pool_def)
    show "total_active ?q < 2 ^ 54" using IH Suc.prems by simp
  qed (use IH in blast)+
  moreover obtain l q' where "acquire ?q = (l, q')" by (cases "acquire ?q")
  ultimately show ?case
    using acquire_balanced [of ?q l q'] IH by (simp add: acquire_times_def)
qed

lemma sum_le_eq:
  fixes f g :: "nat \<Rightarrow> nat"
  assumes "\<And>i. i < n \<Longrightarrow> f i \<le> g i" "sum f {..<n} = sum g {..<n}" "i < n"
  shows "f i = g i"
proof (rule ccontr)
  assume "f i \<noteq> g i"
  with assms(1,3) have "sum f {..<n} < sum g {..<n}"
    by (intro sum_strict_mono_ex1) (auto simp: le_less intro!: bexI [of _ i])
  with assms(2) show False by simp
qed

lemma balanced_exact:
  assumes "balanced p" "pool_bound p" "total_active p = k * total_weight p" "i < length (bp_backends p)"
  shows "active p i = k * weight_of p i"
proof (rule sum_le_eq [of "length (bp_backends p)" "active p" "\<lambda>i. k * weight_of p i", OF _ _ assms(4)])
  show sums: "sum (active p) {..<length (bp_backends p)} = (\<Sum>i<length (bp_backends p). k * weight_of p i)"
    using assms(3) by (simp add: total_active_def total_weight_def sum_distrib_left)
  fix j assume j: "j < length (bp_backends p)"
  show "active p j \<le> k * weight_of p j"
  proof (rule ccontr)
    assume "\<not> ?thesis"
    then have gt: "k * weight_of p j \<le> active p j - 1" "k * weight_of p j < active p j" by simp_all
    have "k * weight_of p m \<le> active p m" if m: "m < length (bp_backends p)" for m
    proof -
      have "(k * weight_of p m) * weight_of p j = (k * weight_of p j) * weight_of p m" by (simp add: ac_simps)
      also have "\<dots> \<le> (active p j - 1) * weight_of p m" using gt(1) by (rule mult_le_mono1)
      also have "\<dots> \<le> active p m * weight_of p j" using assms(1) j m by (simp add: balanced_def)
      finally show ?thesis
        using pool_bound_nth [OF assms(2) j] by (simp add: load_bound_def weight_of_def)
    qed
    with sums have "k * weight_of p j = active p j"
      using j by (intro sum_le_eq [of "length (bp_backends p)" "\<lambda>i. k * weight_of p i" "active p" j]) auto
    with gt(2) show False by simp
  qed
qed

section \<open>Leases and connection counts\<close>

lemma scan_best_mem: "scan_best better sel xs = Some m \<Longrightarrow> m \<in> set xs \<or> sel = Some m"
  by (induction xs arbitrary: sel) (force split: option.splits if_splits)+

lemma acquire_loop_index:
  "acquire_loop bs start 0 None = Some i \<Longrightarrow> i < length bs \<and> be_healthy (bs ! i)"
  by (auto simp: acquire_loop_scan set_candidates dest!: scan_best_mem)

text \<open>
  The life of the leases on a pool: a lease is acquired, moved or destroyed, and meanwhile the health
  checker and the sessions update the backends. \<open>2 ^ 54\<close> leases at a time are far beyond the number of
  descriptors a process can hold.
\<close>

inductive pool_step ::
  "BackendPool \<times> BackendLease list \<Rightarrow> BackendPool \<times> BackendLease list \<Rightarrow> bool" where
  acquire: "acquire p = (l, p') \<Longrightarrow> length ls < 2 ^ 54 \<Longrightarrow> pool_step (p, ls) (p', l # ls)"
| destroy: "pool_step (p, as @ l # bs) (BackendLease_destroy l p, as @ bs)"
| move: "BackendLease_move l = (l', l'') \<Longrightarrow> pool_step (p, as @ l # bs) (p, l'' # as @ l' # bs)"
| health: "i < length (bp_backends p) \<Longrightarrow> pool_step (p, ls) (on_backend i (setHealthy v) p, ls)"
| success: "i < length (bp_backends p) \<Longrightarrow> pool_step (p, ls) (on_backend i recordConnectSuccess p, ls)"
| failure: "i < length (bp_backends p) \<Longrightarrow> pool_step (p, ls) (on_backend i recordConnectFailure p, ls)"

definition holders :: "BackendLease list \<Rightarrow> nat \<Rightarrow> nat" where
  "holders ls i = length (filter (\<lambda>l. bl_backend l = Some i) ls)"

definition leases_counted :: "BackendPool \<times> BackendLease list \<Rightarrow> bool" where
  "leases_counted s \<longleftrightarrow> (case s of (p, ls) \<Rightarrow>
     (\<forall>i<length (bp_backends p). active p i = holders ls i) \<and>
     (\<forall>l\<in>set ls. \<forall>i. bl_backend l = Some i \<longrightarrow> i < length (bp_backends p)))"

lemma holders_simps [simp]:
  "holders [] i = 0"
  "holders (l # ls) i = (if bl_backend l = Some i then 1 else 0) + holders ls i"
  "holders (as @ bs) i = holders as i + holders bs i"
  by (simp_all add: holders_def)

lemma holders_le: "holders ls i \<le> length ls"
  by (simp add: holders_def)

lemma active_on_backend:
  "i < length (bp_backends p) \<Longrightarrow>
     active (on_backend i f p) j = (if i = j then unat (be_activeConnections (f (bp_backends p ! i))) else active p j)"
  by (simp add: active_def)

lemma active_tieBreaker [simp]: "active (p\<lparr> bp_tieBreaker := t \<rparr>) = active p"
  by (simp add: active_def fun_eq_iff)

lemma leases_counted_step: "pool_step s s' \<Longrightarrow> leases_counted s \<Longrightarrow> leases_counted s'"
proof (induction rule: pool_step.induct)
  case (acquire p l p' ls)
  let ?q = "p\<lparr> bp_tieBreaker := bp_tieBreaker p + 1 \<rparr>"
  obtain sel where sel: "acquire_loop (bp_backends p) (unat (bp_tieBreaker p) mod length (bp_backends p)) 0 None = sel"
    by blast
  show ?case
  proof (cases sel)
    case None
    then have "l = \<lparr> bl_backend = None \<rparr>" "p' = ?q"
      using acquire(1) sel by (simp_all add: acquire_def Let_def BackendLease_new_def)
    then show ?thesis using acquire(3) by (auto simp: leases_counted_def)
  next
    case (Some i)
    with sel have i: "i < length (bp_backends p)" by (auto dest: acquire_loop_index)
    have p': "l = \<lparr> bl_backend = Some i \<rparr>" "p' = on_backend i Backend_acquire ?q"
      using acquire(1) sel Some by (simp_all add: acquire_def Let_def BackendLease_new_def)
    have "active p i = holders ls i" using acquire(3) i by (simp add: leases_counted_def)
    then have "unat (be_activeConnections (bp_backends p ! i)) + 1 < 2 ^ 64"
      using holders_le [of ls i] acquire(2) by (simp add: active_def)
    then have "unat (be_activeConnections (Backend_acquire (bp_backends p ! i))) = active p i + 1"
      by (simp add: connections.unat_inc active_def)
    then show ?thesis
      using acquire(3) i p' by (auto simp: leases_counted_def active_on_backend)
  qed
next
  case (destroy p as l bs)
  then show ?case
    by (cases "bl_backend l")
       (auto simp: leases_counted_def BackendLease_destroy_def BackendLease_reset_def active_on_backend
         connections.unat_dec simp flip: active_def)
qed (auto simp: leases_counted_def BackendLease_move_def active_on_backend setHealthy_def
    recordConnectSuccess_def recordConnectFailure_def active_def)

lemma leases_counted_reachable: "pool_step\<^sup>*\<^sup>* s s' \<Longrightarrow> leases_counted s \<Longrightarrow> leases_counted s'"
  by (induction rule: rtranclp_induct) (auto dest: leases_counted_step)

section \<open>Properties\<close>

text \<open>A backend is found exactly when one is healthy: \<open>acquire\<close> returns a valid lease if and only if some backend of the
  pool is healthy, and then it is a lease on a healthy backend.\<close>

lemma acquire_valid_iff_healthy:
  "(BackendLease_valid (fst (acquire p)) \<longleftrightarrow> hasHealthyBackend p) \<and>
   (case bl_backend (fst (acquire p)) of None \<Rightarrow> \<not> hasHealthyBackend p
     | Some i \<Rightarrow> i < length (bp_backends p) \<and> be_healthy (bp_backends p ! i))"
proof (cases "acquire_loop (bp_backends p) (unat (bp_tieBreaker p) mod length (bp_backends p)) 0 None")
  case None
  then have h: "\<not> hasHealthyBackend p" by (simp add: hasHealthyBackend_iff acquire_loop_None_iff)
  from acquire_None [OF h] h show ?thesis by (simp add: BackendLease_valid_def)
next
  case (Some i)
  then have "i < length (bp_backends p)" "be_healthy (bp_backends p ! i)" by (auto dest: acquire_loop_index)
  then have "hasHealthyBackend p" by (auto simp: hasHealthyBackend_iff)
  with Some \<open>i < _\<close> \<open>be_healthy _\<close> show ?thesis
    by (simp add: acquire_def Let_def BackendLease_new_def BackendLease_valid_def)
qed

text \<open>C6. The choice is weighted least connections: the backend \<open>acquire\<close> leases is healthy, has the least ratio of active
  connections to weight among the healthy ones, and is the first such backend in rotation order from the tie breaker;
  its count goes up by one and no other count moves.\<close>

theorem acquire_least_loaded:
  assumes "pool_bound p" "acquire p = (l, p')" "bl_backend l = Some i"
  shows "i < length (bp_backends p) \<and> be_healthy (bp_backends p ! i) \<and>
    (\<forall>j<length (bp_backends p). be_healthy (bp_backends p ! j) \<longrightarrow> active p i * weight_of p j \<le> active p j * weight_of p i) \<and>
    (\<exists>before after. rotation (unat (bp_tieBreaker p) mod length (bp_backends p)) (length (bp_backends p)) = before @ i # after \<and>
       (\<forall>j\<in>set before. be_healthy (bp_backends p ! j) \<longrightarrow> active p i * weight_of p j < active p j * weight_of p i)) \<and>
    active p' i = active p i + 1 \<and> (\<forall>j. j \<noteq> i \<longrightarrow> active p' j = active p j)"
proof -
  let ?bs = "bp_backends p" and ?st = "unat (bp_tieBreaker p) mod length (bp_backends p)"
  have "hasHealthyBackend p" using assms(2,3) acquire_None [of p] by (cases "hasHealthyBackend p") auto
  from acquire_Some [OF assms(1) this] assms(2,3)
  have sel: "selects ?bs ?st i" and p': "p' = on_backend i Backend_acquire (p\<lparr> bp_tieBreaker := bp_tieBreaker p + 1 \<rparr>)" by auto
  have i: "i < length ?bs" "be_healthy (?bs ! i)" using sel by (simp_all add: selects_def)
  note lb = pool_bound_nth [OF assms(1)]
  obtain bf af where rot: "rotation ?st (length ?bs) = bf @ i # af"
    and bf: "\<forall>j\<in>set bf. be_healthy (?bs ! j) \<longrightarrow> less_loaded (?bs ! i) (?bs ! j)" using sel by (auto simp: selects_def)
  have "set bf \<subseteq> {..<length ?bs}" using rot i(1) set_rotation [of ?st "length ?bs"] by fastforce
  then have "active p i * weight_of p j < active p j * weight_of p i" if "j \<in> set bf" "be_healthy (?bs ! j)" for j
    using bf that lb i by (auto simp: active_def weight_of_def less_loaded_exact subset_iff)
  moreover have "unat (be_activeConnections (?bs ! i)) + 1 < 2 ^ 64" using lb [OF i(1)] by (simp add: load_bound_def)
  ultimately show ?thesis
    using i rot selects_least [OF assms(1) sel]
    by (auto simp: p' active_on_backend connections.unat_inc) (simp_all add: active_def)
qed

definition sample_pool :: BackendPool where
  "sample_pool = (let b = \<lambda>name w. \<lparr> be_config = \<lparr> bc_name = name, bc_host = ''h'', bc_port = 80, bc_weight = w \<rparr>,
     be_endpoint = sample_endpoint, be_healthy = True, be_activeConnections = 0, be_totalConnections = 0,
     be_failedConnections = 0 \<rparr> in \<lparr> bp_backends = [b ''a'' 1, b ''b'' 3], bp_tieBreaker = 0 \<rparr>)"

lemma sample_pool_fresh: "fresh_pool sample_pool" "all_healthy sample_pool"
  by (auto simp: fresh_pool_def pool_bound_def load_bound_def weight_def active_def all_healthy_def sample_pool_def
      less_Suc_eq Let_def)

theorem acquire_least_loaded_witness:
  "\<exists>i p'. acquire sample_pool = (\<lparr> bl_backend = Some i \<rparr>, p') \<and> active p' i = active sample_pool i + 1"
proof -
  obtain l p' where a: "acquire sample_pool = (l, p')" by (cases "acquire sample_pool")
  have "bl_backend (fst (acquire sample_pool)) = Some 0" by code_simp
  then have l: "bl_backend l = Some 0" by (simp add: a)
  have "pool_bound sample_pool" using sample_pool_fresh(1) by (simp add: fresh_pool_def)
  from acquire_least_loaded [OF this a l] a l show ?thesis by (cases l) auto
qed

text \<open>C14. Connections are distributed in proportion to the weights: when all backends are healthy and none is released, then after
  any multiple \<open>k\<close> of the total weight of acquisitions from a new pool, each backend holds exactly \<open>k\<close> times its weight.\<close>

theorem acquire_proportional:
  assumes "fresh_pool p" "all_healthy p" "k * total_weight p < 2 ^ 54" "i < length (bp_backends p)"
  shows "active (acquire_times (k * total_weight p) p) i = k * weight_of p i"
proof -
  let ?q = "acquire_times (k * total_weight p) p"
  note inv = acquire_times_inv [OF assms(1-3)]
  have "pool_bound ?q"
    using inv assms(1,3) by (intro pool_bound_from_total [of p ?q]) (auto simp: fresh_pool_def)
  moreover have "total_active ?q = k * total_weight ?q" using inv by (simp add: total_weight_def)
  ultimately show ?thesis using balanced_exact [of ?q k i] inv assms(4) by simp
qed

theorem acquire_proportional_witness: "active (acquire_times (2 * total_weight sample_pool) sample_pool) 1 = 6"
proof -
  have w: "length (bp_backends sample_pool) = 2" "weight_of sample_pool 0 = 1" "weight_of sample_pool 1 = 3" by code_simp+
  then have "total_weight sample_pool = 4" by (simp add: total_weight_def numeral_2_eq_2)
  with w have "2 * total_weight sample_pool < 2 ^ 54" "1 < length (bp_backends sample_pool)" "weight_of sample_pool 1 = 3"
    by simp_all
  then show ?thesis using acquire_proportional [OF sample_pool_fresh, of 2 1] by simp
qed

text \<open>C17. Connection counts are exact: in every interleaving of acquisitions, moves and destructions of leases with health and
  connect bookkeeping, the active count of each backend is the number of live leases on it.\<close>

theorem lease_counts_exact:
  assumes "pool_step\<^sup>*\<^sup>* (p, []) (p', ls)" "\<forall>i<length (bp_backends p). active p i = 0" "i < length (bp_backends p')"
  shows "active p' i = length (filter (\<lambda>l. bl_backend l = Some i) ls)"
proof -
  have "leases_counted (p, [])" using assms(2) by (simp add: leases_counted_def)
  from leases_counted_reachable [OF assms(1) this] assms(3) show ?thesis by (simp add: leases_counted_def holders_def)
qed

theorem lease_counts_exact_witness:
  "\<exists>l p'. pool_step\<^sup>*\<^sup>* (sample_pool, []) (p', [l]) \<and> active p' 0 = length (filter (\<lambda>l. bl_backend l = Some 0) [l])"
proof -
  obtain l p' where a: "acquire sample_pool = (l, p')" by (cases "acquire sample_pool")
  have r: "pool_step\<^sup>*\<^sup>* (sample_pool, []) (p', [l])" by (intro r_into_rtranclp pool_step.acquire [OF a]) simp
  have "length (bp_backends (snd (acquire sample_pool))) = 2" by code_simp
  then have "0 < length (bp_backends p')" by (simp add: a)
  moreover have "\<forall>i<length (bp_backends sample_pool). active sample_pool i = 0"
    using sample_pool_fresh(1) by (simp add: fresh_pool_def)
  ultimately show ?thesis using lease_counts_exact [OF r] r by blast
qed

end
