(* ===== verification/HealthChecker.thy ===== *)
theory HealthChecker
  imports Backend
begin

text \<open>
  The health checker (\<^verbatim>\<open>HealthChecker.h/.cpp\<close>): the probe bookkeeping with its two thresholds, one round
  over the pool, and the checker thread with \<^verbatim>\<open>start\<close>, \<^verbatim>\<open>stop\<close> and the timed wait as a step relation. The
  hysteresis is specified on the history of probe results alone, and the counters are shown to implement it.
\<close>

section \<open>State\<close>

record ProbeState =
  ps_consecutiveFailures :: size_t
  ps_consecutiveSuccesses :: size_t

definition ProbeState_new :: ProbeState where
  "ProbeState_new = \<lparr> ps_consecutiveFailures = 0, ps_consecutiveSuccesses = 0 \<rparr>"

text \<open>\<^verbatim>\<open>probeStates_\<close> is keyed by the address of a backend, its position in the pool.\<close>

record HealthChecker =
  hc_intervalMs :: int
  hc_timeoutMs :: int
  hc_failureThreshold :: size_t
  hc_successThreshold :: size_t
  hc_probeStates :: "nat \<rightharpoonup> ProbeState"

definition HealthChecker_new :: "int \<Rightarrow> int \<Rightarrow> size_t \<Rightarrow> size_t \<Rightarrow> HealthChecker" where
  "HealthChecker_new intervalMs timeoutMs failureThreshold successThreshold =
     \<lparr> hc_intervalMs = intervalMs, hc_timeoutMs = timeoutMs, hc_failureThreshold = failureThreshold,
       hc_successThreshold = successThreshold, hc_probeStates = Map.empty \<rparr>"

section \<open>One probe\<close>

text \<open>The body of the loop after the probe: counters, then the state change when a threshold is reached.\<close>

definition recordProbe :: "size_t \<Rightarrow> size_t \<Rightarrow> bool \<Rightarrow> ProbeState \<Rightarrow> Backend \<Rightarrow> ProbeState \<times> Backend" where
  "recordProbe failureThreshold successThreshold reachable st b =
     (let previous = be_healthy b in
      if reachable then
        let st = st\<lparr> ps_consecutiveFailures := 0,
                     ps_consecutiveSuccesses := ps_consecutiveSuccesses st + 1 \<rparr>
        in (st, if \<not> previous \<and> ps_consecutiveSuccesses st \<ge> successThreshold
                then setHealthy True b else b)
      else
        let st = st\<lparr> ps_consecutiveSuccesses := 0,
                     ps_consecutiveFailures := ps_consecutiveFailures st + 1 \<rparr>
        in (st, if previous \<and> ps_consecutiveFailures st \<ge> failureThreshold
                then setHealthy False b else b))"

text \<open>\<^verbatim>\<open>probeStates_[backend.get()]\<close>: a missing entry is created with zero counters.\<close>

definition probe_state :: "HealthChecker \<Rightarrow> nat \<Rightarrow> ProbeState" where
  "probe_state hc i = (case hc_probeStates hc i of None \<Rightarrow> ProbeState_new | Some st \<Rightarrow> st)"

definition checkBackend ::
  "kernel \<Rightarrow> nat \<Rightarrow> HealthChecker \<times> BackendPool \<times> os \<Rightarrow> (HealthChecker \<times> BackendPool \<times> os) option" where
  "checkBackend K i s =
     (case s of (hc, p, h) \<Rightarrow>
        let backend = bp_backends p ! i in
        do {
          (reachable, h) \<leftarrow> waitForConnect K (be_endpoint backend) (hc_timeoutMs hc) h;
          let previous = be_healthy backend;
              (st, backend') = recordProbe (hc_failureThreshold hc) (hc_successThreshold hc) reachable
                                 (probe_state hc i) backend;
              h = (if be_healthy backend' \<noteq> previous
                   then fg_log Warn ''backend %s (%s) changed state to %s after %zu consecutive %s probe(s)'' h
                   else h)
          in Some (hc\<lparr> hc_probeStates := (hc_probeStates hc)(i \<mapsto> st) \<rparr>,
                   on_backend i (\<lambda>_. backend') p, h) })"

fun checkLoop ::
  "kernel \<Rightarrow> nat list \<Rightarrow> HealthChecker \<times> BackendPool \<times> os \<Rightarrow> (HealthChecker \<times> BackendPool \<times> os) option" where
  "checkLoop K [] s = Some s"
| "checkLoop K (i # is) s = do { s \<leftarrow> checkBackend K i s; checkLoop K is s }"

definition checkOnce ::
  "kernel \<Rightarrow> HealthChecker \<times> BackendPool \<times> os \<Rightarrow> (HealthChecker \<times> BackendPool \<times> os) option" where
  "checkOnce K s = (case s of (hc, p, h) \<Rightarrow> checkLoop K [0..<length (bp_backends p)] (hc, p, h))"

section \<open>Hysteresis\<close>

text \<open>
  The specification, on the probe results with the latest first: down after \<open>f\<close> failures in a row, up after
  \<open>s\<close> successes in a row, otherwise as before; up before the first probe.
\<close>

fun health_spec :: "nat \<Rightarrow> nat \<Rightarrow> bool list \<Rightarrow> bool" where
  "health_spec f s [] = True"
| "health_spec f s (r # rs) =
     (if f \<le> length (takeWhile Not (r # rs)) then False
      else if s \<le> length (takeWhile (\<lambda>r. r) (r # rs)) then True
      else health_spec f s rs)"

text \<open>The code over a history (latest first), starting from the state of a new checker and backend.\<close>

fun probe_history :: "size_t \<Rightarrow> size_t \<Rightarrow> Backend \<Rightarrow> bool list \<Rightarrow> ProbeState \<times> Backend" where
  "probe_history f s b [] = (ProbeState_new, b)"
| "probe_history f s b (r # rs) = (case probe_history f s b rs of (st, b) \<Rightarrow> recordProbe f s r st b)"

lemma recordProbe_frame:
  "recordProbe f s r st b = (st', b') \<Longrightarrow> b' = b\<lparr> be_healthy := be_healthy b' \<rparr>"
  by (auto simp: recordProbe_def setHealthy_def Let_def split: if_splits)

lemma recordProbe_active:
  "recordProbe f s r st b = (st', b') \<Longrightarrow> be_activeConnections b' = be_activeConnections b"
  by (auto simp: recordProbe_def setHealthy_def Let_def split: if_splits)

lemma probe_history_counts:
  assumes "be_healthy b" "1 \<le> unat f" "1 \<le> unat s" "length rs < 2 ^ 64"
    "probe_history f s b rs = (st, b')"
  shows "unat (ps_consecutiveFailures st) = length (takeWhile Not rs) \<and>
    unat (ps_consecutiveSuccesses st) = length (takeWhile (\<lambda>r. r) rs) \<and>
    be_healthy b' = health_spec (unat f) (unat s) rs"
  using assms(4,5)
proof (induction rs arbitrary: st b')
  case Nil
  then show ?case using assms(1) by (auto simp: ProbeState_new_def)
next
  case (Cons r rs)
  obtain st1 b1 where p: "probe_history f s b rs = (st1, b1)" by (cases "probe_history f s b rs")
  with Cons have IH: "unat (ps_consecutiveFailures st1) = length (takeWhile Not rs)"
    "unat (ps_consecutiveSuccesses st1) = length (takeWhile (\<lambda>r. r) rs)"
    "be_healthy b1 = health_spec (unat f) (unat s) rs" by simp_all
  have r: "recordProbe f s r st1 b1 = (st, b')" using Cons.prems(2) p by simp
  have bound: "length (takeWhile P rs) + 1 < 2 ^ 64" for P
    using length_takeWhile_le [of P rs] Cons.prems(1) by simp
  show ?case
  proof (cases r)
    case True
    have c: "unat (ps_consecutiveSuccesses st1 + 1) = length (takeWhile (\<lambda>r. r) rs) + 1"
      using IH(2) bound [of "\<lambda>r. r"] by (subst unat_plus_no_wrap) simp_all
    have "st = st1\<lparr> ps_consecutiveFailures := 0, ps_consecutiveSuccesses := ps_consecutiveSuccesses st1 + 1 \<rparr>"
      "be_healthy b' \<longleftrightarrow> be_healthy b1 \<or> s \<le> ps_consecutiveSuccesses st1 + 1"
      using r True by (auto simp: recordProbe_def setHealthy_def Let_def split: if_splits)
    then show ?thesis using True IH c assms(2) by (auto simp: word_le_nat_alt)
  next
    case False
    have c: "unat (ps_consecutiveFailures st1 + 1) = length (takeWhile Not rs) + 1"
      using IH(1) bound [of Not] by (subst unat_plus_no_wrap) simp_all
    have "st = st1\<lparr> ps_consecutiveSuccesses := 0, ps_consecutiveFailures := ps_consecutiveFailures st1 + 1 \<rparr>"
      "be_healthy b' \<longleftrightarrow> be_healthy b1 \<and> \<not> f \<le> ps_consecutiveFailures st1 + 1"
      using r False by (auto simp: recordProbe_def setHealthy_def Let_def split: if_splits)
    then show ?thesis using False IH c assms(3) by (auto simp: word_le_nat_alt)
  qed
qed

section \<open>One round over the pool\<close>

text \<open>
  \<open>round_effect\<close>: on the backends of a set, state and counters move by one probe result each; nothing else
  of the pool or the checker changes.
\<close>

definition round_effect ::
  "nat set \<Rightarrow> (nat \<Rightarrow> bool) \<Rightarrow> HealthChecker \<times> BackendPool \<Rightarrow> HealthChecker \<times> BackendPool \<Rightarrow> bool" where
  "round_effect A reach s s' \<longleftrightarrow> (case (s, s') of ((hc, p), (hc', p')) \<Rightarrow>
     hc' = hc\<lparr> hc_probeStates := hc_probeStates hc' \<rparr> \<and>
     bp_tieBreaker p' = bp_tieBreaker p \<and> length (bp_backends p') = length (bp_backends p) \<and>
     (\<forall>i<length (bp_backends p). i \<in> A \<longrightarrow> (probe_state hc' i, bp_backends p' ! i) =
        recordProbe (hc_failureThreshold hc) (hc_successThreshold hc) (reach i) (probe_state hc i) (bp_backends p ! i)) \<and>
     (\<forall>i. i \<notin> A \<longrightarrow> probe_state hc' i = probe_state hc i \<and> bp_backends p' ! i = bp_backends p ! i))"

text \<open>
  \<open>probe_trace\<close>: the calls of a round. The backends are probed one after the other, each at its own address and with the timeout of the
  checker; \<open>reach\<close> is what the probes answered; a line is written for exactly those whose state has changed.
\<close>

fun probe_trace ::
  "kernel \<Rightarrow> int \<Rightarrow> BackendPool \<Rightarrow> BackendPool \<Rightarrow> (nat \<Rightarrow> bool) \<Rightarrow> nat list \<Rightarrow> os \<Rightarrow> os \<Rightarrow> bool" where
  "probe_trace K timeoutMs p p' reach [] h h' = (h' = h)"
| "probe_trace K timeoutMs p p' reach (i # is) h h' =
     (\<exists>h1. waitForConnect K (be_endpoint (bp_backends p ! i)) timeoutMs h = Some (reach i, h1) \<and>
        probe_trace K timeoutMs p p' reach is
          (if be_healthy (bp_backends p' ! i) = be_healthy (bp_backends p ! i) then h1
           else fg_log Warn ''backend %s (%s) changed state to %s after %zu consecutive %s probe(s)'' h1) h')"

lemma probe_trace_cong:
  "\<forall>i\<in>set is. bp_backends p ! i = bp_backends q ! i \<and> reach i = reach' i \<Longrightarrow>
    probe_trace K t p p' reach is h h' = probe_trace K t q p' reach' is h h'"
  by (induction "is" arbitrary: h) auto

lemma checkBackend_effect:
  assumes "checkBackend K i (hc, p, h) = Some (hc', p', h')" "i < length (bp_backends p)"
  shows "\<exists>r h1. waitForConnect K (be_endpoint (bp_backends p ! i)) (hc_timeoutMs hc) h = Some (r, h1) \<and>
    round_effect {i} (\<lambda>_. r) (hc, p) (hc', p') \<and>
    h' = (if be_healthy (bp_backends p' ! i) = be_healthy (bp_backends p ! i) then h1
          else fg_log Warn ''backend %s (%s) changed state to %s after %zu consecutive %s probe(s)'' h1)"
proof -
  obtain r h1 where w: "waitForConnect K (be_endpoint (bp_backends p ! i)) (hc_timeoutMs hc) h = Some (r, h1)"
    using assms(1) by (auto simp: checkBackend_def Let_def bind_eq_Some_conv)
  obtain st b where rp: "recordProbe (hc_failureThreshold hc) (hc_successThreshold hc) r (probe_state hc i)
      (bp_backends p ! i) = (st, b)" by fastforce
  have eqs: "hc' = hc\<lparr> hc_probeStates := (hc_probeStates hc)(i \<mapsto> st) \<rparr>" "p' = on_backend i (\<lambda>_. b) p"
    "h' = (if be_healthy b \<noteq> be_healthy (bp_backends p ! i)
       then fg_log Warn ''backend %s (%s) changed state to %s after %zu consecutive %s probe(s)'' h1 else h1)"
    using assms(1) w rp by (auto simp: checkBackend_def Let_def)
  then show ?thesis
    using w rp assms(2) by (auto simp: round_effect_def probe_state_def on_backend_def)
qed

lemma round_effect_frame:
  assumes "round_effect A reach (hc, p) (hc', p')"
  shows "hc_failureThreshold hc' = hc_failureThreshold hc" "hc_successThreshold hc' = hc_successThreshold hc"
    "length (bp_backends p') = length (bp_backends p)" "hc_timeoutMs hc' = hc_timeoutMs hc"
proof -
  have "hc' = hc\<lparr> hc_probeStates := hc_probeStates hc' \<rparr>" and len: "length (bp_backends p') = length (bp_backends p)"
    using assms by (simp_all add: round_effect_def)
  then obtain ps where eq: "hc' = hc\<lparr> hc_probeStates := ps \<rparr>" by blast
  show "hc_failureThreshold hc' = hc_failureThreshold hc" "hc_successThreshold hc' = hc_successThreshold hc"
    "length (bp_backends p') = length (bp_backends p)" "hc_timeoutMs hc' = hc_timeoutMs hc" unfolding eq by (simp_all add: len)
qed

lemma round_effect_trans:
  assumes "round_effect {i} (\<lambda>_. r) (hc, p) (hc1, p1)" "round_effect A reach (hc1, p1) (hc', p')" "i \<notin> A"
  shows "round_effect (insert i A) (\<lambda>j. if j = i then r else reach j) (hc, p) (hc', p')"
proof -
  have eq: "hc1 = hc\<lparr> hc_probeStates := hc_probeStates hc1 \<rparr>" "hc' = hc1\<lparr> hc_probeStates := hc_probeStates hc' \<rparr>"
    using assms(1,2) by (simp_all add: round_effect_def)
  have "hc' = hc\<lparr> hc_probeStates := hc_probeStates hc' \<rparr>"
    by (subst eq(2), subst eq(1)) simp
  moreover have "bp_tieBreaker p' = bp_tieBreaker p" using assms(1,2) by (simp add: round_effect_def)
  moreover have "(probe_state hc' j, bp_backends p' ! j) = recordProbe (hc_failureThreshold hc) (hc_successThreshold hc)
      (if j = i then r else reach j) (probe_state hc j) (bp_backends p ! j)"
    if "j < length (bp_backends p)" "j \<in> insert i A" for j
  proof (cases "j = i")
    case True
    then show ?thesis using that assms by (simp add: round_effect_def)
  next
    case False
    then have "j \<in> A" "probe_state hc1 j = probe_state hc j" "bp_backends p1 ! j = bp_backends p ! j"
      using that(2) assms(1) by (simp_all add: round_effect_def)
    then show ?thesis using False that(1) assms(2) round_effect_frame [OF assms(1)] by (simp add: round_effect_def)
  qed
  moreover have "probe_state hc' j = probe_state hc j \<and> bp_backends p' ! j = bp_backends p ! j" if "j \<notin> insert i A" for j
    using that assms(1,2) by (simp add: round_effect_def)
  moreover have "length (bp_backends p') = length (bp_backends p)"
    by (simp only: round_effect_frame(3) [OF assms(1)] round_effect_frame(3) [OF assms(2)])
  ultimately show ?thesis
    unfolding round_effect_def case_prod_conv by (intro conjI allI impI) (assumption | blast)+
qed

lemma checkLoop_effect:
  assumes "checkLoop K is (hc, p, h) = Some (hc', p', h')" "distinct is" "\<forall>i\<in>set is. i < length (bp_backends p)"
    "fresh_fds K"
  shows "\<exists>reach. round_effect (set is) reach (hc, p) (hc', p') \<and> probe_trace K (hc_timeoutMs hc) p p' reach is h h' \<and>
    open_fds h' = open_fds h \<and> (closes_ok h \<longrightarrow> closes_ok h')"
  using assms(1-3)
proof (induction "is" arbitrary: hc p h)
  case Nil
  then show ?case by (auto simp: round_effect_def)
next
  case (Cons i "is")
  obtain hc1 p1 h1 where c: "checkBackend K i (hc, p, h) = Some (hc1, p1, h1)"
    and rest: "checkLoop K is (hc1, p1, h1) = Some (hc', p', h')"
    using Cons.prems(1) by (auto simp: bind_eq_Some_conv)
  have il: "i < length (bp_backends p)" "i \<notin> set is" "distinct is" using Cons.prems by simp_all
  from checkBackend_effect [OF c il(1)] obtain r h0 where
    w: "waitForConnect K (be_endpoint (bp_backends p ! i)) (hc_timeoutMs hc) h = Some (r, h0)"
    and e1: "round_effect {i} (\<lambda>_. r) (hc, p) (hc1, p1)"
    and h1: "h1 = (if be_healthy (bp_backends p1 ! i) = be_healthy (bp_backends p ! i) then h0
      else fg_log Warn ''backend %s (%s) changed state to %s after %zu consecutive %s probe(s)'' h0)" by blast
  have o1: "open_fds h1 = open_fds h" "closes_ok h \<longrightarrow> closes_ok h1"
    using h1 waitForConnect_accounting [OF assms(4) w] by (simp_all add: fg_log_def)
  have len: "length (bp_backends p1) = length (bp_backends p)" using e1 by (simp add: round_effect_def)
  then have "\<forall>j\<in>set is. j < length (bp_backends p1)" using Cons.prems(3) by simp
  from Cons.IH [OF rest il(3) this]
  obtain reach where e2: "round_effect (set is) reach (hc1, p1) (hc', p')" and t2: "probe_trace K (hc_timeoutMs hc) p1 p' reach is h1 h'"
    and o2: "open_fds h' = open_fds h1" "closes_ok h1 \<longrightarrow> closes_ok h'"
    using round_effect_frame(4) [OF e1] by auto
  let ?reach = "\<lambda>j. if j = i then r else reach j"
  have "round_effect (set (i # is)) ?reach (hc, p) (hc', p')"
    using round_effect_trans [OF e1 e2] il(2) by simp
  moreover have "\<forall>j\<in>set is. bp_backends p1 ! j = bp_backends p ! j \<and> reach j = ?reach j" "bp_backends p' ! i = bp_backends p1 ! i"
    using e1 e2 il(2) by (auto simp: round_effect_def)
  then have "probe_trace K (hc_timeoutMs hc) p p' ?reach (i # is) h h'"
    using w t2 h1 probe_trace_cong [of "is" p1 p reach ?reach K "hc_timeoutMs hc" p'] by simp
  ultimately show ?case using o1 o2 by blast
qed

lemma checkOnce_trace:
  assumes "fresh_fds K" "checkOnce K (hc, p, h) = Some (hc', p', h')"
  shows "\<exists>reach. round_effect {..<length (bp_backends p)} reach (hc, p) (hc', p') \<and>
    probe_trace K (hc_timeoutMs hc) p p' reach [0..<length (bp_backends p)] h h' \<and> open_fds h' = open_fds h \<and> (closes_ok h \<longrightarrow> closes_ok h')"
  using checkLoop_effect [of K "[0..<length (bp_backends p)]" hc p h hc' p' h'] assms
  by (auto simp: checkOnce_def atLeast0LessThan)

lemma round_effect_active:
  assumes "round_effect A reach (hc, p) (hc', p')" "i < length (bp_backends p)"
  shows "active p' i = active p i"
proof (cases "i \<in> A")
  case True
  then have "recordProbe (hc_failureThreshold hc) (hc_successThreshold hc) (reach i) (probe_state hc i) (bp_backends p ! i) =
      (probe_state hc' i, bp_backends p' ! i)" using assms by (simp add: round_effect_def)
  from recordProbe_active [OF this] show ?thesis by (simp add: active_def)
next
  case False
  then show ?thesis using assms by (simp add: round_effect_def active_def)
qed

lemma checkOnce_effect:
  assumes "fresh_fds K" "checkOnce K (hc, p, h) = Some (hc', p', h')"
  shows "length (bp_backends p') = length (bp_backends p) \<and>
    (\<forall>i<length (bp_backends p). active p' i = active p i) \<and> open_fds h' = open_fds h \<and> (closes_ok h \<longrightarrow> closes_ok h')"
  using checkOnce_trace [OF assms] round_effect_active round_effect_frame(3) by blast

text \<open>A round always returns.\<close>

lemma checkLoop_returns:
  assumes "poll_bounded K B"
  shows "checkLoop K is s \<noteq> None"
proof (induction "is" arbitrary: s)
  case (Cons i "is")
  obtain hc p h where s: "s = (hc, p, h)" by (cases s)
  obtain r h1 where "waitForConnect K (be_endpoint (bp_backends p ! i)) (hc_timeoutMs hc) h = Some (r, h1)"
    using waitForConnect_returns [OF assms] by fastforce
  then obtain s1 where "checkBackend K i s = Some s1" by (simp add: s checkBackend_def Let_def split_def)
  then show ?case using Cons.IH [of s1] by simp
qed simp

lemma checkOnce_returns: "poll_bounded K B \<Longrightarrow> \<exists>hc p h. checkOnce K s = Some (hc, p, h)"
  using checkLoop_returns [of K B] by (cases s) (fastforce simp: checkOnce_def)

section \<open>The checker thread\<close>

text \<open>
  \<^verbatim>\<open>run\<close> as a thread with program points: \<open>Probing\<close> inside \<^verbatim>\<open>checkOnce\<close>, \<open>Testing\<close> at the loop condition,
  \<open>Predicate\<close> about to evaluate the predicate of \<^verbatim>\<open>wait_for\<close>, \<open>Committed\<close> between a false predicate and the
  block, \<open>Blocked\<close> in the timed wait (left by a timeout, a notification or spuriously), \<open>AfterWait\<close> at the second test. \<^verbatim>\<open>stop\<close> stores the flag, then notifies;
  it does not take \<^verbatim>\<open>mutex_\<close>, so it may run at any point.
\<close>

datatype hc_pc = NotStarted | Probing | Testing | Predicate | Committed | Blocked | AfterWait | Exited

datatype stop_pc = StopIdle | StopStored | StopDone

record hc_thread =
  ht_pc :: hc_pc
  ht_running :: bool
  ht_stop :: stop_pc

definition hc_thread_init :: hc_thread where
  "hc_thread_init = \<lparr> ht_pc = NotStarted, ht_running = False, ht_stop = StopIdle \<rparr>"

text \<open>\<^verbatim>\<open>start\<close>: \<^verbatim>\<open>running_.exchange(true)\<close>; only the first call creates the thread.\<close>

inductive hc_start :: "hc_thread \<Rightarrow> hc_thread \<Rightarrow> bool" where
  first: "\<not> ht_running t \<Longrightarrow> ht_pc t = NotStarted \<Longrightarrow> hc_start t (t\<lparr> ht_running := True, ht_pc := Probing \<rparr>)"
| again: "ht_running t \<Longrightarrow> hc_start t t"

inductive hc_run :: "hc_thread \<Rightarrow> hc_thread \<Rightarrow> bool" where
  probed: "ht_pc t = Probing \<Longrightarrow> hc_run t (t\<lparr> ht_pc := Testing \<rparr>)"
| continue: "ht_pc t = Testing \<Longrightarrow> ht_running t \<Longrightarrow> hc_run t (t\<lparr> ht_pc := Predicate \<rparr>)"
| leave: "ht_pc t = Testing \<Longrightarrow> \<not> ht_running t \<Longrightarrow> hc_run t (t\<lparr> ht_pc := Exited \<rparr>)"
| pred_false: "ht_pc t = Predicate \<Longrightarrow> ht_running t \<Longrightarrow> hc_run t (t\<lparr> ht_pc := Committed \<rparr>)"
| pred_true: "ht_pc t = Predicate \<Longrightarrow> \<not> ht_running t \<Longrightarrow> hc_run t (t\<lparr> ht_pc := AfterWait \<rparr>)"
| block: "ht_pc t = Committed \<Longrightarrow> hc_run t (t\<lparr> ht_pc := Blocked \<rparr>)"
| timeout: "ht_pc t = Blocked \<Longrightarrow> hc_run t (t\<lparr> ht_pc := AfterWait \<rparr>)"
| spurious: "ht_pc t = Blocked \<Longrightarrow> hc_run t (t\<lparr> ht_pc := Predicate \<rparr>)"
| probe_again: "ht_pc t = AfterWait \<Longrightarrow> ht_running t \<Longrightarrow> hc_run t (t\<lparr> ht_pc := Probing \<rparr>)"
| break: "ht_pc t = AfterWait \<Longrightarrow> \<not> ht_running t \<Longrightarrow> hc_run t (t\<lparr> ht_pc := Exited \<rparr>)"

inductive hc_stop :: "hc_thread \<Rightarrow> hc_thread \<Rightarrow> bool" where
  store: "ht_stop t = StopIdle \<Longrightarrow> hc_stop t (t\<lparr> ht_running := False, ht_stop := StopStored \<rparr>)"
| notify: "ht_stop t = StopStored \<Longrightarrow>
    hc_stop t (t\<lparr> ht_pc := if ht_pc t = Blocked then Predicate else ht_pc t, ht_stop := StopDone \<rparr>)"

text \<open>\<^verbatim>\<open>join\<close> returns when there is no thread or when it has ended.\<close>

definition hc_joined :: "hc_thread \<Rightarrow> bool" where
  "hc_joined t \<longleftrightarrow> ht_pc t = NotStarted \<or> ht_pc t = Exited"

definition hc_step :: "hc_thread \<Rightarrow> hc_thread \<Rightarrow> bool" where
  "hc_step t t' \<longleftrightarrow> hc_start t t' \<or> hc_run t t' \<or> hc_stop t t'"

inductive_cases hc_runE: "hc_run t t'"
inductive_cases hc_stopE: "hc_stop t t'"
inductive_cases hc_startE: "hc_start t t'"

text \<open>Steps left before the thread exits, once the flag is down.\<close>

fun hc_rank :: "hc_pc \<Rightarrow> nat" where
  "hc_rank Exited = 0"
| "hc_rank AfterWait = 1"
| "hc_rank Testing = 1"
| "hc_rank Predicate = 2"
| "hc_rank Blocked = 3"
| "hc_rank Probing = 2"
| "hc_rank Committed = 4"
| "hc_rank NotStarted = 0"

lemma hc_run_rank: "hc_run t t' \<Longrightarrow> \<not> ht_running t \<Longrightarrow> hc_rank (ht_pc t') < hc_rank (ht_pc t) \<and> \<not> ht_running t'"
  by (auto elim!: hc_runE)

lemma hc_run_progress: "ht_pc t \<noteq> Exited \<Longrightarrow> ht_pc t \<noteq> NotStarted \<Longrightarrow> \<exists>t'. hc_run t t'"
  by (cases "ht_pc t"; cases "ht_running t") (auto intro: hc_run.intros)

text \<open>The checker thread stops: once the running flag is down, no schedule takes it through more than four further steps, and
  it is never stuck before it has exited.\<close>

lemma checker_stops:
  assumes "\<not> ht_running t" "(hc_run ^^ n) t t'"
  shows "n \<le> 4 \<and> (ht_pc t' = Exited \<or> ht_pc t' = NotStarted \<or> (\<exists>t''. hc_run t' t''))"
proof -
  have "n + hc_rank (ht_pc t') \<le> hc_rank (ht_pc t) \<and> \<not> ht_running t'"
    using assms(2)
  proof (induction n arbitrary: t')
    case (Suc n)
    then obtain u where u: "(hc_run ^^ n) t u" "hc_run u t'" by auto
    from Suc.IH [OF u(1)] hc_run_rank [OF u(2)] show ?case by auto
  qed (use assms(1) in simp)
  moreover have "hc_rank pc \<le> 4" for pc by (cases pc) simp_all
  ultimately show ?thesis using hc_run_progress [of t'] by (meson add_leD1 order_trans)
qed

section \<open>Properties\<close>

text \<open>C9. Health follows the hysteresis rule: after any history of probe results, the counters are the lengths of the current
  runs of failures and successes, and the backend is marked healthy exactly when the specification on the history
  says so (down after as many failures in a row as the failure threshold, up again after as many successes in a row
  as the success threshold).\<close>

theorem health_hysteresis:
  assumes "be_healthy b" "1 \<le> unat f" "1 \<le> unat s" "length rs < 2 ^ 64" "probe_history f s b rs = (st, b')"
  shows "be_healthy b' = health_spec (unat f) (unat s) rs \<and>
    unat (ps_consecutiveFailures st) = length (takeWhile Not rs) \<and>
    unat (ps_consecutiveSuccesses st) = length (takeWhile (\<lambda>r. r) rs)"
  using probe_history_counts [OF assms] by simp

definition sample_healthy :: Backend where
  "sample_healthy = bp_backends sample_pool ! 0"

theorem health_hysteresis_witness:
  "\<exists>st b'. probe_history 3 2 sample_healthy [True, False, False, False] = (st, b') \<and> \<not> be_healthy b'"
proof -
  obtain st b' where h: "probe_history 3 2 sample_healthy [True, False, False, False] = (st, b')"
    by (cases "probe_history 3 2 sample_healthy [True, False, False, False]")
  have "be_healthy sample_healthy" by code_simp
  from health_hysteresis [OF this _ _ _ h] have "\<not> be_healthy b'" by simp
  with h show ?thesis by blast
qed

text \<open>C26. A round of the checker always ends (as long as \<^verbatim>\<open>poll\<close> is not interrupted for ever). It probes every backend once, in order, and
  the answer of that very probe, and nothing else, moves the counters and the health flag of that backend by one step of
  \<open>recordProbe\<close>; the settings of the checker, the tie breaker and all connection counts of the pool stay as they are; every change of state, and
  only that, is logged; the descriptors the probes opened are closed again, none twice.\<close>

theorem checkOnce_round:
  assumes "fresh_fds K" "poll_bounded K B"
  shows "\<exists>hc' p' h' reach. checkOnce K (hc, p, h) = Some (hc', p', h') \<and>
    probe_trace K (hc_timeoutMs hc) p p' reach [0..<length (bp_backends p)] h h' \<and>
    (\<forall>i<length (bp_backends p). (probe_state hc' i, bp_backends p' ! i) =
        recordProbe (hc_failureThreshold hc) (hc_successThreshold hc) (reach i) (probe_state hc i) (bp_backends p ! i)) \<and>
    hc' = hc\<lparr> hc_probeStates := hc_probeStates hc' \<rparr> \<and> bp_tieBreaker p' = bp_tieBreaker p \<and> length (bp_backends p') = length (bp_backends p) \<and>
    (\<forall>i<length (bp_backends p). active p' i = active p i) \<and> open_fds h' = open_fds h \<and> (closes_ok h \<longrightarrow> closes_ok h')"
proof -
  obtain hc' p' h' where c: "checkOnce K (hc, p, h) = Some (hc', p', h')" using checkOnce_returns [OF assms(2)] by blast
  obtain reach where e: "round_effect {..<length (bp_backends p)} reach (hc, p) (hc', p')"
    "probe_trace K (hc_timeoutMs hc) p p' reach [0..<length (bp_backends p)] h h'" "open_fds h' = open_fds h" "closes_ok h \<longrightarrow> closes_ok h'"
    using checkOnce_trace [OF assms(1) c] by blast
  have "hc' = hc\<lparr> hc_probeStates := hc_probeStates hc' \<rparr>" "bp_tieBreaker p' = bp_tieBreaker p"
    "\<forall>i<length (bp_backends p). (probe_state hc' i, bp_backends p' ! i) =
        recordProbe (hc_failureThreshold hc) (hc_successThreshold hc) (reach i) (probe_state hc i) (bp_backends p ! i)"
    using e(1) by (simp_all add: round_effect_def)
  then show ?thesis using c e(2-4) round_effect_frame(3) [OF e(1)] round_effect_active [OF e(1)]
    by (intro exI [of _ hc'] exI [of _ p'] exI [of _ h'] exI [of _ reach]) blast
qed

theorem checkOnce_round_witness:
  "\<exists>hc' p' h' reach. checkOnce sample_kernel (HealthChecker_new 3000 800 3 2, sample_pool, []) = Some (hc', p', h') \<and>
     probe_trace sample_kernel 800 sample_pool p' reach [0, 1] [] h' \<and> length (bp_backends p') = 2 \<and> open_fds h' = {}"
proof -
  let ?hc = "HealthChecker_new 3000 800 3 2"
  have len: "length (bp_backends sample_pool) = 2" and t: "hc_timeoutMs ?hc = 800" by code_simp+
  obtain hc' p' h' reach where r: "checkOnce sample_kernel (?hc, sample_pool, []) = Some (hc', p', h')"
    "probe_trace sample_kernel (hc_timeoutMs ?hc) sample_pool p' reach [0..<length (bp_backends sample_pool)] [] h'"
    "length (bp_backends p') = length (bp_backends sample_pool)" "open_fds h' = open_fds []"
    using checkOnce_round [OF sample_contracts(3) sample_poll_bounded, of ?hc sample_pool "[]"] by blast
  have "probe_trace sample_kernel 800 sample_pool p' reach [0, 1] [] h'" using r(2) unfolding len t by (simp add: upt_conv_Cons)
  then show ?thesis using r(1,3,4) len by (intro exI [of _ hc'] exI [of _ p'] exI [of _ h'] exI [of _ reach]) simp
qed

text \<open>C34. The notification of \<open>stop\<close> can be lost: since it does not take the mutex, the flag can be lowered and the
  notification sent between the predicate of the wait and the wait itself, and the thread then sleeps for the rest
  of the interval although \<open>stop\<close> has returned.\<close>

theorem stop_notification_can_be_lost:
  "\<exists>t. hc_step\<^sup>*\<^sup>* hc_thread_init t \<and> ht_stop t = StopDone \<and> \<not> ht_running t \<and> ht_pc t = Blocked"
proof -
  let ?t = "\<lambda>pc r st. \<lparr> ht_pc = pc, ht_running = r, ht_stop = st \<rparr>"
  have "hc_start hc_thread_init (?t Probing True StopIdle)"
    using hc_start.first [of hc_thread_init] by (simp add: hc_thread_init_def)
  moreover have "hc_run (?t Probing True StopIdle) (?t Testing True StopIdle)"
    using hc_run.probed [of "?t Probing True StopIdle"] by simp
  moreover have "hc_run (?t Testing True StopIdle) (?t Predicate True StopIdle)"
    using hc_run.continue [of "?t Testing True StopIdle"] by simp
  moreover have "hc_run (?t Predicate True StopIdle) (?t Committed True StopIdle)"
    using hc_run.pred_false [of "?t Predicate True StopIdle"] by simp
  moreover have "hc_stop (?t Committed True StopIdle) (?t Committed False StopStored)"
    using hc_stop.store [of "?t Committed True StopIdle"] by simp
  moreover have "hc_stop (?t Committed False StopStored) (?t Committed False StopDone)"
    using hc_stop.notify [of "?t Committed False StopStored"] by simp
  moreover have "hc_run (?t Committed False StopDone) (?t Blocked False StopDone)"
    using hc_run.block [of "?t Committed False StopDone"] by simp
  ultimately have "hc_step\<^sup>*\<^sup>* hc_thread_init (?t Blocked False StopDone)"
    by (meson converse_rtranclp_into_rtranclp hc_step_def rtranclp.rtrancl_refl)
  then show ?thesis by (intro exI [of _ "?t Blocked False StopDone"]) simp
qed

end
