(* ===== verification/ProxySession.thy ===== *)
theory ProxySession
  imports ByteBuffer HealthChecker
begin

text \<open>
  The proxy session (\<^verbatim>\<open>ProxySession.h/.cpp\<close>): the state machine that forwards bytes both ways between a client
  and a backend socket. A session and the world it acts on (history of system calls, metrics, pool) are passed
  explicitly. Each operation is shown to be a step of the preorder \<open>evolves\<close>, which says what may happen to
  the bytes, the counters and the descriptors.
\<close>

section \<open>State\<close>

datatype IoResult = Progress | WouldBlock | Closed | IoError

record ProxySession =
  px_id :: u64
  px_clientFd :: UniqueFd
  px_upstreamFd :: UniqueFd
  px_upstreamConnecting :: bool
  px_backend :: BackendLease
  px_clientToUpstream :: ByteBuffer
  px_upstreamToClient :: ByteBuffer
  px_clientReadClosed :: bool
  px_upstreamReadClosed :: bool
  px_clientWriteShutdown :: bool
  px_upstreamWriteShutdown :: bool
  px_closing :: bool
  px_clientAddress :: string
  px_createdAt :: int
  px_lastActivity :: int

text \<open>What a session shares with the rest of the process.\<close>

record world =
  wd_os :: os
  wd_metrics :: Metrics
  wd_pool :: BackendPool

abbreviation clientFd :: "ProxySession \<Rightarrow> fd" where
  "clientFd s \<equiv> UniqueFd_get (px_clientFd s)"

abbreviation upstreamFd :: "ProxySession \<Rightarrow> fd" where
  "upstreamFd s \<equiv> UniqueFd_get (px_upstreamFd s)"

text \<open>\<^verbatim>\<open>backend_->f()\<close>.\<close>

definition on_lease :: "BackendLease \<Rightarrow> (Backend \<Rightarrow> Backend) \<Rightarrow> world \<Rightarrow> world" where
  "on_lease l f w =
     (case bl_backend l of None \<Rightarrow> w | Some i \<Rightarrow> w\<lparr> wd_pool := on_backend i f (wd_pool w) \<rparr>)"

definition w_log :: "LogLevel \<Rightarrow> string \<Rightarrow> world \<Rightarrow> world" where
  "w_log lvl format w = w\<lparr> wd_os := fg_log lvl format (wd_os w) \<rparr>"

definition w_now :: "kernel \<Rightarrow> world \<Rightarrow> int \<times> world" where
  "w_now K w = (let (t, h) = sys_now K (wd_os w) in (t, w\<lparr> wd_os := h \<rparr>))"

section \<open>Construction and destruction\<close>

definition ProxySession_new ::
  "kernel \<Rightarrow> u64 \<Rightarrow> fd \<Rightarrow> fd \<Rightarrow> bool \<Rightarrow> BackendLease \<Rightarrow> size_t \<Rightarrow> string \<Rightarrow> world \<Rightarrow> ProxySession \<times> world" where
  "ProxySession_new K ident client upstream connecting backend bufferSize address w =
     (let (now, w) = w_now K w;
          s = \<lparr> px_id = ident, px_clientFd = UniqueFd_new client, px_upstreamFd = UniqueFd_new upstream,
                px_upstreamConnecting = connecting, px_backend = backend,
                px_clientToUpstream = ByteBuffer_new bufferSize, px_upstreamToClient = ByteBuffer_new bufferSize,
                px_clientReadClosed = False, px_upstreamReadClosed = False,
                px_clientWriteShutdown = False, px_upstreamWriteShutdown = False, px_closing = False,
                px_clientAddress = address, px_createdAt = now, px_lastActivity = now \<rparr>
      in (s, if \<not> connecting then on_lease backend recordConnectSuccess w else w))"

text \<open>The members are destroyed in the reverse order of their declaration.\<close>

definition ProxySession_destroy :: "ProxySession \<Rightarrow> world \<Rightarrow> world" where
  "ProxySession_destroy s w =
     w\<lparr> wd_pool := BackendLease_destroy (px_backend s) (wd_pool w),
        wd_os := UniqueFd_destroy (px_clientFd s) (UniqueFd_destroy (px_upstreamFd s) (wd_os w)) \<rparr>"

section \<open>The two directions\<close>

text \<open>
  A reference \<^verbatim>\<open>ByteBuffer&\<close> passed to \<^verbatim>\<open>readInto\<close> and \<^verbatim>\<open>writeFrom\<close> is one of the two members: the direction
  names it, together with the flag of the socket it is filled from.
\<close>

datatype direction = ClientToUpstream | UpstreamToClient

fun opposite :: "direction \<Rightarrow> direction" where
  "opposite ClientToUpstream = UpstreamToClient"
| "opposite UpstreamToClient = ClientToUpstream"

fun buffer :: "direction \<Rightarrow> ProxySession \<Rightarrow> ByteBuffer" where
  "buffer ClientToUpstream s = px_clientToUpstream s"
| "buffer UpstreamToClient s = px_upstreamToClient s"

fun set_buffer :: "direction \<Rightarrow> ByteBuffer \<Rightarrow> ProxySession \<Rightarrow> ProxySession" where
  "set_buffer ClientToUpstream b s = s\<lparr> px_clientToUpstream := b \<rparr>"
| "set_buffer UpstreamToClient b s = s\<lparr> px_upstreamToClient := b \<rparr>"

fun source_fd :: "direction \<Rightarrow> ProxySession \<Rightarrow> fd" where
  "source_fd ClientToUpstream s = clientFd s"
| "source_fd UpstreamToClient s = upstreamFd s"

abbreviation sink_fd :: "direction \<Rightarrow> ProxySession \<Rightarrow> fd" where
  "sink_fd d s \<equiv> source_fd (opposite d) s"

fun readClosed :: "direction \<Rightarrow> ProxySession \<Rightarrow> bool" where
  "readClosed ClientToUpstream s = px_clientReadClosed s"
| "readClosed UpstreamToClient s = px_upstreamReadClosed s"

fun set_readClosed :: "direction \<Rightarrow> ProxySession \<Rightarrow> ProxySession" where
  "set_readClosed ClientToUpstream s = s\<lparr> px_clientReadClosed := True \<rparr>"
| "set_readClosed UpstreamToClient s = s\<lparr> px_upstreamReadClosed := True \<rparr>"

fun add_bytes :: "direction \<Rightarrow> size_t \<Rightarrow> Metrics \<Rightarrow> Metrics" where
  "add_bytes ClientToUpstream n m = addClientToBackend n m"
| "add_bytes UpstreamToClient n m = addBackendToClient n m"

definition touch :: "kernel \<Rightarrow> ProxySession \<times> world \<Rightarrow> ProxySession \<times> world" where
  "touch K sw = (let (t, w) = w_now K (snd sw) in ((fst sw)\<lparr> px_lastActivity := t \<rparr>, w))"

section \<open>Reading and writing\<close>

text \<open>
  The loops run until the call would block, the buffer is full (or empty), end of stream, or an error. The
  body of each is a function of its own, on \<^verbatim>\<open>progressed\<close>, the session and the world. An environment that
  interrupts every call keeps a loop going: that is the value \<open>None\<close>.
\<close>

definition readOnce ::
  "kernel \<Rightarrow> fd \<Rightarrow> direction \<Rightarrow> bool \<times> ProxySession \<times> world
     \<Rightarrow> IoResult \<times> ProxySession \<times> world + bool \<times> ProxySession \<times> world" where
  "readOnce K fd d st =
     (case st of (progressed, s, w) \<Rightarrow>
      let s = set_buffer d (makeWritable (buffer d s)) s in
      if writableBytes (buffer d s) = 0 then Inl (if progressed then Progress else WouldBlock, s, w)
      else
        let (r, h) = sys_recv K fd (writableBytes (buffer d s)) (wd_os w); w = w\<lparr> wd_os := h \<rparr> in
        (case r of
           Ok bs \<Rightarrow>
             if bs \<noteq> [] then
               let bytes = of_nat (length bs);
                   s = set_buffer d (recv_into bs (buffer d s)) s;
                   w = w\<lparr> wd_metrics := add_bytes d bytes (wd_metrics w) \<rparr>
               in Inr (True, touch K (s, w))
             else Inl (Closed, s, w)
         | Err e \<Rightarrow>
             if e = EINTR then Inr (progressed, s, w)
             else if e = EAGAIN \<or> e = EWOULDBLOCK then Inl (if progressed then Progress else WouldBlock, s, w)
             else Inl (IoError, s, w)))"

definition readInto :: "kernel \<Rightarrow> fd \<Rightarrow> direction \<Rightarrow> ProxySession \<times> world \<Rightarrow> (IoResult \<times> ProxySession \<times> world) option" where
  "readInto K fd d sw = forever (readOnce K fd d) (False, sw)"

definition writeOnce ::
  "kernel \<Rightarrow> fd \<Rightarrow> direction \<Rightarrow> bool \<times> ProxySession \<times> world
     \<Rightarrow> IoResult \<times> ProxySession \<times> world + bool \<times> ProxySession \<times> world" where
  "writeOnce K fd d st =
     (case st of (progressed, s, w) \<Rightarrow>
      if bb_empty (buffer d s) then Inl (Progress, s, w)
      else
        let (r, h) = sys_send K fd (readData (buffer d s)) (wd_os w); w = w\<lparr> wd_os := h \<rparr> in
        (case r of
           Ok n \<Rightarrow>
             if n > 0 then Inr (True, touch K (set_buffer d (consume n (buffer d s)) s, w))
             else Inl (Closed, s, w)
         | Err e \<Rightarrow>
             if e = EINTR then Inr (progressed, s, w)
             else if e = EAGAIN \<or> e = EWOULDBLOCK then Inl (if progressed then Progress else WouldBlock, s, w)
             else Inl (IoError, s, w)))"

definition writeFrom :: "kernel \<Rightarrow> fd \<Rightarrow> direction \<Rightarrow> ProxySession \<times> world \<Rightarrow> (IoResult \<times> ProxySession \<times> world) option" where
  "writeFrom K fd d sw = forever (writeOnce K fd d) (False, sw)"

section \<open>Connection completion and half-close\<close>

definition finishUpstreamConnect :: "kernel \<Rightarrow> ProxySession \<times> world \<Rightarrow> bool \<times> ProxySession \<times> world" where
  "finishUpstreamConnect K sw =
     (let s = fst sw; w = snd sw;
          (r, h) = sys_so_error K (upstreamFd s) (wd_os w); w = w\<lparr> wd_os := h \<rparr> in
      if r \<noteq> Ok 0 then
        let w = on_lease (px_backend s) recordConnectFailure w;
            w = w\<lparr> wd_metrics := onConnectFailure (wd_metrics w) \<rparr>
        in (False, s, w_log Warn ''session=%llu failed to connect backend=%s error=%s'' w)
      else
        let s = s\<lparr> px_upstreamConnecting := False \<rparr>;
            w = on_lease (px_backend s) recordConnectSuccess w;
            (s, w) = touch K (s, w)
        in (True, s, w_log Debug ''session=%llu connected backend=%s'' w))"

definition updateHalfClose :: "ProxySession \<times> world \<Rightarrow> ProxySession \<times> world" where
  "updateHalfClose sw =
     (let s = fst sw; w = snd sw;
          (s, w) = (if px_clientReadClosed s \<and> bb_empty (px_clientToUpstream s) \<and> \<not> px_upstreamWriteShutdown s
                       \<and> \<not> px_upstreamConnecting s
                    then (s\<lparr> px_upstreamWriteShutdown := True \<rparr>,
                          w\<lparr> wd_os := sys_shutdown_wr (upstreamFd s) (wd_os w) \<rparr>)
                    else (s, w))
      in if px_upstreamReadClosed s \<and> bb_empty (px_upstreamToClient s) \<and> \<not> px_clientWriteShutdown s
         then (s\<lparr> px_clientWriteShutdown := True \<rparr>,
               w\<lparr> wd_os := sys_shutdown_wr (clientFd s) (wd_os w) \<rparr>)
         else (s, w))"

definition completed :: "ProxySession \<Rightarrow> bool" where
  "completed s = (px_upstreamReadClosed s \<and> bb_empty (px_upstreamToClient s))"

definition markClosing :: "ProxySession \<Rightarrow> ProxySession" where
  "markClosing s = s\<lparr> px_closing := True \<rparr>"

section \<open>Events\<close>

text \<open>\<^verbatim>\<open>(events & bits) != 0U\<close>.\<close>

definition any_of :: "u32 \<Rightarrow> u32 \<Rightarrow> bool" where
  "any_of events bits \<longleftrightarrow> events AND bits \<noteq> 0"

text \<open>The branch for an error event: the pending error decides how loudly it is reported.\<close>

definition reportError :: "kernel \<Rightarrow> fd \<Rightarrow> world \<Rightarrow> world" where
  "reportError K fd w =
     (let (r, h) = sys_so_error K fd (wd_os w); w = w\<lparr> wd_os := h \<rparr>;
          err = (case r of Ok e \<Rightarrow> e | Err _ \<Rightarrow> 0) in
      if err = ECONNRESET \<or> err = EPIPE
      then w_log Debug ''session=%llu socket=%d peer closed connection: %s'' w
      else w_log Warn ''session=%llu socket=%d error=%s'' w)"

text \<open>
  The branch for one socket: read the direction it feeds, then write the direction it drains. The branches for
  the client and for the backend are the same code on exchanged members; \<open>d\<close> is the direction read from.
\<close>

definition serveRead ::
  "kernel \<Rightarrow> direction \<Rightarrow> u32 \<Rightarrow> ProxySession \<times> world \<Rightarrow> (bool \<times> ProxySession \<times> world) option" where
  "serveRead K d events sw =
     (let peerHangup = any_of events (EPOLLRDHUP OR EPOLLHUP); fd = source_fd d (fst sw) in
      if \<not> readClosed d (fst sw) \<and> any_of events (EPOLLIN OR EPOLLRDHUP OR EPOLLHUP)
      then do {
        (result, s, w) \<leftarrow> readInto K fd d sw;
        if result = IoError then Some (False, markClosing s, w)
        else if result = Closed \<or> (peerHangup \<and> result = WouldBlock) then Some (True, set_readClosed d s, w)
        else Some (True, s, w) }
      else Some (True, sw))"

definition serveWrite ::
  "kernel \<Rightarrow> direction \<Rightarrow> u32 \<Rightarrow> ProxySession \<times> world \<Rightarrow> (bool \<times> ProxySession \<times> world) option" where
  "serveWrite K d events sw =
     (let fd = source_fd d (fst sw) in
      if any_of events EPOLLOUT \<and> \<not> bb_empty (buffer (opposite d) (fst sw))
      then do {
        (result, s, w) \<leftarrow> writeFrom K fd (opposite d) sw;
        if result = IoError \<or> result = Closed then Some (False, markClosing s, w) else Some (True, s, w) }
      else Some (True, sw))"

definition serveSocket ::
  "kernel \<Rightarrow> direction \<Rightarrow> u32 \<Rightarrow> ProxySession \<times> world \<Rightarrow> (bool \<times> ProxySession \<times> world) option" where
  "serveSocket K d events sw =
     do { (ok, sw) \<leftarrow> serveRead K d events sw;
          if \<not> ok then Some (False, sw) else serveWrite K d events sw }"

definition handleEvent ::
  "kernel \<Rightarrow> fd \<Rightarrow> u32 \<Rightarrow> ProxySession \<times> world \<Rightarrow> (bool \<times> ProxySession \<times> world) option" where
  "handleEvent K fd events sw =
     (let s = fst sw; w = snd sw; finishing = (fd = upstreamFd s \<and> px_upstreamConnecting s) in
      if px_closing s then Some (False, s, w)
      else if finishing \<and> \<not> any_of events (EPOLLOUT OR EPOLLERR OR EPOLLHUP) then Some (True, s, w)
      else
        let (connected, s, w) = (if finishing then finishUpstreamConnect K (s, w) else (True, s, w)) in
        if \<not> connected then Some (False, markClosing s, w)
        else if any_of events EPOLLERR then Some (False, markClosing s, reportError K fd w)
        else do {
          (ok, s, w) \<leftarrow>
            (if fd = clientFd s then serveSocket K ClientToUpstream events (s, w)
             else if fd = upstreamFd s then serveSocket K UpstreamToClient events (s, w)
             else Some (False, markClosing s, w));
          if \<not> ok then Some (False, s, w)
          else
            let (s, w) = updateHalfClose (s, w) in
            if completed s then Some (False, markClosing s, w) else Some (True, s, w) })"

definition clientEvents :: "ProxySession \<Rightarrow> u32" where
  "clientEvents s =
     (let events = EPOLLRDHUP;
          events = (if \<not> px_clientReadClosed s \<and> writableBytes (px_clientToUpstream s) > 0
                    then events OR EPOLLIN else events)
      in if \<not> bb_empty (px_upstreamToClient s) then events OR EPOLLOUT else events)"

definition upstreamEvents :: "ProxySession \<Rightarrow> u32" where
  "upstreamEvents s =
     (let events = EPOLLRDHUP in
      if px_upstreamConnecting s then events OR EPOLLOUT
      else
        let events = (if \<not> px_upstreamReadClosed s \<and> writableBytes (px_upstreamToClient s) > 0
                      then events OR EPOLLIN else events)
        in if \<not> bb_empty (px_clientToUpstream s) then events OR EPOLLOUT else events)"

text \<open>Clock values are in nanoseconds.\<close>

definition idleFor :: "kernel \<Rightarrow> int \<Rightarrow> ProxySession \<Rightarrow> world \<Rightarrow> bool \<times> world" where
  "idleFor K seconds s w =
     (let (now, w) = w_now K w in (now - px_lastActivity s \<ge> seconds * 1000000000, w))"

definition connectTimedOut :: "kernel \<Rightarrow> int \<Rightarrow> ProxySession \<Rightarrow> world \<Rightarrow> bool \<times> world" where
  "connectTimedOut K milliseconds s w =
     (if px_upstreamConnecting s
      then let (now, w) = w_now K w in (now - px_createdAt s \<ge> milliseconds * 1000000, w)
      else (False, w))"

section \<open>Invariant\<close>

text \<open>The flag that records the half-close of the socket a direction drains into.\<close>

fun writeShutdown :: "direction \<Rightarrow> ProxySession \<Rightarrow> bool" where
  "writeShutdown ClientToUpstream s = px_upstreamWriteShutdown s"
| "writeShutdown UpstreamToClient s = px_clientWriteShutdown s"

definition px_inv :: "ProxySession \<Rightarrow> bool" where
  "px_inv s \<longleftrightarrow> clientFd s \<noteq> upstreamFd s \<and>
     (\<forall>d. bb_inv (buffer d s) \<and> (writeShutdown d s \<longrightarrow> readClosed d s \<and> readData (buffer d s) = []))"

lemma all_directions: "(\<forall>d. P d) \<longleftrightarrow> P d \<and> P (opposite d)"
proof -
  have "e = d \<or> e = opposite d" for e by (cases e; cases d) auto
  then show ?thesis by metis
qed

lemma opposite_simps [simp]: "opposite (opposite d) = d" "opposite d \<noteq> d" "d \<noteq> opposite d"
  by (cases d; simp)+

lemma set_buffer_simps [simp]:
  "buffer d (set_buffer e b s) = (if e = d then b else buffer d s)"
  "source_fd d (set_buffer e b s) = source_fd d s"
  "readClosed d (set_buffer e b s) = readClosed d s"
  "writeShutdown d (set_buffer e b s) = writeShutdown d s"
  by (cases d; cases e; simp)+

lemma set_readClosed_simps [simp]:
  "buffer d (set_readClosed e s) = buffer d s"
  "source_fd d (set_readClosed e s) = source_fd d s"
  "readClosed d (set_readClosed e s) \<longleftrightarrow> d = e \<or> readClosed d s"
  "writeShutdown d (set_readClosed e s) = writeShutdown d s"
  by (cases d; cases e; simp)+

lemma direction_update_simps [simp]:
  "buffer d (px_lastActivity_update g s) = buffer d s"
  "source_fd d (px_lastActivity_update g s) = source_fd d s"
  "readClosed d (px_lastActivity_update g s) = readClosed d s"
  "writeShutdown d (px_lastActivity_update g s) = writeShutdown d s"
  "buffer d (px_closing_update h s) = buffer d s"
  "source_fd d (px_closing_update h s) = source_fd d s"
  "readClosed d (px_closing_update h s) = readClosed d s"
  "writeShutdown d (px_closing_update h s) = writeShutdown d s"
  "buffer d (px_upstreamConnecting_update h s) = buffer d s"
  "source_fd d (px_upstreamConnecting_update h s) = source_fd d s"
  "readClosed d (px_upstreamConnecting_update h s) = readClosed d s"
  "writeShutdown d (px_upstreamConnecting_update h s) = writeShutdown d s"
  by (cases d; simp)+

lemma px_inv_fds: "px_inv s \<Longrightarrow> source_fd d s \<noteq> source_fd (opposite d) s"
  by (cases d) (auto simp: px_inv_def)

section \<open>What a step may do\<close>

text \<open>Identity, descriptors, lease and buffer capacities are fixed for the life of a session.\<close>

definition same_session :: "ProxySession \<Rightarrow> ProxySession \<Rightarrow> bool" where
  "same_session s s' \<longleftrightarrow> px_id s' = px_id s \<and> px_clientFd s' = px_clientFd s \<and> px_upstreamFd s' = px_upstreamFd s \<and>
     px_backend s' = px_backend s \<and> px_clientAddress s' = px_clientAddress s \<and> px_createdAt s' = px_createdAt s \<and>
     (\<forall>d. length (bb_storage (buffer d s')) = length (bb_storage (buffer d s)))"

text \<open>
  \<open>forwards\<close>: what was buffered and what the calls \<open>tr\<close> received is what they sent and what is buffered now,
  in order, in each direction; no other descriptor carries data; each sink is shut down at most once, when its
  flag goes up; and a direction whose end of stream was recorded receives nothing more.
\<close>

definition forwards :: "ProxySession \<Rightarrow> os \<Rightarrow> ProxySession \<Rightarrow> bool" where
  "forwards s tr s' \<longleftrightarrow>
     (\<forall>d. readData (buffer d s) @ received (source_fd d s) tr = sent (sink_fd d s) tr @ readData (buffer d s') \<and>
        count_list tr (ShutdownWr (sink_fd d s)) + of_bool (writeShutdown d s) = (of_bool (writeShutdown d s') :: nat) \<and>
        (readClosed d s \<longrightarrow> readClosed d s' \<and> received (source_fd d s) tr = [])) \<and>
     (\<forall>f. f \<noteq> clientFd s \<longrightarrow> f \<noteq> upstreamFd s \<longrightarrow>
        received f tr = [] \<and> sent f tr = [] \<and> count_list tr (ShutdownWr f) = 0)"

fun byte_count :: "direction \<Rightarrow> Metrics \<Rightarrow> u64" where
  "byte_count ClientToUpstream m = mt_clientToBackendBytes m"
| "byte_count UpstreamToClient m = mt_backendToClientBytes m"

definition backend_core :: "Backend \<Rightarrow> BackendConfig \<times> ResolvedEndpoint \<times> bool \<times> size_t" where
  "backend_core b = (be_config b, be_endpoint b, be_healthy b, be_activeConnections b)"

text \<open>The shared counters move by the bytes received; sessions, admission counters and leases are not touched.\<close>

definition shared_kept :: "ProxySession \<Rightarrow> world \<Rightarrow> os \<Rightarrow> world \<Rightarrow> bool" where
  "shared_kept s w tr w' \<longleftrightarrow>
     (\<forall>d. byte_count d (wd_metrics w') = byte_count d (wd_metrics w) + of_nat (length (received (source_fd d s) tr))) \<and>
     mt_active (wd_metrics w') = mt_active (wd_metrics w) \<and> mt_accepted (wd_metrics w') = mt_accepted (wd_metrics w) \<and>
     mt_rejected (wd_metrics w') = mt_rejected (wd_metrics w) \<and>
     map backend_core (bp_backends (wd_pool w')) = map backend_core (bp_backends (wd_pool w)) \<and>
     bp_tieBreaker (wd_pool w') = bp_tieBreaker (wd_pool w)"

text \<open>A stretch of history that opens and closes no descriptor.\<close>

definition quiet :: "os \<Rightarrow> bool" where
  "quiet tr \<longleftrightarrow> (\<forall>A. fold fd_step tr A = A \<and> closes_ok_from A tr)"

lemma quiet_simps [simp]: "quiet []" "quiet tr \<Longrightarrow> quiet tr' \<Longrightarrow> quiet (tr @ tr')"
  by (auto simp: quiet_def closes_ok_from_append)

text \<open>The calls a session makes.\<close>

fun session_event :: "sysevent \<Rightarrow> bool" where
  "session_event (Recv _ _ _) = True"
| "session_event (Send _ _ _) = True"
| "session_event (GetSoError _ _) = True"
| "session_event (ShutdownWr _) = True"
| "session_event (SteadyNow _) = True"
| "session_event (Log _ _) = True"
| "session_event _ = False"

definition evolves :: "ProxySession \<times> world \<Rightarrow> os \<Rightarrow> ProxySession \<times> world \<Rightarrow> bool" where
  "evolves sw tr sw' \<longleftrightarrow>
     wd_os (snd sw') = wd_os (snd sw) @ tr \<and> quiet tr \<and> list_all session_event tr \<and> same_session (fst sw) (fst sw') \<and>
     px_inv (fst sw') \<and> forwards (fst sw) tr (fst sw') \<and> shared_kept (fst sw) (snd sw) tr (snd sw')"

lemma same_session_fd: "same_session s s' \<Longrightarrow> source_fd d s' = source_fd d s"
  by (cases d) (auto simp: same_session_def)

lemma forwards_refl: "forwards s [] s"
  by (simp add: forwards_def)

lemma forwards_trans:
  assumes "forwards s tr s'" "forwards s' tr' s''" "same_session s s'"
  shows "forwards s (tr @ tr') s''"
proof -
  have fds: "source_fd d s' = source_fd d s" for d by (rule same_session_fd [OF assms(3)])
  have cu: "clientFd s' = clientFd s" "upstreamFd s' = upstreamFd s" using assms(3) by (simp_all add: same_session_def)
  have "readData (buffer d s) @ received (source_fd d s) (tr @ tr') =
      sent (sink_fd d s) (tr @ tr') @ readData (buffer d s'')" for d
  proof -
    have "readData (buffer d s) @ received (source_fd d s) tr = sent (sink_fd d s) tr @ readData (buffer d s')"
      "readData (buffer d s') @ received (source_fd d s) tr' = sent (sink_fd d s) tr' @ readData (buffer d s'')"
      using assms(1,2) by (simp_all add: forwards_def fds)
    then show ?thesis by (metis append.assoc received_simps(2) sent_simps(2))
  qed
  moreover have "count_list (tr @ tr') (ShutdownWr (sink_fd d s)) + of_bool (writeShutdown d s) =
      (of_bool (writeShutdown d s'') :: nat)" for d
  proof -
    have "count_list tr (ShutdownWr (sink_fd d s)) + of_bool (writeShutdown d s) = (of_bool (writeShutdown d s') :: nat)"
      "count_list tr' (ShutdownWr (sink_fd d s)) + of_bool (writeShutdown d s') = (of_bool (writeShutdown d s'') :: nat)"
      using assms(1,2) by (simp_all add: forwards_def fds)
    then show ?thesis by simp
  qed
  ultimately show ?thesis
    using assms(1,2) by (simp add: forwards_def fds cu)
qed

lemma evolves_refl: "px_inv s \<Longrightarrow> evolves (s, w) [] (s, w)"
  by (simp add: evolves_def same_session_def forwards_refl shared_kept_def)

lemma evolves_trans:
  assumes "evolves a tr b" "evolves b tr' c"
  shows "evolves a (tr @ tr') c"
proof -
  have ss: "same_session (fst a) (fst b)" "same_session (fst b) (fst c)" using assms by (simp_all add: evolves_def)
  have "shared_kept (fst a) (snd a) (tr @ tr') (snd c)"
    using assms same_session_fd [OF ss(1)] by (simp add: evolves_def shared_kept_def)
  moreover have "forwards (fst a) (tr @ tr') (fst c)"
    using assms ss(1) by (intro forwards_trans [of "fst a" tr "fst b"]) (simp_all add: evolves_def)
  moreover have "same_session (fst a) (fst c)" using ss by (simp add: same_session_def)
  ultimately show ?thesis using assms by (simp add: evolves_def)
qed

text \<open>Calls that carry no data: the clock, the pending error, the log.\<close>

fun silent_event :: "sysevent \<Rightarrow> bool" where
  "silent_event (GetSoError _ _) = True"
| "silent_event (SteadyNow _) = True"
| "silent_event (Log _ _) = True"
| "silent_event _ = False"

lemma silent_event_simps:
  assumes "silent_event e"
  shows "recv_bytes f e = []" "sent_bytes f e = []" "e \<noteq> ShutdownWr f" "fd_step e A = A"
    "closes_ok_from A (e # h) = closes_ok_from A h" "session_event e"
  using assms by (cases e; simp)+

lemma silent_trace:
  assumes "list_all silent_event tr"
  shows "quiet tr" "received f tr = []" "sent f tr = []" "count_list tr (ShutdownWr f) = 0" "list_all session_event tr"
  using assms by (induction tr) (auto simp: quiet_def silent_event_simps split: sysevent.split)

lemma evolves_silent:
  assumes "px_inv s'" "list_all silent_event tr" "wd_os w' = wd_os w @ tr" "same_session s s'"
    "\<forall>d. buffer d s' = buffer d s \<and> writeShutdown d s' = writeShutdown d s \<and> (readClosed d s \<longrightarrow> readClosed d s')"
    "shared_kept s w [] w'"
  shows "evolves (s, w) tr (s', w')"
  using assms silent_trace [OF assms(2)] by (simp add: evolves_def forwards_def shared_kept_def)

section \<open>The read and write loops\<close>

lemma evolves_touch:
  assumes "px_inv s" "touch K (s, w) = (s', w')"
  shows "evolves (s, w) [SteadyNow (k_now K (wd_os w))] (s', w')"
proof -
  have eq: "s' = s\<lparr> px_lastActivity := k_now K (wd_os w) \<rparr>" "w' = w\<lparr> wd_os := wd_os w @ [SteadyNow (k_now K (wd_os w))] \<rparr>"
    using assms(2) by (simp_all add: touch_def w_now_def sys_now_def)
  show ?thesis unfolding eq
    using assms(1) by (intro evolves_silent) (simp_all add: same_session_def shared_kept_def px_inv_def)
qed

lemma evolves_makeWritable:
  assumes "px_inv s"
  shows "evolves (s, w) [] (set_buffer d (makeWritable (buffer d s)) s, w)"
  using assms
  by (cases d) (auto simp: evolves_def same_session_def forwards_def shared_kept_def px_inv_def makeWritable_facts
      all_directions [where d = d])

lemma evolves_recv:
  assumes "px_inv s" "\<not> readClosed d s" "length bs \<le> unat (writableBytes (buffer d s))"
  shows "evolves (s, w) [Recv (source_fd d s) n (Ok bs)]
    (set_buffer d (recv_into bs (buffer d s)) s,
     w\<lparr> wd_os := wd_os w @ [Recv (source_fd d s) n (Ok bs)],
        wd_metrics := add_bytes d (of_nat (length bs)) (wd_metrics w) \<rparr>)"
proof -
  have b: "bb_inv (buffer d s)" using assms(1) by (simp add: px_inv_def)
  note put = recv_into_inv [OF b assms(3)] recv_into_readData [OF b assms(3)] unat_writeIndex_recv_into(2) [OF b assms(3)]
  show ?thesis
    using assms(1,2) put
    by (cases d) (auto simp: evolves_def same_session_def forwards_def shared_kept_def px_inv_def quiet_def
        metrics_defs all_directions [where d = d])
qed

lemma evolves_recv_nothing:
  assumes "px_inv s" "\<forall>bs. r = Ok bs \<longrightarrow> bs = []"
  shows "evolves (s, w) [Recv fd n r] (s, w\<lparr> wd_os := wd_os w @ [Recv fd n r] \<rparr>)"
proof -
  have "recv_bytes f (Recv fd n r) = []" for f using assms(2) by (cases r) auto
  then show ?thesis using assms(1)
    by (auto simp: evolves_def same_session_def forwards_def shared_kept_def quiet_def)
qed

lemma evolves_send:
  assumes "px_inv s" "unat n \<le> length (readData (buffer d s))"
  shows "evolves (s, w) [Send (sink_fd d s) (readData (buffer d s)) (Ok n)]
    (set_buffer d (consume n (buffer d s)) s,
     w\<lparr> wd_os := wd_os w @ [Send (sink_fd d s) (readData (buffer d s)) (Ok n)] \<rparr>)"
proof -
  have b: "bb_inv (buffer d s)" using assms(1) by (simp add: px_inv_def)
  have "unat n \<le> unat (readableBytes (buffer d s))" using assms(2) b by (simp add: length_readData)
  note out = consume_facts [OF b this, simplified]
  show ?thesis
    using assms(1) out
    by (cases d) (auto simp: evolves_def same_session_def forwards_def shared_kept_def px_inv_def quiet_def
        all_directions [where d = d])
qed

lemma evolves_send_nothing:
  assumes "px_inv s" "\<forall>n. r = Ok n \<longrightarrow> n = 0"
  shows "evolves (s, w) [Send fd bs r] (s, w\<lparr> wd_os := wd_os w @ [Send fd bs r] \<rparr>)"
proof -
  have "sent_bytes f (Send fd bs r) = []" for f using assms(2) by (cases r) auto
  then show ?thesis using assms(1)
    by (auto simp: evolves_def same_session_def forwards_def shared_kept_def quiet_def)
qed

text \<open>The state after the leading \<^verbatim>\<open>makeWritable\<close>, and the history after one call.\<close>

abbreviation writable_session :: "direction \<Rightarrow> ProxySession \<Rightarrow> ProxySession" where
  "writable_session d s \<equiv> set_buffer d (makeWritable (buffer d s)) s"

lemma px_inv_touch: "px_inv s \<Longrightarrow> px_inv (fst (touch K (s, w)))"
  using evolves_touch [of s K w "fst (touch K (s, w))" "snd (touch K (s, w))"] by (simp add: evolves_def)

lemma touch_frame [simp]:
  "source_fd d (fst (touch K sw)) = source_fd d (fst sw)"
  "readClosed d (fst (touch K sw)) = readClosed d (fst sw)"
  "buffer d (fst (touch K sw)) = buffer d (fst sw)"
  by (simp_all add: touch_def w_now_def sys_now_def Let_def)

text \<open>
  What \<^verbatim>\<open>readInto\<close> leaves behind. \<open>Closed\<close> means the peer's end of stream was seen; when the loop stops without
  it and without an error, the buffer is full or the socket had nothing more.
\<close>

definition read_outcome :: "direction \<Rightarrow> ProxySession \<Rightarrow> IoResult \<Rightarrow> os \<Rightarrow> ProxySession \<Rightarrow> bool" where
  "read_outcome d s r tr s' \<longleftrightarrow>
     (r = Closed \<longrightarrow> saw_eof (source_fd d s) tr) \<and>
     (r = Progress \<or> r = WouldBlock \<longrightarrow>
        length (readData (buffer d s')) = length (bb_storage (buffer d s)) \<or>
        (\<exists>n tr0. tr = tr0 @ [Recv (source_fd d s) n (Err EAGAIN)]))"

lemma read_outcome_prepend:
  "read_outcome d s1 r tr s' \<Longrightarrow> same_session s s1 \<Longrightarrow> read_outcome d s r (tr0 @ tr) s'"
  using same_session_fd [of s s1 d] by (fastforce simp: read_outcome_def same_session_def)

definition read_step :: "direction \<Rightarrow> ProxySession \<times> world \<Rightarrow> IoResult \<times> ProxySession \<times> world \<Rightarrow> bool" where
  "read_step d sw x \<longleftrightarrow> (\<exists>tr. evolves sw tr (snd x) \<and> read_outcome d (fst sw) (fst x) tr (fst (snd x)))"

lemma read_step_prepend:
  assumes "evolves a tr b" "read_step d b x"
  shows "read_step d a x"
proof -
  have "same_session (fst a) (fst b)" using assms(1) by (simp add: evolves_def)
  then show ?thesis
    using assms unfolding read_step_def by (blast intro: evolves_trans read_outcome_prepend)
qed

text \<open>One iteration of the read loop: full buffer; a call that brings no bytes; a call that brings some.\<close>

lemma read_full:
  assumes "px_inv s" "writableBytes (buffer d (writable_session d s)) = 0" "r \<noteq> Closed"
  shows "read_step d (s, w) (r, writable_session d s, w)"
proof -
  have "bb_inv (buffer d s)" using assms(1) by (simp add: px_inv_def)
  then have "length (readData (buffer d (writable_session d s))) = length (bb_storage (buffer d s))"
    using assms(2) bbq.compact_full [of "buffer d s"] by (simp add: makeWritable_facts)
  then show ?thesis using assms(3) evolves_makeWritable [OF assms(1)]
    by (auto simp: read_step_def read_outcome_def)
qed

lemma read_nothing:
  assumes "px_inv s" "\<forall>bs. ans = Ok bs \<longrightarrow> bs = []"
  shows "evolves (s, w) [Recv fd n ans] (writable_session d s, w\<lparr> wd_os := wd_os w @ [Recv fd n ans] \<rparr>)"
proof -
  note mw = evolves_makeWritable [OF assms(1), of w d]
  then have "px_inv (writable_session d s)" by (simp add: evolves_def)
  from evolves_trans [OF mw evolves_recv_nothing [OF this assms(2)]] show ?thesis by simp
qed

lemma read_some:
  assumes "px_inv s" "\<not> readClosed d s" "length bs \<le> unat (writableBytes (buffer d (writable_session d s)))"
    "fd = source_fd d s"
  shows "\<exists>tr. evolves (s, w) tr
    (touch K (set_buffer d (recv_into bs (buffer d (writable_session d s))) (writable_session d s),
      w\<lparr> wd_os := wd_os w @ [Recv fd n (Ok bs)], wd_metrics := add_bytes d (of_nat (length bs)) (wd_metrics w) \<rparr>))"
proof -
  let ?s = "writable_session d s"
  note mw = evolves_makeWritable [OF assms(1), of w d]
  then have i: "px_inv ?s" "\<not> readClosed d ?s" "source_fd d ?s = fd" using assms(2,4) by (simp_all add: evolves_def)
  note e1 = evolves_recv [OF i(1,2) assms(3), of w n, unfolded i(3)]
  then have "px_inv (set_buffer d (recv_into bs (buffer d ?s)) ?s)" by (simp add: evolves_def)
  from evolves_trans [OF evolves_trans [OF mw e1] evolves_touch [OF this prod.collapse [symmetric]]]
  show ?thesis by (auto simp del: set_buffer_simps)
qed

lemma evolves_frame:
  "evolves (s, w) tr sw \<Longrightarrow> px_inv (fst sw) \<and> source_fd d (fst sw) = source_fd d s"
  by (auto simp: evolves_def dest: same_session_fd)

lemma readOnce_step:
  assumes "recv_bounded K" "px_inv s" "\<not> readClosed d s" "fd = source_fd d s"
  shows "case readOnce K fd d (pr, s, w) of Inl x \<Rightarrow> read_step d (s, w) x | Inr (pr', sw') \<Rightarrow> \<exists>tr. evolves (s, w) tr sw'"
proof -
  define n ans where defs: "n = writableBytes (buffer d (writable_session d s))" "ans = k_recv K (wd_os w) fd n"
  consider "n = 0" | e where "n \<noteq> 0" "ans = Err e" | "n \<noteq> 0" "ans = Ok []" | bs where "n \<noteq> 0" "ans = Ok bs" "bs \<noteq> []"
    by (cases ans) auto
  then show ?thesis
  proof cases
    case 1
    then show ?thesis using read_full [OF assms(2)] by (simp add: readOnce_def defs)
  next
    case (2 e)
    then have "readOnce K fd d (pr, s, w) = (let w = w\<lparr> wd_os := wd_os w @ [Recv fd n (Err e)] \<rparr> in
        if e = EINTR then Inr (pr, writable_session d s, w)
        else if e = EAGAIN then Inl (if pr then Progress else WouldBlock, writable_session d s, w)
        else Inl (IoError, writable_session d s, w))"
      by (simp add: readOnce_def sys_recv_def defs Let_def)
    moreover have "evolves (s, w) [Recv fd n (Err e)] (writable_session d s, w\<lparr> wd_os := wd_os w @ [Recv fd n (Err e)] \<rparr>)"
      using assms(2) by (rule read_nothing) simp
    ultimately show ?thesis using assms(4)
      by (auto simp: read_step_def read_outcome_def Let_def simp del: set_buffer_simps intro!: exI [of _ "[Recv fd n (Err e)]"])
  next
    case 3
    then have "readOnce K fd d (pr, s, w) = Inl (Closed, writable_session d s, w\<lparr> wd_os := wd_os w @ [Recv fd n (Ok [])] \<rparr>)"
      by (simp add: readOnce_def sys_recv_def defs)
    moreover have "evolves (s, w) [Recv fd n (Ok [])] (writable_session d s, w\<lparr> wd_os := wd_os w @ [Recv fd n (Ok [])] \<rparr>)"
      using assms(2) by (rule read_nothing) simp
    ultimately show ?thesis using assms(4)
      by (auto simp: read_step_def read_outcome_def simp del: set_buffer_simps intro!: exI [of _ "[Recv fd n (Ok [])]"])
  next
    case (4 bs)
    have "length bs \<le> unat n" using assms(1) 4 by (auto simp: recv_bounded_def defs)
    then show ?thesis using 4 read_some [OF assms(2,3) _ assms(4), of bs w K n]
      by (simp add: readOnce_def sys_recv_def defs [symmetric] Let_def del: set_buffer_simps)
  qed
qed

lemma readOnce_frame:
  "readOnce K fd d (pr, s, w) = Inr (pr', s', w') \<Longrightarrow> readClosed e s' = readClosed e s"
  by (auto simp: readOnce_def sys_recv_def Let_def touch_def w_now_def sys_now_def
      split: if_splits sysret.splits)

theorem readInto_step:
  assumes "recv_bounded K" "readInto K fd d sw = Some x" "fd = source_fd d (fst sw)"
    "px_inv (fst sw)" "\<not> readClosed d (fst sw)"
  shows "read_step d sw x"
proof -
  let ?I = "\<lambda>st. fd = source_fd d (fst (snd st)) \<and> px_inv (fst (snd st)) \<and> \<not> readClosed d (fst (snd st))"
  let ?R = "\<lambda>st x. read_step d (snd st) x"
  have "?R (False, sw) x"
  proof (rule forever_rule [of "readOnce K fd d" _ _ ?I ?R])
    show "forever (readOnce K fd d) (False, sw) = Some x" "?I (False, sw)" using assms by (simp_all add: readInto_def)
  next
    fix st x assume "?I st" "readOnce K fd d st = Inl x"
    then show "?R st x" using readOnce_step [OF assms(1), where s = "fst (snd st)" and d = d and fd = fd and pr = "fst st" and w = "snd (snd st)"] by simp
  next
    fix st st' assume I: "?I st" and b: "readOnce K fd d st = Inr st'"
    from readOnce_step [OF assms(1), where s = "fst (snd st)" and d = d and fd = fd and pr = "fst st" and w = "snd (snd st)"] I b
    obtain tr where ev: "evolves (snd st) tr (snd st')" by (auto split: prod.splits)
    show "?I st'" using I evolves_frame [of "fst (snd st)" "snd (snd st)" tr "snd st'" d] ev
        readOnce_frame [of K fd d "fst st" "fst (snd st)" "snd (snd st)" "fst st'" "fst (snd st')" "snd (snd st')" d] b
      by simp
    show "?R st x" if "?R st' x" for x using that ev by (rule read_step_prepend [rotated])
  qed
  then show ?thesis by simp
qed

lemma writeOnce_step:
  assumes "send_bounded K" "px_inv s" "fd = sink_fd d s"
  shows "case writeOnce K fd d (pr, s, w) of Inl x \<Rightarrow> \<exists>tr. evolves (s, w) tr (snd x) | Inr (pr', sw') \<Rightarrow> \<exists>tr. evolves (s, w) tr sw'"
proof -
  define bs ans where defs: "bs = readData (buffer d s)" "ans = k_send K (wd_os w) fd bs"
  let ?w = "w\<lparr> wd_os := wd_os w @ [Send fd bs ans] \<rparr>"
  have body: "writeOnce K fd d (pr, s, w) =
     (if bb_empty (buffer d s) then Inl (Progress, s, w)
      else case ans of
           Ok n \<Rightarrow> if n > 0 then Inr (True, touch K (set_buffer d (consume n (buffer d s)) s, ?w)) else Inl (Closed, s, ?w)
         | Err e \<Rightarrow> if e = EINTR then Inr (pr, s, ?w)
             else if e = EAGAIN \<or> e = EWOULDBLOCK then Inl (if pr then Progress else WouldBlock, s, ?w)
             else Inl (IoError, s, ?w))"
    unfolding writeOnce_def sys_send_def defs Let_def prod.case by (rule refl)
  show ?thesis
  proof (cases "bb_empty (buffer d s) \<or> (\<forall>n. ans = Ok n \<longrightarrow> n = 0)")
    case True
    then show ?thesis using body evolves_refl [OF assms(2), of w] evolves_send_nothing [OF assms(2), of ans w fd bs]
      by (auto split: sysret.splits)
  next
    case False
    then obtain n where n: "\<not> bb_empty (buffer d s)" "ans = Ok n" "n \<noteq> 0" by blast
    have "unat n \<le> length (readData (buffer d s))" using assms(1) n by (auto simp: send_bounded_def defs)
    note e1 = evolves_send [OF assms(2) this, of w]
    then have "px_inv (set_buffer d (consume n (buffer d s)) s)" by (simp add: evolves_def)
    from evolves_trans [OF e1 evolves_touch [OF this prod.collapse [symmetric]]]
    show ?thesis using n body assms(3) by (auto simp: defs word_gt_0 simp del: set_buffer_simps)
  qed
qed

theorem writeFrom_step:
  assumes "send_bounded K" "writeFrom K fd d sw = Some x" "fd = sink_fd d (fst sw)" "px_inv (fst sw)"
  shows "\<exists>tr. evolves sw tr (snd x)"
proof -
  let ?I = "\<lambda>st. fd = sink_fd d (fst (snd st)) \<and> px_inv (fst (snd st))"
  let ?R = "\<lambda>st x. \<exists>tr. evolves (snd st) tr (snd x)"
  have "?R (False, sw) x"
  proof (rule forever_rule [of "writeOnce K fd d" _ _ ?I ?R])
    show "forever (writeOnce K fd d) (False, sw) = Some x" "?I (False, sw)" using assms by (simp_all add: writeFrom_def)
  next
    fix st x assume "?I st" "writeOnce K fd d st = Inl x"
    then show "?R st x" using writeOnce_step [OF assms(1), where s = "fst (snd st)" and d = d and fd = fd and pr = "fst st" and w = "snd (snd st)"] by simp
  next
    fix st st' assume I: "?I st" and b: "writeOnce K fd d st = Inr st'"
    from writeOnce_step [OF assms(1), where s = "fst (snd st)" and d = d and fd = fd and pr = "fst st" and w = "snd (snd st)"] I b
    obtain tr where ev: "evolves (snd st) tr (snd st')" by (auto split: prod.splits)
    show "?I st'" using I evolves_frame [of "fst (snd st)" "snd (snd st)" tr "snd st'" "opposite d"] ev by simp
    show "?R st x" if "?R st' x" for x using that ev by (blast intro: evolves_trans)
  qed
  then show ?thesis by simp
qed

section \<open>The event handler\<close>

abbreviation leads_to :: "ProxySession \<times> world \<Rightarrow> ProxySession \<times> world \<Rightarrow> bool" where
  "leads_to sw sw' \<equiv> \<exists>tr. evolves sw tr sw'"

lemma leads_to_trans: "leads_to a b \<Longrightarrow> leads_to b c \<Longrightarrow> leads_to a c"
  by (blast intro: evolves_trans)

lemma leads_to_refl: "px_inv s \<Longrightarrow> leads_to (s, w) (s, w)"
  by (blast intro: evolves_refl)

lemma leads_to_inv: "leads_to sw (s, w) \<Longrightarrow> px_inv s"
  by (auto simp: evolves_def)

lemma leads_to_markClosing: "px_inv s \<Longrightarrow> leads_to (s, w) (markClosing s, w)"
  by (intro exI [of _ "[]"] evolves_silent)
     (simp_all add: markClosing_def same_session_def shared_kept_def px_inv_def)

lemma leads_to_set_readClosed: "px_inv s \<Longrightarrow> leads_to (s, w) (set_readClosed d s, w)"
  by (cases d; intro exI [of _ "[]"] evolves_silent)
     (auto simp: same_session_def shared_kept_def px_inv_def all_directions [where d = d])

lemma on_lease_kept:
  assumes "\<And>b. backend_core (f b) = backend_core b"
  shows "wd_os (on_lease l f w) = wd_os w" "wd_metrics (on_lease l f w) = wd_metrics w"
    "map backend_core (bp_backends (wd_pool (on_lease l f w))) = map backend_core (bp_backends (wd_pool w))"
    "bp_tieBreaker (wd_pool (on_lease l f w)) = bp_tieBreaker (wd_pool w)"
proof -
  have "map backend_core (xs[i := f (xs ! i)]) = map backend_core xs" for i xs
    by (cases "i < length xs") (simp_all add: map_update assms list_update_same_conv list_update_beyond)
  then show "wd_os (on_lease l f w) = wd_os w" "wd_metrics (on_lease l f w) = wd_metrics w"
    "map backend_core (bp_backends (wd_pool (on_lease l f w))) = map backend_core (bp_backends (wd_pool w))"
    "bp_tieBreaker (wd_pool (on_lease l f w)) = bp_tieBreaker (wd_pool w)"
    by (simp_all add: on_lease_def on_backend_def split: option.splits)
qed

lemma record_core:
  "backend_core (recordConnectSuccess b) = backend_core b" "backend_core (recordConnectFailure b) = backend_core b"
  by (simp_all add: backend_core_def recordConnectSuccess_def recordConnectFailure_def)

lemmas record_kept = on_lease_kept [where f = recordConnectSuccess, OF record_core(1)]
  on_lease_kept [where f = recordConnectFailure, OF record_core(2)]

lemma onConnectFailure_simps [simp]: "byte_count d (onConnectFailure m) = byte_count d m"
  "mt_active (onConnectFailure m) = mt_active m" "mt_accepted (onConnectFailure m) = mt_accepted m"
  "mt_rejected (onConnectFailure m) = mt_rejected m"
  by (cases d; simp add: metrics_defs)+

lemma finishUpstreamConnect_leads:
  assumes "px_inv s" "finishUpstreamConnect K (s, w) = (ok, s', w')"
  shows "leads_to (s, w) (s', w')"
proof -
  define r where "r = k_so_error K (wd_os w) (upstreamFd s)"
  have "\<exists>tr. list_all silent_event tr \<and> wd_os w' = wd_os w @ tr \<and> same_session s s' \<and> px_inv s' \<and> shared_kept s w [] w' \<and>
    (\<forall>d. buffer d s' = buffer d s \<and> writeShutdown d s' = writeShutdown d s \<and> readClosed d s' = readClosed d s)"
    using assms
    by (cases "r = Ok 0")
       (auto simp: finishUpstreamConnect_def Let_def os_simps touch_def w_now_def w_log_def record_kept r_def [symmetric]
         same_session_def shared_kept_def px_inv_def split: prod.splits)
  then show ?thesis by (blast intro: evolves_silent)
qed

lemma reportError_leads:
  assumes "px_inv s"
  shows "leads_to (s, w) (s, reportError K fd w)"
proof -
  have "\<exists>r lvl m. reportError K fd w = w\<lparr> wd_os := wd_os w @ [GetSoError fd r, Log lvl m] \<rparr>"
    by (simp add: reportError_def Let_def os_simps w_log_def) blast
  then obtain r lvl m where eq: "reportError K fd w = w\<lparr> wd_os := wd_os w @ [GetSoError fd r, Log lvl m] \<rparr>" by blast
  show ?thesis unfolding eq using assms
    by (intro exI [of _ "[GetSoError fd r, Log lvl m]"] evolves_silent) (simp_all add: same_session_def shared_kept_def)
qed

fun set_writeShutdown :: "direction \<Rightarrow> ProxySession \<Rightarrow> ProxySession" where
  "set_writeShutdown ClientToUpstream s = s\<lparr> px_upstreamWriteShutdown := True \<rparr>"
| "set_writeShutdown UpstreamToClient s = s\<lparr> px_clientWriteShutdown := True \<rparr>"

text \<open>Half-close of a sink: only after the end of its source was recorded and the buffer is drained.\<close>

lemma leads_to_shutdown:
  assumes "px_inv s" "readClosed d s" "bb_empty (buffer d s)" "\<not> writeShutdown d s"
  shows "leads_to (s, w) (set_writeShutdown d s, w\<lparr> wd_os := wd_os w @ [ShutdownWr (sink_fd d s)] \<rparr>)"
proof -
  have "readData (buffer d s) = []" using assms(1,3) by (simp add: px_inv_def bb_empty_iff)
  then show ?thesis using assms(1,2,4)
    by (cases d; intro exI [of _ "[ShutdownWr (sink_fd d s)]"])
       (auto simp: evolves_def same_session_def forwards_def shared_kept_def px_inv_def quiet_def all_directions [where d = d])
qed

lemma updateHalfClose_leads:
  assumes "px_inv s" "updateHalfClose (s, w) = (s', w')"
  shows "leads_to (s, w) (s', w')"
proof -
  define c1 where "c1 \<longleftrightarrow> px_clientReadClosed s \<and> bb_empty (px_clientToUpstream s) \<and> \<not> px_upstreamWriteShutdown s
      \<and> \<not> px_upstreamConnecting s"
  define s1 w1 where s1: "s1 = (if c1 then set_writeShutdown ClientToUpstream s else s)"
    and w1: "w1 = (if c1 then w\<lparr> wd_os := wd_os w @ [ShutdownWr (upstreamFd s)] \<rparr> else w)"
  have l1: "leads_to (s, w) (s1, w1)"
    using assms(1) leads_to_shutdown [of s ClientToUpstream w] leads_to_refl [of s w]
    by (auto simp: s1 w1 c1_def)
  then have i1: "px_inv s1" by (rule leads_to_inv)
  define c2 where "c2 \<longleftrightarrow> px_upstreamReadClosed s1 \<and> bb_empty (px_upstreamToClient s1) \<and> \<not> px_clientWriteShutdown s1"
  have "leads_to (s1, w1) (if c2 then set_writeShutdown UpstreamToClient s1 else s1,
      if c2 then w1\<lparr> wd_os := wd_os w1 @ [ShutdownWr (clientFd s1)] \<rparr> else w1)"
    using i1 leads_to_shutdown [of s1 UpstreamToClient w1] leads_to_refl [of s1 w1] by (auto simp: c2_def)
  moreover have "(s', w') = (if c2 then set_writeShutdown UpstreamToClient s1 else s1,
      if c2 then w1\<lparr> wd_os := wd_os w1 @ [ShutdownWr (clientFd s1)] \<rparr> else w1)"
    using assms(2) [symmetric] unfolding c2_def s1 w1 c1_def
    by (auto simp: updateHalfClose_def Let_def sys_shutdown_wr_def)
  ultimately show ?thesis using l1 leads_to_trans by metis
qed

lemma serveRead_leads:
  assumes "recv_bounded K" "px_inv s" "serveRead K d events (s, w) = Some (ok, s', w')"
  shows "leads_to (s, w) (s', w')"
proof (cases "\<not> readClosed d s \<and> any_of events (EPOLLIN OR EPOLLRDHUP OR EPOLLHUP)")
  case False
  then have "s' = s \<and> w' = w" using assms(3) by (auto simp: serveRead_def Let_def split: if_split_asm)
  then show ?thesis using leads_to_refl [OF assms(2)] by simp
next
  case True
  then obtain res s2 w2 where ri: "readInto K (source_fd d s) d (s, w) = Some (res, s2, w2)"
    and nxt: "s' = markClosing s2 \<or> s' = set_readClosed d s2 \<or> s' = s2" "w' = w2"
    using assms(3) by (auto simp: serveRead_def Let_def bind_eq_Some_conv split: if_split_asm)
  have l: "leads_to (s, w) (s2, w2)"
    using readInto_step [OF assms(1) ri] assms(2) True by (auto simp: read_step_def)
  note i = leads_to_inv [OF l]
  show ?thesis
    using nxt leads_to_trans [OF l leads_to_markClosing [OF i]] leads_to_trans [OF l leads_to_set_readClosed [OF i]] l by blast
qed

lemma serveWrite_leads:
  assumes "send_bounded K" "px_inv s" "serveWrite K d events (s, w) = Some (ok, s', w')"
  shows "leads_to (s, w) (s', w')"
proof (cases "any_of events EPOLLOUT \<and> \<not> bb_empty (buffer (opposite d) s)")
  case False
  then have "s' = s \<and> w' = w" using assms(3) by (auto simp: serveWrite_def Let_def split: if_split_asm)
  then show ?thesis using leads_to_refl [OF assms(2)] by simp
next
  case True
  then obtain res s2 w2 where wf: "writeFrom K (source_fd d s) (opposite d) (s, w) = Some (res, s2, w2)"
    and nxt: "s' = markClosing s2 \<or> s' = s2" "w' = w2"
    using assms(3) by (auto simp: serveWrite_def Let_def bind_eq_Some_conv split: if_split_asm)
  have l: "leads_to (s, w) (s2, w2)" using writeFrom_step [OF assms(1) wf] assms(2) by simp
  show ?thesis using nxt leads_to_trans [OF l leads_to_markClosing [OF leads_to_inv [OF l]]] l by blast
qed

lemma serveSocket_leads:
  assumes "recv_bounded K" "send_bounded K" "px_inv s" "serveSocket K d events (s, w) = Some (ok, s', w')"
  shows "leads_to (s, w) (s', w')"
proof -
  obtain ok1 s1 w1 where r: "serveRead K d events (s, w) = Some (ok1, s1, w1)"
    and rest: "(s', w') = (s1, w1) \<or> serveWrite K d events (s1, w1) = Some (ok, s', w')"
    using assms(4) by (auto simp: serveSocket_def bind_eq_Some_conv split: if_split_asm)
  note l = serveRead_leads [OF assms(1,3) r]
  show ?thesis using rest l leads_to_trans [OF l serveWrite_leads [OF assms(2) leads_to_inv [OF l]]] by blast
qed

lemma handleEvent_leads:
  assumes K: "recv_bounded K" "send_bounded K" and inv: "px_inv s"
    and eq: "handleEvent K fd events (s, w) = Some (ok, s', w')"
  shows "leads_to (s, w) (s', w')"
proof (cases "px_closing s \<or> (fd = upstreamFd s \<and> px_upstreamConnecting s \<and>
    \<not> any_of events (EPOLLOUT OR EPOLLERR OR EPOLLHUP))")
  case True
  then have "s' = s \<and> w' = w"
    using eq by (simp only: handleEvent_def Let_def fst_conv snd_conv split: if_split_asm) auto
  then show ?thesis using leads_to_refl [OF inv] by simp
next
  case False
  obtain con s1 w1 where c: "(if fd = upstreamFd s \<and> px_upstreamConnecting s then finishUpstreamConnect K (s, w)
      else (True, s, w)) = (con, s1, w1)" by (metis prod_cases3)
  have l1: "leads_to (s, w) (s1, w1)"
    using c finishUpstreamConnect_leads [OF inv] leads_to_refl [OF inv, of w] by (auto split: if_split_asm)
  note i1 = leads_to_inv [OF l1]
  note body = eq [unfolded handleEvent_def Let_def fst_conv snd_conv, unfolded c prod.case]
  consider (stop) "s' = markClosing s1" "w' = w1 \<or> w' = reportError K fd w1"
    | (serve) ok2 s2 w2 d where "serveSocket K d events (s1, w1) = Some (ok2, s2, w2)"
        "(s', w') = (s2, w2) \<or> (\<exists>s3. updateHalfClose (s2, w2) = (s3, w') \<and> (s' = s3 \<or> s' = markClosing s3))"
    using False body by (auto simp: bind_eq_Some_conv split: if_split_asm prod.split_asm)
  then have "leads_to (s1, w1) (s', w')"
  proof cases
    case stop
    have "leads_to (s1, w1) (s1, w')" using stop(2) leads_to_refl [OF i1] reportError_leads [OF i1] by blast
    from leads_to_trans [OF this leads_to_markClosing [OF i1]] show ?thesis using stop(1) by simp
  next
    case (serve ok2 s2 w2 d)
    note l2 = serveSocket_leads [OF K i1 serve(1)]
    note i2 = leads_to_inv [OF l2]
    have "leads_to (s2, w2) (s', w')"
      using serve(2) leads_to_refl [OF i2] updateHalfClose_leads [OF i2]
        leads_to_trans [OF updateHalfClose_leads [OF i2] leads_to_markClosing [OF leads_to_inv [OF updateHalfClose_leads [OF i2]]]]
      by blast
    with l2 show ?thesis by (rule leads_to_trans)
  qed
  with l1 show ?thesis by (rule leads_to_trans)
qed

end
