(* ===== verification/SessionFlow.thy ===== *)
theory SessionFlow
  imports ProxySession Environment
begin

text \<open>
  What a proxy session does over its whole life: every event handler call returns when interruptions are bounded,
  bytes are forwarded in order, a half-close comes after the last byte, and the event masks implement
  backpressure. The last section shows a sequence of events that loses bytes.
\<close>

section \<open>The loops return\<close>

text \<open>Repetitions of an interrupted call still to come.\<close>

definition recv_wait :: "kernel \<Rightarrow> fd \<Rightarrow> size_t \<Rightarrow> os \<Rightarrow> nat" where
  "recv_wait K fd n h = (LEAST i. k_recv K (recv_retries fd n h i) fd n \<noteq> Err EINTR)"

definition send_wait :: "kernel \<Rightarrow> fd \<Rightarrow> byte list \<Rightarrow> os \<Rightarrow> nat" where
  "send_wait K fd bs h = (LEAST i. k_send K (send_retries fd bs h i) fd bs \<noteq> Err EINTR)"

lemma recv_wait_step:
  assumes "eintr_bounded K B" "k_recv K h fd n = Err EINTR"
  shows "recv_wait K fd n (h @ [Recv fd n (Err EINTR)]) < recv_wait K fd n h"
proof -
  let ?P = "\<lambda>i. k_recv K (recv_retries fd n h i) fd n \<noteq> Err EINTR"
  obtain i where "?P i" using assms(1) unfolding eintr_bounded_def by blast
  moreover have "\<not> ?P 0" using assms(2) by simp
  ultimately have "(LEAST i. ?P i) = Suc (LEAST i. ?P (Suc i))" by (rule Least_Suc)
  then show ?thesis by (simp add: recv_wait_def)
qed

lemma send_wait_step:
  assumes "eintr_bounded K B" "k_send K h fd bs = Err EINTR"
  shows "send_wait K fd bs (h @ [Send fd bs (Err EINTR)]) < send_wait K fd bs h"
proof -
  let ?P = "\<lambda>i. k_send K (send_retries fd bs h i) fd bs \<noteq> Err EINTR"
  obtain i where "?P i" using assms(1) unfolding eintr_bounded_def by blast
  moreover have "\<not> ?P 0" using assms(2) by simp
  ultimately have "(LEAST i. ?P i) = Suc (LEAST i. ?P (Suc i))" by (rule Least_Suc)
  then show ?thesis by (simp add: send_wait_def)
qed

lemma makeWritable_idem: "writableBytes (makeWritable b) \<noteq> 0 \<Longrightarrow> makeWritable (makeWritable b) = makeWritable b"
  by (simp add: makeWritable_def [of "makeWritable b"])

lemma recv_fills:
  assumes "bb_inv b" "length bs \<le> unat (writableBytes (makeWritable b))"
  shows "readData (recv_into bs (makeWritable b)) = readData b @ bs"
    "length (bb_storage (recv_into bs (makeWritable b))) = length (bb_storage b)"
    "length (readData b @ bs) \<le> length (bb_storage b)"
proof -
  note mw = makeWritable_facts [OF assms(1)]
  show eq: "readData (recv_into bs (makeWritable b)) = readData b @ bs"
    using recv_into_readData [OF mw(1) assms(2)] mw(2) by simp
  show len: "length (bb_storage (recv_into bs (makeWritable b))) = length (bb_storage b)"
    using unat_writeIndex_recv_into(2) [OF mw(1) assms(2)] mw(3) by simp
  show "length (readData b @ bs) \<le> length (bb_storage b)"
    using bbq.space_bound [OF recv_into_inv [OF mw(1) assms(2)]] len eq by simp
qed

text \<open>Free space of the buffer, then repetitions of the pending call.\<close>

definition read_rank :: "kernel \<Rightarrow> fd \<Rightarrow> direction \<Rightarrow> bool \<times> ProxySession \<times> world \<Rightarrow> nat \<times> nat" where
  "read_rank K fd d st = (case st of (_, s, w) \<Rightarrow>
     (length (bb_storage (buffer d s)) - length (readData (buffer d s)),
      recv_wait K fd (writableBytes (makeWritable (buffer d s))) (wd_os w)))"

lemma readOnce_rank:
  assumes "recv_bounded K" "eintr_bounded K B" "px_inv s" "readOnce K fd d (pr, s, w) = Inr st'"
  shows "(read_rank K fd d st', read_rank K fd d (pr, s, w)) \<in> less_than <*lex*> less_than"
proof -
  define n where "n = writableBytes (makeWritable (buffer d s))"
  have b: "bb_inv (buffer d s)" using assms(3) by (simp add: px_inv_def)
  have n: "n \<noteq> 0" using assms(4) by (auto simp: readOnce_def n_def)
  show ?thesis
  proof (cases "k_recv K (wd_os w) fd n")
    case (Err e)
    with assms(4) n have "e = EINTR" "st' = (pr, writable_session d s, w\<lparr> wd_os := wd_os w @ [Recv fd n (Err EINTR)] \<rparr>)"
      by (auto simp: readOnce_def sys_recv_def Let_def n_def split: if_split_asm)
    then show ?thesis using Err n recv_wait_step [OF assms(2), of "wd_os w" fd n]
      by (simp add: read_rank_def n_def makeWritable_facts b makeWritable_idem)
  next
    case (Ok bs)
    then have "length bs \<le> unat n" using assms(1) by (auto simp: recv_bounded_def)
    note fills = recv_fills [OF b this [unfolded n_def]]
    from Ok assms(4) n have bs: "bs \<noteq> []" and st': "buffer d (fst (snd st')) = recv_into bs (makeWritable (buffer d s))"
      by (auto simp: readOnce_def sys_recv_def Let_def n_def touch_def w_now_def sys_now_def split: if_split_asm)
    have "length (bb_storage (buffer d s)) - length (readData (buffer d s) @ bs)
        < length (bb_storage (buffer d s)) - length (readData (buffer d s))"
      using bs fills(3) by (cases bs) auto
    then show ?thesis using fills st' by (cases st') (auto simp: read_rank_def)
  qed
qed

lemma readInto_returns:
  assumes "recv_bounded K" "eintr_bounded K B" "px_inv (fst sw)" "\<not> readClosed d (fst sw)" "fd = source_fd d (fst sw)"
  shows "\<exists>x. readInto K fd d sw = Some x"
  unfolding readInto_def
proof (rule forever_terminates [where I = "\<lambda>st. fd = source_fd d (fst (snd st)) \<and> px_inv (fst (snd st)) \<and> \<not> readClosed d (fst (snd st))"
      and r = "inv_image (less_than <*lex*> less_than) (read_rank K fd d)"])
  fix st st' :: "bool \<times> ProxySession \<times> world"
  assume I: "fd = source_fd d (fst (snd st)) \<and> px_inv (fst (snd st)) \<and> \<not> readClosed d (fst (snd st))"
    and b: "readOnce K fd d st = Inr st'"
  obtain pr s w where st: "st = (pr, s, w)" by (cases st)
  obtain pr' s' w' where st': "st' = (pr', s', w')" by (cases st')
  obtain tr where "evolves (s, w) tr (s', w')"
    using readOnce_step [OF assms(1), where s = s and d = d and fd = fd and pr = pr and w = w] I b by (auto simp: st st')
  from evolves_frame [OF this, of d]
  show "(fd = source_fd d (fst (snd st')) \<and> px_inv (fst (snd st')) \<and> \<not> readClosed d (fst (snd st'))) \<and>
      (st', st) \<in> inv_image (less_than <*lex*> less_than) (read_rank K fd d)"
    using I b readOnce_frame [of K fd d pr s w pr' s' w' d] readOnce_rank [OF assms(1,2), of s fd d pr w st']
    by (simp add: st st')
qed (use assms in \<open>auto intro: wf_lex_prod\<close>)

definition write_rank :: "kernel \<Rightarrow> fd \<Rightarrow> direction \<Rightarrow> bool \<times> ProxySession \<times> world \<Rightarrow> nat \<times> nat" where
  "write_rank K fd d st = (case st of (_, s, w) \<Rightarrow>
     (length (readData (buffer d s)), send_wait K fd (readData (buffer d s)) (wd_os w)))"

lemma writeOnce_rank:
  assumes "send_bounded K" "eintr_bounded K B" "px_inv s" "writeOnce K fd d (pr, s, w) = Inr st'"
  shows "(write_rank K fd d st', write_rank K fd d (pr, s, w)) \<in> less_than <*lex*> less_than"
proof -
  define bs where "bs = readData (buffer d s)"
  have b: "bb_inv (buffer d s)" using assms(3) by (simp add: px_inv_def)
  have ne: "\<not> bb_empty (buffer d s)" using assms(4) by (auto simp: writeOnce_def)
  show ?thesis
  proof (cases "k_send K (wd_os w) fd bs")
    case (Err e)
    with assms(4) ne have "e = EINTR" "st' = (pr, s, w\<lparr> wd_os := wd_os w @ [Send fd bs (Err EINTR)] \<rparr>)"
      by (auto simp: writeOnce_def sys_send_def Let_def bs_def split: if_split_asm)
    then show ?thesis using Err send_wait_step [OF assms(2), of "wd_os w" fd bs] by (simp add: write_rank_def bs_def)
  next
    case (Ok n)
    then have le: "unat n \<le> length bs" using assms(1) by (auto simp: send_bounded_def)
    then have "unat n \<le> unat (readableBytes (buffer d s))" using b by (simp add: bs_def length_readData)
    note out = consume_facts(2) [OF b this, simplified]
    from Ok assms(4) ne have "n > 0" and st': "buffer d (fst (snd st')) = consume n (buffer d s)"
      by (auto simp: writeOnce_def sys_send_def Let_def bs_def touch_def w_now_def sys_now_def split: if_split_asm)
    then have "0 < unat n" by (simp add: word_gt_0 unat_gt_0)
    then have "length (readData (consume n (buffer d s))) < length bs" using out le by (simp add: bs_def)
    then show ?thesis using st' by (cases st') (auto simp: write_rank_def bs_def)
  qed
qed

lemma writeFrom_returns:
  assumes "send_bounded K" "eintr_bounded K B" "px_inv (fst sw)" "fd = sink_fd d (fst sw)"
  shows "\<exists>x. writeFrom K fd d sw = Some x"
  unfolding writeFrom_def
proof (rule forever_terminates [where I = "\<lambda>st. fd = sink_fd d (fst (snd st)) \<and> px_inv (fst (snd st))"
      and r = "inv_image (less_than <*lex*> less_than) (write_rank K fd d)"])
  fix st st' :: "bool \<times> ProxySession \<times> world"
  assume I: "fd = sink_fd d (fst (snd st)) \<and> px_inv (fst (snd st))" and b: "writeOnce K fd d st = Inr st'"
  obtain pr s w where st: "st = (pr, s, w)" by (cases st)
  obtain pr' s' w' where st': "st' = (pr', s', w')" by (cases st')
  obtain tr where "evolves (s, w) tr (s', w')"
    using writeOnce_step [OF assms(1), where s = s and d = d and fd = fd and pr = pr and w = w] I b by (auto simp: st st')
  from evolves_frame [OF this, of "opposite d"]
  show "(fd = sink_fd d (fst (snd st')) \<and> px_inv (fst (snd st'))) \<and>
      (st', st) \<in> inv_image (less_than <*lex*> less_than) (write_rank K fd d)"
    using I b writeOnce_rank [OF assms(1,2), of s fd d pr w st'] by (simp add: st st')
qed (use assms in \<open>auto intro: wf_lex_prod\<close>)

lemma handleEvent_returns:
  assumes K: "recv_bounded K" "send_bounded K" "eintr_bounded K B" and inv: "px_inv s"
  shows "\<exists>x. handleEvent K fd events (s, w) = Some x"
proof -
  have rd: "\<exists>ok s' w'. serveRead K d events (s, w) = Some (ok, s', w')" if "px_inv s" for d s w
  proof (cases "\<not> readClosed d s \<and> any_of events (EPOLLIN OR EPOLLRDHUP OR EPOLLHUP)")
    case True
    then obtain r s' w' where "readInto K (source_fd d s) d (s, w) = Some (r, s', w')"
      using readInto_returns [OF K(1,3), of "(s, w)" d "source_fd d s"] \<open>px_inv s\<close> by auto
    then show ?thesis by (auto simp: serveRead_def Let_def)
  next
    case False
    then show ?thesis by (simp add: serveRead_def Let_def) blast
  qed
  have wr: "\<exists>ok s' w'. serveWrite K d events (s, w) = Some (ok, s', w')" if "px_inv s" for d s w
  proof -
    obtain r s' w' where "writeFrom K (source_fd d s) (opposite d) (s, w) = Some (r, s', w')"
      using writeFrom_returns [OF K(2,3), of "(s, w)" "source_fd d s" "opposite d"] \<open>px_inv s\<close> by auto
    then show ?thesis by (auto simp: serveWrite_def Let_def)
  qed
  have serve: "\<exists>ok s' w'. serveSocket K d events (s, w) = Some (ok, s', w')" if i: "px_inv s" for d s w
  proof -
    obtain ok s1 w1 where r: "serveRead K d events (s, w) = Some (ok, s1, w1)" using rd [OF i] by blast
    then have "px_inv s1" using serveRead_leads [OF K(1) i] leads_to_inv by blast
    from wr [OF this, of d w1] r show ?thesis by (auto simp: serveSocket_def)
  qed
  obtain con s1 w1 where c: "(if fd = upstreamFd s \<and> px_upstreamConnecting s then finishUpstreamConnect K (s, w)
      else (True, s, w)) = (con, s1, w1)" by (metis prod_cases3)
  have "px_inv s1"
    using c inv finishUpstreamConnect_leads [OF inv, of K w con s1 w1] by (auto simp: evolves_def split: if_split_asm)
  from serve [OF this, of ClientToUpstream w1] serve [OF this, of UpstreamToClient w1] show ?thesis
    unfolding handleEvent_def Let_def fst_conv snd_conv c prod.case by (auto split: prod.split)
qed

section \<open>The life of a session\<close>

text \<open>
  A session handles events one after the other; between two of them the rest of the process may do anything to
  the world. \<open>tr\<close> collects the calls the session itself made.
\<close>

inductive life :: "kernel \<Rightarrow> ProxySession \<Rightarrow> ProxySession \<Rightarrow> os \<Rightarrow> bool" for K s0 where
  born: "life K s0 s0 []"
| event: "life K s0 s tr \<Longrightarrow> handleEvent K fd events (s, w) = Some (ok, s', w') \<Longrightarrow> wd_os w' = wd_os w @ tr' \<Longrightarrow>
    life K s0 s' (tr @ tr')"

lemma life_invariant:
  assumes "life K s0 s tr" "recv_bounded K" "send_bounded K" "px_inv s0"
  shows "px_inv s \<and> same_session s0 s \<and> forwards s0 tr s \<and> quiet tr"
  using assms
proof (induction rule: life.induct)
  case born
  then show ?case by (simp add: same_session_def forwards_refl)
next
  case (event s tr fd events w ok s' w' tr')
  then have IH: "px_inv s" "same_session s0 s" "forwards s0 tr s" "quiet tr" by simp_all
  from handleEvent_leads [OF event.prems(1,2) IH(1) event.hyps(2)]
  have ev: "evolves (s, w) tr' (s', w')" using event.hyps(3) by (auto simp: evolves_def)
  then show ?case
    using IH forwards_trans [OF IH(3) _ IH(2), of tr' s'] by (auto simp: evolves_def same_session_def)
qed

lemma new_session:
  assumes "ProxySession_new K ident c u connecting l n a w = (s, w')" "c \<noteq> u"
  shows "px_inv s" "clientFd s = c" "upstreamFd s = u" "readData (buffer d s) = []" "\<not> writeShutdown d s"
    "\<not> readClosed d s"
  using assms
  by (cases d; auto simp: ProxySession_new_def w_now_def sys_now_def Let_def px_inv_def bb_inv_new
      all_directions [where d = ClientToUpstream])+

section \<open>Flags\<close>

lemma readInto_closing: "readInto K fd d (s, w) = Some (r, s', w') \<Longrightarrow> px_closing s' = px_closing s"
  unfolding readInto_def
proof -
  assume "forever (readOnce K fd d) (False, s, w) = Some (r, s', w')"
  then have "px_closing (fst (snd (r, s', w'))) = px_closing (fst (snd (False, s, w)))"
    by (rule forever_rule [where I = "\<lambda>_. True" and R = "\<lambda>st x. px_closing (fst (snd x)) = px_closing (fst (snd st))"])
       (cases d; auto simp: readOnce_def sys_recv_def Let_def touch_def w_now_def sys_now_def
          split: if_splits sysret.splits)+
  then show ?thesis by simp
qed

lemma writeFrom_closing: "writeFrom K fd d (s, w) = Some (r, s', w') \<Longrightarrow> px_closing s' = px_closing s"
  unfolding writeFrom_def
proof -
  assume "forever (writeOnce K fd d) (False, s, w) = Some (r, s', w')"
  then have "px_closing (fst (snd (r, s', w'))) = px_closing (fst (snd (False, s, w)))"
    by (rule forever_rule [where I = "\<lambda>_. True" and R = "\<lambda>st x. px_closing (fst (snd x)) = px_closing (fst (snd st))"])
       (cases d; auto simp: writeOnce_def sys_send_def Let_def touch_def w_now_def sys_now_def
          split: if_splits sysret.splits)+
  then show ?thesis by simp
qed

lemma set_readClosed_closing [simp]: "px_closing (set_readClosed d s) = px_closing s"
  by (cases d) simp_all

lemma markClosing_closing [simp]: "px_closing (markClosing s)"
  by (simp add: markClosing_def)

lemma serveSocket_closing:
  assumes "serveSocket K d events (s, w) = Some (ok, s', w')" "\<not> px_closing s"
  shows "ok \<longleftrightarrow> \<not> px_closing s'"
proof -
  obtain ok1 s1 w1 where r: "serveRead K d events (s, w) = Some (ok1, s1, w1)"
    and rest: "if ok1 then serveWrite K d events (s1, w1) = Some (ok, s', w') else \<not> ok \<and> s' = s1"
    using assms(1) by (auto simp: serveSocket_def bind_eq_Some_conv split: if_split_asm)
  have 1: "ok1 \<longleftrightarrow> \<not> px_closing s1"
    using r assms(2) by (auto simp: serveRead_def Let_def bind_eq_Some_conv dest!: readInto_closing split: if_split_asm)
  show ?thesis
    using rest 1 by (auto simp: serveWrite_def Let_def bind_eq_Some_conv dest!: writeFrom_closing split: if_split_asm)
qed

lemma updateHalfClose_closing: "updateHalfClose (s, w) = (s', w') \<Longrightarrow> px_closing s' = px_closing s"
  by (auto simp: updateHalfClose_def Let_def split: if_split_asm)

lemma finishUpstreamConnect_closing: "finishUpstreamConnect K (s, w) = (ok, s', w') \<Longrightarrow> px_closing s' = px_closing s"
  by (auto simp: finishUpstreamConnect_def Let_def touch_def w_now_def sys_now_def split: if_split_asm prod.split_asm)

section \<open>Interest masks\<close>

lemma any_of_or [simp]: "any_of (a OR b) m \<longleftrightarrow> any_of a m \<or> any_of b m"
  using and_or_eq_0_iff [of m a b] by (auto simp: any_of_def and.commute)

lemma writable_positive: "bb_inv b \<Longrightarrow> writableBytes b > 0 \<longleftrightarrow> unat (bb_writeIndex b) < length (bb_storage b)"
  using writable_zero_iff [of b] by (auto simp: word_gt_0 bb_inv_def)

text \<open>A buffer without tail space holds bytes: its indices went back to the start when it was emptied.\<close>

lemma no_tail_nonempty:
  assumes "bb_inv b" "0 < length (bb_storage b)" "\<not> writableBytes b > 0"
  shows "\<not> bb_empty b"
proof
  assume "bb_empty b"
  then have "bb_writeIndex b = 0" using assms(1) by (simp add: bb_empty_def readableBytes_def bb_inv_def)
  then show False using assms by (simp add: writable_positive)
qed

section \<open>Runs on the sample environment\<close>

definition sample_backend :: Backend where
  "sample_backend = \<lparr> be_config = \<lparr> bc_name = ''a'', bc_host = ''127.0.0.1'', bc_port = 80, bc_weight = 1 \<rparr>,
     be_endpoint = \<lparr> ep_address = sample_address, ep_length = 16, ep_text = ''127.0.0.1:80'' \<rparr>, be_healthy = True,
     be_activeConnections = 1, be_totalConnections = 0, be_failedConnections = 0 \<rparr>"

definition sample_world :: world where
  "sample_world = \<lparr> wd_os = [], wd_metrics = Metrics_new,
     wd_pool = \<lparr> bp_backends = [sample_backend], bp_tieBreaker = 0 \<rparr> \<rparr>"

definition sample_session :: "bool \<Rightarrow> ProxySession \<times> world" where
  "sample_session connecting =
     ProxySession_new sample_kernel 1 10 11 connecting \<lparr> bl_backend = Some 0 \<rparr> 4 ''10.0.0.1:5000'' sample_world"

fun run_events :: "kernel \<Rightarrow> (fd \<times> u32) list \<Rightarrow> ProxySession \<times> world \<Rightarrow> (ProxySession \<times> world) option" where
  "run_events K [] sw = Some sw"
| "run_events K ((fd, events) # es) sw = do { (ok, sw) \<leftarrow> handleEvent K fd events sw; run_events K es sw }"

lemma run_events_life:
  assumes "run_events K es (s, w) = Some (s', w')" "life K s0 s tr" "px_inv s" "recv_bounded K" "send_bounded K"
  shows "\<exists>tr'. wd_os w' = wd_os w @ tr' \<and> life K s0 s' (tr @ tr')"
  using assms
proof (induction es arbitrary: s w tr)
  case Nil
  then show ?case by auto
next
  case (Cons e es)
  obtain fd events where e: "e = (fd, events)" by (cases e)
  from Cons.prems(1) obtain ok s1 w1 where h: "handleEvent K fd events (s, w) = Some (ok, s1, w1)"
    and r: "run_events K es (s1, w1) = Some (s', w')" by (auto simp: e bind_eq_Some_conv)
  from handleEvent_leads [OF Cons.prems(4,5,3) h] obtain t1 where t1: "wd_os w1 = wd_os w @ t1" "px_inv s1"
    by (auto simp: evolves_def)
  from Cons.IH [OF r life.event [OF Cons.prems(2) h t1(1)] t1(2) Cons.prems(4,5)] show ?case using t1(1) by auto
qed

text \<open>Two bytes from the client, its hangup, and the bytes forwarded one at a time.\<close>

definition sample_run :: "ProxySession \<times> world" where
  "sample_run = the (run_events sample_kernel [(10, EPOLLIN), (10, EPOLLRDHUP), (11, EPOLLOUT)] (sample_session False))"

lemma sample_session_inv: "px_inv (fst (sample_session c))"
proof -
  obtain s w where "sample_session c = (s, w)" by (cases "sample_session c")
  then show ?thesis using new_session(1) [of sample_kernel 1 10 11 c] by (auto simp: sample_session_def)
qed

lemma sample_life:
  assumes "run_events sample_kernel es (sample_session c) = Some sw"
  shows "\<exists>tr. wd_os (snd sw) = wd_os (snd (sample_session c)) @ tr \<and> life sample_kernel (fst (sample_session c)) (fst sw) tr"
proof -
  obtain s w where i: "sample_session c = (s, w)" by (cases "sample_session c")
  obtain s' w' where e: "sw = (s', w')" by (cases sw)
  show ?thesis
    using run_events_life [OF assms [unfolded i e] life.born _ sample_contracts(1,2)] sample_session_inv [of c] by (simp add: i e)
qed

lemma sample_run_life:
  "\<exists>tr. life sample_kernel (fst (sample_session False)) (fst sample_run) tr \<and>
     sent 11 tr = [104, 105] \<and> ShutdownWr 11 \<in> set tr"
proof -
  have "run_events sample_kernel [(10, EPOLLIN), (10, EPOLLRDHUP), (11, EPOLLOUT)] (sample_session False) \<noteq> None" by code_simp
  then obtain tr where tr: "wd_os (snd sample_run) = wd_os (snd (sample_session False)) @ tr"
      "life sample_kernel (fst (sample_session False)) (fst sample_run) tr"
    using sample_life [where es = "[(10, EPOLLIN), (10, EPOLLRDHUP), (11, EPOLLOUT)]" and c = False and sw = sample_run]
    by (auto simp: sample_run_def)
  have os0: "wd_os (snd (sample_session False)) = [SteadyNow 0]" by code_simp
  have "sent 11 (wd_os (snd sample_run)) = [104, 105]" "ShutdownWr 11 \<in> set (wd_os (snd sample_run))" by code_simp+
  then show ?thesis using tr os0 by auto
qed

text \<open>The bytes and the half-close of one direction.\<close>

lemma life_direction:
  assumes "recv_bounded K" "send_bounded K" "c \<noteq> u"
    and "ProxySession_new K ident c u connecting l n a w = (s0, w0)" "life K s0 s tr"
  shows "received (source_fd d s0) tr = sent (sink_fd d s0) tr @ readData (buffer d s)"
    "count_list tr (ShutdownWr (sink_fd d s0)) = of_bool (writeShutdown d s)"
    "writeShutdown d s \<Longrightarrow> readData (buffer d s) = []"
proof -
  note new = new_session [OF assms(4,3)]
  note inv = life_invariant [OF assms(5,1,2) new(1)]
  from inv have "forwards s0 tr s" by simp
  from this [unfolded forwards_def, THEN conjunct1, THEN spec, of d] new(4,5) [of d]
  show "received (source_fd d s0) tr = sent (sink_fd d s0) tr @ readData (buffer d s)"
    "count_list tr (ShutdownWr (sink_fd d s0)) = of_bool (writeShutdown d s)" by simp_all
  show "writeShutdown d s \<Longrightarrow> readData (buffer d s) = []" using inv by (simp add: px_inv_def)
qed

text \<open>With positive capacities the masks leave no direction out.\<close>

lemma masks_cover:
  assumes "px_inv s" "\<not> px_upstreamConnecting s"
    "0 < length (bb_storage (px_clientToUpstream s))" "0 < length (bb_storage (px_upstreamToClient s))"
  shows "(any_of (clientEvents s) EPOLLIN \<or> any_of (upstreamEvents s) EPOLLOUT \<or>
       px_clientReadClosed s \<and> readData (px_clientToUpstream s) = []) \<and>
    (any_of (upstreamEvents s) EPOLLIN \<or> any_of (clientEvents s) EPOLLOUT \<or>
       px_upstreamReadClosed s \<and> readData (px_upstreamToClient s) = [])"
proof -
  have b: "bb_inv (px_clientToUpstream s)" "bb_inv (px_upstreamToClient s)"
    using assms(1) by (simp_all add: px_inv_def all_directions [where d = ClientToUpstream])
  show ?thesis
    using assms(2) no_tail_nonempty [OF b(1) assms(3)] no_tail_nonempty [OF b(2) assms(4)] bb_empty_iff [OF b(1)] bb_empty_iff [OF b(2)]
    by (auto simp: clientEvents_def upstreamEvents_def Let_def) (auto simp: any_of_def)
qed

section \<open>Properties\<close>

text \<open>C2. Bytes are forwarded unchanged: over the whole life of a session, whatever the system calls answer within their
  contract and whatever the rest of the process does, the bytes received from one peer are the bytes sent to the
  other followed by the bytes still buffered, in both directions, and no other descriptor is read or written.\<close>

theorem session_stream_integrity:
  assumes "recv_bounded K" "send_bounded K" "c \<noteq> u"
    and "ProxySession_new K ident c u connecting l n a w = (s0, w0)" "life K s0 s tr"
  shows "received c tr = sent u tr @ readData (px_clientToUpstream s) \<and>
    received u tr = sent c tr @ readData (px_upstreamToClient s) \<and>
    (\<forall>f. f \<noteq> c \<longrightarrow> f \<noteq> u \<longrightarrow> received f tr = [] \<and> sent f tr = [])"
proof -
  note new = new_session [OF assms(4,3)]
  have "forwards s0 tr s" using life_invariant [OF assms(5,1,2) new(1)] by simp
  then show ?thesis
    using new(2,3) life_direction(1) [OF assms, of ClientToUpstream] life_direction(1) [OF assms, of UpstreamToClient]
    by (simp add: forwards_def)
qed

theorem session_stream_integrity_witness:
  "\<exists>tr. received 10 tr = sent 11 tr @ readData (px_clientToUpstream (fst sample_run)) \<and> sent 11 tr = [104, 105]"
proof -
  obtain tr where life: "life sample_kernel (fst (sample_session False)) (fst sample_run) tr"
    and bytes: "sent 11 tr = [104, 105]" using sample_run_life by blast
  have "received 10 tr = sent 11 tr @ readData (px_clientToUpstream (fst sample_run))"
    using session_stream_integrity [OF sample_contracts(1,2) _ prod.collapse [symmetric] life [unfolded sample_session_def]]
    by simp
  with bytes show ?thesis by blast
qed

text \<open>C11. A half-close is sent once and last: the write side of a peer is shut down at most once in the life of a session,
  and when it has been, every byte received from the other peer has been sent.\<close>

theorem session_half_close_after_drain:
  assumes "recv_bounded K" "send_bounded K" "c \<noteq> u"
    and "ProxySession_new K ident c u connecting l n a w = (s0, w0)" "life K s0 s tr"
  shows "count_list tr (ShutdownWr u) \<le> 1 \<and> (ShutdownWr u \<in> set tr \<longrightarrow> sent u tr = received c tr) \<and>
    count_list tr (ShutdownWr c) \<le> 1 \<and> (ShutdownWr c \<in> set tr \<longrightarrow> sent c tr = received u tr)"
proof -
  note new = new_session [OF assms(4,3)]
  have "count_list tr (ShutdownWr (sink_fd d s0)) \<le> 1 \<and>
      (ShutdownWr (sink_fd d s0) \<in> set tr \<longrightarrow> sent (sink_fd d s0) tr = received (source_fd d s0) tr)" for d
    using life_direction [OF assms, of d] count_list_0_iff [of tr "ShutdownWr (sink_fd d s0)"] by auto
  from this [of ClientToUpstream] this [of UpstreamToClient] show ?thesis using new(2,3) by simp
qed

theorem session_half_close_after_drain_witness:
  "\<exists>tr. ShutdownWr 11 \<in> set tr \<and> count_list tr (ShutdownWr 11) \<le> 1 \<and> received 10 tr = [104, 105]"
proof -
  obtain tr where life: "life sample_kernel (fst (sample_session False)) (fst sample_run) tr"
    and tr: "sent 11 tr = [104, 105]" "ShutdownWr 11 \<in> set tr" using sample_run_life by blast
  show ?thesis
    using tr session_half_close_after_drain [OF sample_contracts(1,2) _ prod.collapse [symmetric] life [unfolded sample_session_def]]
    by (auto intro!: exI [of _ tr])
qed

text \<open>C16. Handling an event always ends: when a call is not interrupted for ever, \<open>handleEvent\<close> returns for every session
  in a consistent state, every descriptor, every event mask and every behaviour of the sockets.\<close>

theorem handleEvent_terminates:
  assumes "recv_bounded K" "send_bounded K" "eintr_bounded K B" "px_inv s"
  shows "\<exists>ok s' w'. handleEvent K fd events (s, w) = Some (ok, s', w') \<and> px_inv s'"
proof -
  obtain ok s' w' where "handleEvent K fd events (s, w) = Some (ok, s', w')"
    using handleEvent_returns [OF assms, of fd events w] by auto
  then show ?thesis using handleEvent_leads [OF assms(1,2,4)] leads_to_inv by blast
qed

theorem handleEvent_terminates_witness:
  "\<exists>ok s' w'. handleEvent sample_kernel 10 (EPOLLIN OR EPOLLOUT)
     (fst (sample_session False), snd (sample_session False)) = Some (ok, s', w') \<and> px_inv s'"
  by (rule handleEvent_terminates [OF sample_contracts(1,2,4) sample_session_inv])

text \<open>C18. What handling an event leaves alone and what it counts: the byte counters grow by exactly the bytes received in
  each direction, no descriptor is opened or closed, and the number of open sessions, the admission counters, the
  health flags and the connection counts of all backends do not change.\<close>

theorem handleEvent_accounting:
  assumes "recv_bounded K" "send_bounded K" "px_inv s" "handleEvent K fd events (s, w) = Some (ok, s', w')"
  shows "\<exists>tr. wd_os w' = wd_os w @ tr \<and>
    mt_clientToBackendBytes (wd_metrics w') =
      mt_clientToBackendBytes (wd_metrics w) + of_nat (length (received (clientFd s) tr)) \<and>
    mt_backendToClientBytes (wd_metrics w') =
      mt_backendToClientBytes (wd_metrics w) + of_nat (length (received (upstreamFd s) tr)) \<and>
    open_fds (wd_os w') = open_fds (wd_os w) \<and> (closes_ok (wd_os w) \<longrightarrow> closes_ok (wd_os w')) \<and>
    mt_active (wd_metrics w') = mt_active (wd_metrics w) \<and> mt_accepted (wd_metrics w') = mt_accepted (wd_metrics w) \<and>
    mt_rejected (wd_metrics w') = mt_rejected (wd_metrics w) \<and>
    map backend_core (bp_backends (wd_pool w')) = map backend_core (bp_backends (wd_pool w))"
proof -
  obtain tr where "evolves (s, w) tr (s', w')" using handleEvent_leads [OF assms] by blast
  then have e: "wd_os w' = wd_os w @ tr" "quiet tr" "shared_kept s w tr w'" by (simp_all add: evolves_def)
  have bytes: "byte_count d (wd_metrics w') = byte_count d (wd_metrics w) + of_nat (length (received (source_fd d s) tr))" for d
    using e(3) by (simp add: shared_kept_def)
  show ?thesis
    using e bytes [of ClientToUpstream, unfolded byte_count.simps source_fd.simps]
      bytes [of UpstreamToClient, unfolded byte_count.simps source_fd.simps]
    by (intro exI [of _ tr]) (simp add: quiet_def shared_kept_def)
qed

theorem handleEvent_accounting_witness:
  "\<exists>ok s' w'. handleEvent sample_kernel 10 EPOLLIN (fst (sample_session False), snd (sample_session False))
       = Some (ok, s', w') \<and> mt_active (wd_metrics w') = mt_active (wd_metrics (snd (sample_session False)))"
proof -
  obtain ok s' w' where h: "handleEvent sample_kernel 10 EPOLLIN
      (fst (sample_session False), snd (sample_session False)) = Some (ok, s', w')"
    using handleEvent_returns [OF sample_contracts(1,2,4) sample_session_inv] by (metis prod_cases3)
  then show ?thesis using handleEvent_accounting [OF sample_contracts(1,2) sample_session_inv h] by blast
qed

text \<open>The verdict of \<open>handleEvent\<close> is the closing flag: it answers false exactly when the session is marked for the
  deferred close, and a session so marked is never touched again.\<close>

lemma handleEvent_verdict:
  "(handleEvent K fd events (s, w) = Some (ok, s', w') \<longrightarrow> (ok \<longleftrightarrow> \<not> px_closing s')) \<and>
   (px_closing s \<longrightarrow> handleEvent K fd events (s, w) = Some (False, s, w))"
proof (intro conjI impI)
  show "handleEvent K fd events (s, w) = Some (False, s, w)" if "px_closing s"
    using that by (simp add: handleEvent_def Let_def)
  assume eq: "handleEvent K fd events (s, w) = Some (ok, s', w')"
  obtain con s1 w1 where c: "(if fd = upstreamFd s \<and> px_upstreamConnecting s then finishUpstreamConnect K (s, w)
      else (True, s, w)) = (con, s1, w1)" by (metis prod_cases3)
  have 1: "px_closing s1 = px_closing s"
    using c finishUpstreamConnect_closing [of K s w con s1 w1] by (auto split: if_split_asm)
  note body = eq [unfolded handleEvent_def Let_def fst_conv snd_conv, unfolded c prod.case]
  show "ok \<longleftrightarrow> \<not> px_closing s'"
    using body 1
    by (auto simp: bind_eq_Some_conv split: if_split_asm prod.split_asm dest!: serveSocket_closing updateHalfClose_closing)
qed

text \<open>C23. No session is ever stuck. Whatever events a new session with a buffer of positive size has handled so far and whatever the
  system calls answered: while the connect is pending it is waited for; afterwards each direction watches its source for input,
  or watches its sink for output, or has seen the end of its stream and forwarded every byte. So a reactor that follows
  the masks never leaves bytes or a peer waiting without an event to wait for.\<close>

theorem session_never_stuck:
  assumes "recv_bounded K" "send_bounded K" "c \<noteq> u" "0 < n"
    and "ProxySession_new K ident c u connecting l n a w = (s0, w0)" "life K s0 s tr"
  shows "if px_upstreamConnecting s then any_of (upstreamEvents s) EPOLLOUT
    else (any_of (clientEvents s) EPOLLIN \<or> any_of (upstreamEvents s) EPOLLOUT \<or>
         px_clientReadClosed s \<and> received c tr = sent u tr) \<and>
      (any_of (upstreamEvents s) EPOLLIN \<or> any_of (clientEvents s) EPOLLOUT \<or>
         px_upstreamReadClosed s \<and> received u tr = sent c tr)"
proof -
  note new = new_session [OF assms(5,3)]
  have inv: "px_inv s" "same_session s0 s" using life_invariant [OF assms(6,1,2) new(1)] by simp_all
  have "length (bb_storage (buffer d s0)) = unat n" for d
    using assms(5) by (cases d) (auto simp: ProxySession_new_def w_now_def sys_now_def Let_def ByteBuffer_new_def)
  moreover have "0 < unat n" using assms(4) by (simp add: unat_gt_0 word_neq_0_conv)
  ultimately have "0 < length (bb_storage (buffer d s))" for d using inv(2) by (simp add: same_session_def)
  from this [of ClientToUpstream] this [of UpstreamToClient]
  have cap: "0 < length (bb_storage (px_clientToUpstream s))" "0 < length (bb_storage (px_upstreamToClient s))" by simp_all
  have bytes: "received c tr = sent u tr @ readData (px_clientToUpstream s)" "received u tr = sent c tr @ readData (px_upstreamToClient s)"
    using life_direction(1) [OF assms(1-3,5,6), of ClientToUpstream] life_direction(1) [OF assms(1-3,5,6), of UpstreamToClient] new(2,3) by simp_all
  show ?thesis
  proof (cases "px_upstreamConnecting s")
    case True
    then show ?thesis by (simp add: upstreamEvents_def Let_def) (simp add: any_of_def)
  next
    case False
    then show ?thesis using masks_cover [OF inv(1) False cap] bytes by simp
  qed
qed

text \<open>After the bytes of the sample run were forwarded and its client has closed.\<close>

theorem session_never_stuck_witness:
  "\<exists>tr. life sample_kernel (fst (sample_session False)) (fst sample_run) tr \<and> sent 11 tr = [104, 105] \<and>
     \<not> any_of (clientEvents (fst sample_run)) EPOLLIN \<and> \<not> any_of (upstreamEvents (fst sample_run)) EPOLLOUT \<and> received 10 tr = sent 11 tr"
proof -
  obtain tr where life: "life sample_kernel (fst (sample_session False)) (fst sample_run) tr"
    and bytes: "sent 11 tr = [104, 105]" using sample_run_life by blast
  have off: "\<not> px_upstreamConnecting (fst sample_run)" "\<not> any_of (clientEvents (fst sample_run)) EPOLLIN"
    "\<not> any_of (upstreamEvents (fst sample_run)) EPOLLOUT" by code_simp+
  have "received 10 tr = sent 11 tr"
    using session_never_stuck [OF sample_contracts(1,2) _ _ prod.collapse [symmetric] life [unfolded sample_session_def]] off
    by (simp split: if_split_asm)
  with life bytes off show ?thesis by blast
qed



text \<open>An error event ends the session and is reported by its cause: the pending error is read once, the session is marked
  for closing, and the report is a debug line exactly for a reset or broken pipe, a warning for anything else.\<close>

lemma error_event_closes:
  assumes "\<not> px_closing s" "\<not> px_upstreamConnecting s" "any_of events EPOLLERR"
  shows "\<exists>r lvl m w'. handleEvent K fd events (s, w) = Some (False, markClosing s, w') \<and>
    wd_os w' = wd_os w @ [GetSoError fd r, Log lvl m] \<and>
    (lvl = Debug \<longleftrightarrow> r = Ok ECONNRESET \<or> r = Ok EPIPE) \<and> (lvl = Debug \<or> lvl = Warn) \<and> wd_metrics w' = wd_metrics w"
proof -
  have "handleEvent K fd events (s, w) = Some (False, markClosing s, reportError K fd w)"
    using assms by (simp add: handleEvent_def Let_def)
  then show ?thesis
    by (cases "k_so_error K (wd_os w) fd") (auto simp: reportError_def Let_def os_simps w_log_def)
qed

text \<open>A connect that fails ends the session and is counted, once, on the backend it was for; the backend stays as healthy
  as it was, since only the health checker takes backends out.\<close>

lemma failed_connect_counted:
  assumes "\<not> px_closing s" "px_upstreamConnecting s" "any_of events (EPOLLOUT OR EPOLLERR OR EPOLLHUP)"
    "bl_backend (px_backend s) = Some i" "i < length (bp_backends (wd_pool w))"
    "k_so_error K (wd_os w) (upstreamFd s) \<noteq> Ok 0"
  shows "\<exists>w'. handleEvent K (upstreamFd s) events (s, w) = Some (False, markClosing s, w') \<and>
    bp_backends (wd_pool w') = (bp_backends (wd_pool w))[i := recordConnectFailure (bp_backends (wd_pool w) ! i)] \<and>
    wd_metrics w' = onConnectFailure (wd_metrics w) \<and>
    map be_healthy (bp_backends (wd_pool w')) = map be_healthy (bp_backends (wd_pool w))"
proof -
  have "finishUpstreamConnect K (s, w) = (False, s,
      w_log Warn ''session=%llu failed to connect backend=%s error=%s''
        ((on_lease (px_backend s) recordConnectFailure
           (w\<lparr> wd_os := wd_os w @ [GetSoError (upstreamFd s) (k_so_error K (wd_os w) (upstreamFd s))] \<rparr>))
         \<lparr> wd_metrics := onConnectFailure (wd_metrics w) \<rparr>))"
    using assms(4,6) by (simp add: finishUpstreamConnect_def Let_def sys_so_error_def on_lease_def)
  moreover have "map be_healthy (xs[i := recordConnectFailure (xs ! i)]) = map be_healthy xs" for xs
    by (cases "i < length xs") (simp_all add: map_update recordConnectFailure_def list_update_same_conv list_update_beyond)
  ultimately show ?thesis
    using assms(1-4) by (simp add: handleEvent_def Let_def w_log_def on_lease_def on_backend_def)
qed

text \<open>C31. A hangup that arrives while the buffer is full cuts the stream: the client's side is recorded as ended without a
  single read, so whatever the client had sent and the session had not yet read is never received.\<close>

theorem hangup_on_full_buffer_truncates:
  assumes "recv_bounded K" "send_bounded K" "px_inv s" "\<not> px_closing s" "\<not> px_clientReadClosed s"
    "length (readData (px_clientToUpstream s)) = length (bb_storage (px_clientToUpstream s))"
    "any_of events EPOLLRDHUP" "\<not> any_of events EPOLLERR" "\<not> any_of events EPOLLOUT"
  shows "\<exists>ok s' w' tr. handleEvent K (clientFd s) events (s, w) = Some (ok, s', w') \<and> wd_os w' = wd_os w @ tr \<and>
    px_clientReadClosed s' \<and> (\<forall>n r. Recv (clientFd s) n r \<notin> set tr) \<and>
    (\<forall>s'' tr'. life K s' s'' tr' \<longrightarrow> received (clientFd s) tr' = [])"
proof -
  have inv: "bb_inv (px_clientToUpstream s)" using assms(3) by (auto simp: px_inv_def all_directions [where d = ClientToUpstream])
  let ?b = "makeWritable (px_clientToUpstream s)"
  have "unat (writableBytes ?b) = 0"
    using bbq.space_bound [of ?b] makeWritable_facts [OF inv] assms(6) by simp
  then have w0: "writableBytes ?b = 0" by (simp add: unat_size_zero_iff)
  let ?s = "px_clientReadClosed_update (\<lambda>_. True) (s\<lparr> px_clientToUpstream := ?b \<rparr>)"
  have ri: "readInto K (clientFd s) ClientToUpstream (s, w) = Some (WouldBlock, s\<lparr> px_clientToUpstream := ?b \<rparr>, w)"
    using w0 by (simp add: readInto_def forever.simps readOnce_def)
  have hup: "any_of events (EPOLLRDHUP OR EPOLLHUP)" "any_of events (EPOLLIN OR EPOLLRDHUP OR EPOLLHUP)"
    using assms(7) unfolding any_of_def and_or_eq_0_iff by simp_all
  have serve: "serveSocket K ClientToUpstream events (s, w) = Some (True, ?s, w)"
    using ri assms(5,9) hup by (simp add: serveSocket_def serveRead_def serveWrite_def Let_def)
  obtain s1 w1 where u: "updateHalfClose (?s, w) = (s1, w1)" by (cases "updateHalfClose (?s, w)")
  have s1: "px_clientReadClosed s1" "\<exists>tr. wd_os w1 = wd_os w @ tr \<and> (\<forall>n r. Recv (clientFd s) n r \<notin> set tr)"
    using u by (auto simp: updateHalfClose_def Let_def sys_shutdown_wr_def split: if_split_asm)
  have "upstreamFd s \<noteq> clientFd s" using assms(3) by (auto simp: px_inv_def)
  then obtain ok s' where h: "handleEvent K (clientFd s) events (s, w) = Some (ok, s', w1)" "s' = s1 \<or> s' = markClosing s1"
    using serve u assms(4,8) by (cases "completed s1") (auto simp: handleEvent_def Let_def)
  have closed: "px_clientReadClosed s'" using h(2) s1(1) by (auto simp: markClosing_def)
  obtain t0 where ev: "evolves (s, w) t0 (s', w1)" using handleEvent_leads [OF assms(1-3) h(1)] by blast
  then have i': "px_inv s'" "clientFd s' = clientFd s" by (simp_all add: evolves_def same_session_def)
  have "received (clientFd s) tr' = []" if "life K s' s'' tr'" for s'' tr'
    using life_invariant [OF that assms(1,2) i'(1)] closed i'(2)
    by (auto simp: forwards_def all_directions [where d = ClientToUpstream])
  then show ?thesis using h(1) s1(2) closed by blast
qed

definition full_session :: ProxySession where
  "full_session = (fst (sample_session False))\<lparr> px_clientToUpstream := recv_into [1, 2, 3, 4] (ByteBuffer_new 4) \<rparr>"

theorem hangup_on_full_buffer_truncates_witness:
  "\<exists>ok s' w' tr. handleEvent sample_kernel 10 EPOLLRDHUP (full_session, sample_world) = Some (ok, s', w') \<and>
     px_clientReadClosed s' \<and> wd_os w' = wd_os sample_world @ tr \<and> (\<forall>n r. Recv 10 n r \<notin> set tr) \<and>
     (\<exists>bs. bs \<noteq> [] \<and> k_recv sample_kernel (wd_os sample_world) 10 4 = Ok bs)"
proof -
  have fd: "clientFd full_session = 10" by code_simp
  have "bb_inv (recv_into [1, 2, 3, 4] (ByteBuffer_new 4))" by (rule recv_into_inv [OF bb_inv_new]) code_simp
  moreover have "\<not> px_upstreamWriteShutdown (fst (sample_session False))" by code_simp
  ultimately have inv: "px_inv full_session"
    using sample_session_inv [of False] by (auto simp: px_inv_def full_session_def all_directions [where d = ClientToUpstream])
  have "\<not> px_closing full_session" "\<not> px_clientReadClosed full_session"
    "length (readData (px_clientToUpstream full_session)) = length (bb_storage (px_clientToUpstream full_session))"
    "any_of EPOLLRDHUP EPOLLRDHUP" "\<not> any_of EPOLLRDHUP EPOLLERR" "\<not> any_of EPOLLRDHUP EPOLLOUT" by code_simp+
  from hangup_on_full_buffer_truncates [OF sample_contracts(1,2) inv this, of sample_world, unfolded fd]
  obtain ok s' w' tr where "handleEvent sample_kernel 10 EPOLLRDHUP (full_session, sample_world) = Some (ok, s', w')"
    "wd_os w' = wd_os sample_world @ tr" "px_clientReadClosed s'" "\<forall>n r. Recv 10 n r \<notin> set tr" by blast
  moreover have "k_recv sample_kernel (wd_os sample_world) 10 4 = Ok [104, 105]" by code_simp
  ultimately show ?thesis by blast
qed

end
