(* ===== verification/Worker.thy ===== *)
theory Worker
  imports SessionFlow "HOL-Library.AList"
begin

text \<open>
  The worker reactor (\<^verbatim>\<open>Worker.h/.cpp\<close>). A \<^verbatim>\<open>shared_ptr<ProxySession>\<close> is the identifier of the session: the table
  \<^verbatim>\<open>fdToSession_\<close> maps a descriptor to it, and the session object is stored once, in \<^verbatim>\<open>sessions_\<close>. The iteration
  order of that hash table is not specified; the model keeps an association list, and the theorems hold for every
  order of its entries. An object leaves the table when its session is closed and is destroyed when the local
  vector that still refers to it goes out of scope, as in the code. Queue operations are atomic (\<^verbatim>\<open>queueMutex_\<close>).
\<close>

section \<open>State\<close>

record AcceptedClient =
  ac_fd :: fd
  ac_address :: string

record Worker =
  wk_index :: size_t
  wk_config :: AppConfig
  wk_epollFd :: UniqueFd
  wk_wakeFd :: UniqueFd
  wk_running :: bool
  wk_queue :: "AcceptedClient list"
  wk_fdToSession :: "fd \<rightharpoonup> u64"
  wk_sessions :: "(u64 \<times> ProxySession) list"
  wk_activeSessions :: size_t
  wk_nextSessionId :: u64

abbreviation epoll_fd :: "Worker \<Rightarrow> fd" where
  "epoll_fd wk \<equiv> UniqueFd_get (wk_epollFd wk)"

abbreviation wake_fd :: "Worker \<Rightarrow> fd" where
  "wake_fd wk \<equiv> UniqueFd_get (wk_wakeFd wk)"

section \<open>System calls\<close>

definition epollError :: "string \<Rightarrow> errno \<Rightarrow> exn" where
  "epollError action e = SystemError action e"

definition sys_epoll_create1 :: "kernel \<Rightarrow> os \<Rightarrow> fd sysret \<times> os" where [os_simps]:
  "sys_epoll_create1 K h = (k_epoll_create1 K h, h @ [EpollCreate (k_epoll_create1 K h)])"

definition sys_eventfd :: "kernel \<Rightarrow> os \<Rightarrow> fd sysret \<times> os" where [os_simps]:
  "sys_eventfd K h = (k_eventfd K h, h @ [EventFd (k_eventfd K h)])"

definition w_epoll_ctl :: "kernel \<Rightarrow> fd \<Rightarrow> epoll_op \<Rightarrow> fd \<Rightarrow> u32 \<Rightarrow> world \<Rightarrow> unit sysret \<times> world" where [os_simps]:
  "w_epoll_ctl K ep op fd ev w =
     (k_epoll_ctl K (wd_os w) ep op fd ev, w\<lparr> wd_os := wd_os w @ [EpollCtl ep op fd ev (k_epoll_ctl K (wd_os w) ep op fd ev)] \<rparr>)"

definition w_epoll_wait :: "kernel \<Rightarrow> fd \<Rightarrow> size_t \<Rightarrow> int \<Rightarrow> world \<Rightarrow> (fd \<times> u32) list sysret \<times> world" where [os_simps]:
  "w_epoll_wait K ep n timeout w =
     (k_epoll_wait K (wd_os w) ep n timeout, w\<lparr> wd_os := wd_os w @ [EpollWait ep n timeout (k_epoll_wait K (wd_os w) ep n timeout)] \<rparr>)"

definition w_eventfd_read :: "kernel \<Rightarrow> fd \<Rightarrow> world \<Rightarrow> u64 sysret \<times> world" where [os_simps]:
  "w_eventfd_read K fd w =
     (k_eventfd_read K (wd_os w) fd, w\<lparr> wd_os := wd_os w @ [EventFdRead fd (k_eventfd_read K (wd_os w) fd)] \<rparr>)"

definition w_eventfd_write :: "kernel \<Rightarrow> fd \<Rightarrow> world \<Rightarrow> unit sysret \<times> world" where [os_simps]:
  "w_eventfd_write K fd w =
     (k_eventfd_write K (wd_os w) fd, w\<lparr> wd_os := wd_os w @ [EventFdWrite fd (k_eventfd_write K (wd_os w) fd)] \<rparr>)"

definition w_close :: "fd \<Rightarrow> world \<Rightarrow> world" where
  "w_close fd w = w\<lparr> wd_os := sys_close fd (wd_os w) \<rparr>"

definition on_metrics :: "(Metrics \<Rightarrow> Metrics) \<Rightarrow> world \<Rightarrow> world" where
  "on_metrics f w = w\<lparr> wd_metrics := f (wd_metrics w) \<rparr>"

definition registerFd :: "kernel \<Rightarrow> fd \<Rightarrow> fd \<Rightarrow> u32 \<Rightarrow> world \<Rightarrow> unit result \<times> world" where
  "registerFd K epollFd fd events w =
     (case w_epoll_ctl K epollFd EPOLL_CTL_ADD fd events w of
        (Err e, w) \<Rightarrow> (Inl (epollError ''epoll_ctl(ADD) failed'' e), w)
      | (Ok _, w) \<Rightarrow> (Inr (), w))"

definition modifyFd :: "kernel \<Rightarrow> fd \<Rightarrow> fd \<Rightarrow> u32 \<Rightarrow> world \<Rightarrow> unit result \<times> world" where
  "modifyFd K epollFd fd events w =
     (case w_epoll_ctl K epollFd EPOLL_CTL_MOD fd events w of
        (Err e, w) \<Rightarrow> (Inl (epollError ''epoll_ctl(MOD) failed'' e), w)
      | (Ok _, w) \<Rightarrow> (Inr (), w))"

definition unregisterFd :: "kernel \<Rightarrow> fd \<Rightarrow> fd \<Rightarrow> world \<Rightarrow> world" where
  "unregisterFd K epollFd fd w = (if fd \<ge> 0 then snd (w_epoll_ctl K epollFd EPOLL_CTL_DEL fd 0 w) else w)"

text \<open>Two calls in one \<^verbatim>\<open>try\<close> block: the second is not made when the first throws.\<close>

definition seq_result :: "(world \<Rightarrow> unit result \<times> world) \<Rightarrow> (world \<Rightarrow> unit result \<times> world) \<Rightarrow> world \<Rightarrow> unit result \<times> world" where
  "seq_result f g w = (case f w of (Inl e, w) \<Rightarrow> (Inl e, w) | (Inr _, w) \<Rightarrow> g w)"

section \<open>Construction, start, stop and enqueue\<close>

text \<open>
  Both descriptors are created before either is checked; leaving the constructor by an exception destroys the
  members built so far.
\<close>

definition fd_or_minus1 :: "fd sysret \<Rightarrow> fd" where
  "fd_or_minus1 r = (case r of Ok f \<Rightarrow> f | Err _ \<Rightarrow> -1)"

definition errno_of :: "'a sysret \<Rightarrow> errno \<Rightarrow> errno" where
  "errno_of r e = (case r of Ok _ \<Rightarrow> e | Err e' \<Rightarrow> e')"

definition Worker_new :: "kernel \<Rightarrow> size_t \<Rightarrow> AppConfig \<Rightarrow> world \<Rightarrow> Worker result \<times> world" where
  "Worker_new K index config w =
     (let (r1, h) = sys_epoll_create1 K (wd_os w);
          (r2, h) = sys_eventfd K h;
          w = w\<lparr> wd_os := h \<rparr>;
          epollFd = UniqueFd_new (fd_or_minus1 r1);
          wakeFd = UniqueFd_new (fd_or_minus1 r2);
          unwind = (\<lambda>w. w\<lparr> wd_os := UniqueFd_destroy epollFd (UniqueFd_destroy wakeFd (wd_os w)) \<rparr>);
          err = errno_of r2 (errno_of r1 0)
      in if \<not> UniqueFd_valid epollFd then (Inl (epollError ''epoll_create1 failed'' err), unwind w)
         else if \<not> UniqueFd_valid wakeFd then (Inl (epollError ''eventfd failed'' err), unwind w)
         else
           (case registerFd K (UniqueFd_get epollFd) (UniqueFd_get wakeFd) EPOLLIN w of
              (Inl e, w) \<Rightarrow> (Inl e, unwind w)
            | (Inr _, w) \<Rightarrow>
                (Inr \<lparr> wk_index = index, wk_config = config, wk_epollFd = epollFd, wk_wakeFd = wakeFd, wk_running = False,
                       wk_queue = [], wk_fdToSession = Map.empty, wk_sessions = [], wk_activeSessions = 0,
                       wk_nextSessionId = 1 \<rparr>, w)))"

text \<open>\<^verbatim>\<open>running_.exchange(true)\<close>; the flag says whether a thread is to be created.\<close>

definition Worker_start :: "Worker \<Rightarrow> bool \<times> Worker" where
  "Worker_start wk = (if wk_running wk then (False, wk) else (True, wk\<lparr> wk_running := True \<rparr>))"

definition Worker_stop :: "kernel \<Rightarrow> Worker \<times> world \<Rightarrow> Worker \<times> world" where
  "Worker_stop K s =
     (case s of (wk, w) \<Rightarrow>
        if \<not> wk_running wk then (wk, w)
        else (wk\<lparr> wk_running := False \<rparr>, snd (w_eventfd_write K (UniqueFd_get (wk_wakeFd wk)) w)))"

definition queueLimit :: "Worker \<Rightarrow> size_t" where
  "queueLimit wk = to_size_t (cfg_backlog (wk_config wk)) * 4"

definition enqueue :: "kernel \<Rightarrow> fd \<Rightarrow> string \<Rightarrow> Worker \<times> world \<Rightarrow> bool \<times> Worker \<times> world" where
  "enqueue K client address s =
     (case s of (wk, w) \<Rightarrow>
        if \<not> wk_running wk then (False, wk, w)
        else if of_nat (length (wk_queue wk)) \<ge> queueLimit wk then (False, wk, w)
        else
          let wk = wk\<lparr> wk_queue := wk_queue wk @ [\<lparr> ac_fd = client, ac_address = address \<rparr>] \<rparr>;
              (result, w) = w_eventfd_write K (UniqueFd_get (wk_wakeFd wk)) w
          in (result = Ok () \<or> result = Err EAGAIN, wk, w))"

definition activeSessions :: "Worker \<Rightarrow> size_t" where
  "activeSessions wk = wk_activeSessions wk"

section \<open>Sessions\<close>

definition createSession :: "kernel \<Rightarrow> AcceptedClient \<Rightarrow> Worker \<times> world \<Rightarrow> Worker \<times> world" where
  "createSession K client st =
     (case st of (wk, w) \<Rightarrow>
      let (backend, pool) = acquire (wd_pool w); w = w\<lparr> wd_pool := pool \<rparr> in
      case bl_backend backend of
        None \<Rightarrow>
          let w = w_log Warn ''worker=%zu rejected client=%s because no backend is healthy'' w;
              w = on_metrics onRejected w
          in (wk, w_close (ac_fd client) w)
      | Some b \<Rightarrow>
          let (r, h) = connectNonBlocking K (be_endpoint (bp_backends (wd_pool w) ! b)) (wd_os w);
              w = w\<lparr> wd_os := h \<rparr> in
          (case r of
             Inl e \<Rightarrow>
               let w = on_lease backend recordConnectFailure w;
                   w = on_metrics onConnectFailure w;
                   w = on_metrics onRejected w;
                   w = w_log Warn ''worker=%zu backend=%s connect failed: %s'' w;
                   w = w_close (ac_fd client) w
               in (wk, w\<lparr> wd_pool := BackendLease_destroy backend (wd_pool w) \<rparr>)
           | Inr result \<Rightarrow>
               let sessionId = wk_nextSessionId wk;
                   wk = wk\<lparr> wk_nextSessionId := wk_nextSessionId wk + 1 \<rparr>;
                   (moved, backend) = BackendLease_move backend;
                   (session, w) = ProxySession_new K sessionId (ac_fd client) (cr_fd result) (cr_connecting result) moved
                                    (cfg_bufferSize (wk_config wk)) (ac_address client) w;
                   (reg, w) = seq_result (registerFd K (epoll_fd wk) (clientFd session) (clientEvents session))
                                (registerFd K (epoll_fd wk) (upstreamFd session) (upstreamEvents session)) w
               in (case reg of
                     Inl e \<Rightarrow>
                       let w = unregisterFd K (epoll_fd wk) (clientFd session) w;
                           w = unregisterFd K (epoll_fd wk) (upstreamFd session) w;
                           w = on_metrics onRejected w;
                           w = w_log Error ''worker=%zu cannot register session=%llu: %s'' w
                       in (wk, ProxySession_destroy session w)
                   | Inr _ \<Rightarrow>
                       (wk\<lparr> wk_fdToSession := (wk_fdToSession wk)(clientFd session \<mapsto> sessionId, upstreamFd session \<mapsto> sessionId),
                            wk_sessions := AList.update sessionId session (wk_sessions wk),
                            wk_activeSessions := wk_activeSessions wk + 1 \<rparr>,
                        w_log Debug ''worker=%zu session=%llu client=%s backend=%s(%s)'' (on_metrics onOpened w)))))"

definition updateInterests :: "kernel \<Rightarrow> fd \<Rightarrow> ProxySession \<Rightarrow> world \<Rightarrow> unit result \<times> world" where
  "updateInterests K epollFd session =
     seq_result (modifyFd K epollFd (clientFd session) (clientEvents session))
       (modifyFd K epollFd (upstreamFd session) (upstreamEvents session))"

definition closeSession :: "kernel \<Rightarrow> ProxySession \<Rightarrow> Worker \<times> world \<Rightarrow> Worker \<times> world" where
  "closeSession K session st =
     (case st of (wk, w) \<Rightarrow>
      if map_of (wk_sessions wk) (px_id session) = None then (wk, w)
      else
        let w = unregisterFd K (epoll_fd wk) (clientFd session) w;
            w = unregisterFd K (epoll_fd wk) (upstreamFd session) w;
            wk = wk\<lparr> wk_fdToSession := (wk_fdToSession wk)(clientFd session := None, upstreamFd session := None),
                     wk_sessions := AList.delete (px_id session) (wk_sessions wk),
                     wk_activeSessions := wk_activeSessions wk - 1 \<rparr>;
            w = on_metrics onClosed w
        in (wk, w_log Debug ''worker=%zu session=%llu closed: %s'' w))"

fun closeSessions :: "kernel \<Rightarrow> ProxySession list \<Rightarrow> Worker \<times> world \<Rightarrow> Worker \<times> world" where
  "closeSessions K [] st = st"
| "closeSessions K (s # ss) st = closeSessions K ss (closeSession K s st)"

text \<open>A vector of session pointers goes out of scope.\<close>

fun destroySessions :: "ProxySession list \<Rightarrow> world \<Rightarrow> world" where
  "destroySessions [] w = w"
| "destroySessions (s # ss) w = destroySessions ss (ProxySession_destroy s w)"

fun drainLoop :: "kernel \<Rightarrow> AcceptedClient list \<Rightarrow> Worker \<times> world \<Rightarrow> Worker \<times> world" where
  "drainLoop K [] st = st"
| "drainLoop K (client # local) st =
     drainLoop K local
       (if \<not> wk_running (fst st) then (fst st, w_close (ac_fd client) (snd st)) else createSession K client st)"

definition drainQueue :: "kernel \<Rightarrow> Worker \<times> world \<Rightarrow> Worker \<times> world" where
  "drainQueue K st = (case st of (wk, w) \<Rightarrow> drainLoop K (wk_queue wk) (wk\<lparr> wk_queue := [] \<rparr>, w))"

fun expiredSessions :: "kernel \<Rightarrow> AppConfig \<Rightarrow> ProxySession list \<Rightarrow> world \<Rightarrow> ProxySession list \<times> world" where
  "expiredSessions K config [] w = ([], w)"
| "expiredSessions K config (s # ss) w =
     (let (timedOut, w) = connectTimedOut K (cfg_connectTimeoutMs config) s w in
      if timedOut then
        let w = on_lease (px_backend s) recordConnectFailure w;
            w = on_metrics onConnectFailure w;
            (expired, w) = expiredSessions K config ss w
        in (s # expired, w)
      else
        let (idle, w) = idleFor K (cfg_idleTimeoutSeconds config) s w;
            (expired, w) = expiredSessions K config ss w
        in (if idle then s # expired else expired, w))"

definition sweepIdleSessions :: "kernel \<Rightarrow> Worker \<times> world \<Rightarrow> Worker \<times> world" where
  "sweepIdleSessions K st =
     (case st of (wk, w) \<Rightarrow>
      let (expired, w) = expiredSessions K (wk_config wk) (map snd (wk_sessions wk)) w;
          (wk, w) = closeSessions K expired (wk, w)
      in (wk, destroySessions expired w))"

section \<open>The event loop\<close>

text \<open>\<^verbatim>\<open>while (::read(wakeFd_, ...) > 0) {}\<close>.\<close>

definition drainWake :: "kernel \<Rightarrow> fd \<Rightarrow> world \<Rightarrow> world option" where
  "drainWake K fd = forever (\<lambda>w. case w_eventfd_read K fd w of (Ok _, w) \<Rightarrow> Inr w | (Err _, w) \<Rightarrow> Inl w)"

definition handleReady :: "kernel \<Rightarrow> fd \<times> u32 \<Rightarrow> Worker \<times> world \<Rightarrow> (Worker \<times> world) option" where
  "handleReady K event st =
     (case (event, st) of ((fd, events), (wk, w)) \<Rightarrow>
      if fd = UniqueFd_get (wk_wakeFd wk) then
        do { w \<leftarrow> drainWake K (UniqueFd_get (wk_wakeFd wk)) w; Some (drainQueue K (wk, w)) }
      else
        (case Option.bind (wk_fdToSession wk fd) (map_of (wk_sessions wk)) of
           None \<Rightarrow> Some (wk, w)
         | Some session \<Rightarrow>
             if px_closing session then Some (wk, w)
             else do {
               (ok, session, w) \<leftarrow> handleEvent K fd events (session, w);
               let (session, w) =
                 (if \<not> ok then (markClosing session, w)
                  else (case updateInterests K (epoll_fd wk) session w of
                          (Inl e, w) \<Rightarrow> (markClosing session, w_log Warn ''worker=%zu session=%llu epoll update failed: %s'' w)
                        | (Inr _, w) \<Rightarrow> (session, w)))
               in Some (wk\<lparr> wk_sessions := AList.update (px_id session) session (wk_sessions wk) \<rparr>, w) }))"

fun handleBatch :: "kernel \<Rightarrow> (fd \<times> u32) list \<Rightarrow> Worker \<times> world \<Rightarrow> (Worker \<times> world) option" where
  "handleBatch K [] st = Some st"
| "handleBatch K (e # es) st = do { st \<leftarrow> handleReady K e st; handleBatch K es st }"

text \<open>The sessions to close are collected first; the vector that holds them lives to the end of the iteration.\<close>

definition closingSessions :: "Worker \<Rightarrow> ProxySession list" where
  "closingSessions wk = filter px_closing (map snd (wk_sessions wk))"

text \<open>\<^verbatim>\<open>run\<close> before its loop: the first value of \<^verbatim>\<open>lastSweep\<close>.\<close>

definition runStart :: "kernel \<Rightarrow> world \<Rightarrow> int \<times> world" where
  "runStart K w = w_now K (w_log Info ''worker=%zu started'' w)"

text \<open>One iteration of the loop in \<^verbatim>\<open>run\<close>; the flag is false when it ends by \<^verbatim>\<open>break\<close>.\<close>

definition runIteration :: "kernel \<Rightarrow> int \<times> Worker \<times> world \<Rightarrow> (bool \<times> int \<times> Worker \<times> world) option" where
  "runIteration K st =
     (case st of (lastSweep, wk, w) \<Rightarrow>
      case w_epoll_wait K (epoll_fd wk) (cfg_maxEvents (wk_config wk)) 1000 w of
        (Err e, w) \<Rightarrow>
          if e = EINTR then Some (True, lastSweep, wk, w)
          else Some (False, lastSweep, wk, w_log Error ''worker=%zu epoll_wait failed: %s'' w)
      | (Ok events, w) \<Rightarrow> do {
          (wk, w) \<leftarrow> handleBatch K events (wk, w);
          let closing = closingSessions wk;
              (wk, w) = closeSessions K closing (wk, w);
              (now, w) = w_now K w;
              (lastSweep, wk, w) =
                (if now - lastSweep \<ge> 1000000000
                 then case sweepIdleSessions K (wk, w) of (wk, w) \<Rightarrow> (now, wk, w)
                 else (lastSweep, wk, w))
          in Some (True, lastSweep, wk, destroySessions closing w) })"

fun closeQueue :: "AcceptedClient list \<Rightarrow> world \<Rightarrow> world" where
  "closeQueue [] w = w"
| "closeQueue (c # q) w = closeQueue q (w_close (ac_fd c) w)"

text \<open>What \<^verbatim>\<open>run\<close> does after its loop.\<close>

definition runExit :: "kernel \<Rightarrow> Worker \<times> world \<Rightarrow> Worker \<times> world" where
  "runExit K st =
     (let (wk, w) = drainQueue K st;
          w = closeQueue (wk_queue wk) w;
          wk = wk\<lparr> wk_queue := [] \<rparr>;
          remaining = map snd (wk_sessions wk);
          (wk, w) = closeSessions K remaining (wk, w);
          w = w_log Info ''worker=%zu stopped'' w
      in (wk, destroySessions remaining w))"

end
