(* ===== verification/WorkerSafety.thy ===== *)
theory WorkerSafety
  imports Worker "HOL-Library.Multiset"
begin

text \<open>
  The invariant of a worker and its preservation by every operation: the tables agree with each other, every
  descriptor the worker owns is open and owned once and no other is touched, the connection counts of the backends
  are base counts (those of other workers) plus the leases of its sessions, and the session gauges are exact.
\<close>

section \<open>Descriptors owned\<close>

text \<open>
  \<open>fs\<close> are the descriptors owned by the worker and by local variables of its operations, \<open>X\<close> those of the rest of
  the process.
\<close>

definition fds_ok :: "fd set \<Rightarrow> fd list \<Rightarrow> os \<Rightarrow> bool" where
  "fds_ok X fs h \<longleftrightarrow> distinct fs \<and> (\<forall>f\<in>set fs. 0 \<le> f) \<and> X \<inter> set fs = {} \<and> open_fds h = X \<union> set fs \<and> closes_ok h"

lemma fds_ok_perm: "mset fs = mset gs \<Longrightarrow> fds_ok X fs h = fds_ok X gs h"
  by (auto simp: fds_ok_def dest: mset_eq_setD mset_eq_imp_distinct_iff)

lemma fds_ok_quiet: "fds_ok X fs h \<Longrightarrow> quiet tr \<Longrightarrow> fds_ok X fs (h @ tr)"
  by (simp add: fds_ok_def quiet_def)

lemma fds_ok_close: "fds_ok X (f # fs) h \<Longrightarrow> fds_ok X fs (h @ [Close f])"
  by (auto simp: fds_ok_def)

lemma fds_ok_open:
  assumes "fds_ok X fs h" "0 \<le> f" "f \<notin> open_fds h" "open_fds h' = insert f (open_fds h)" "closes_ok h'"
  shows "fds_ok X (f # fs) h'"
  using assms by (auto simp: fds_ok_def)

section \<open>The invariant\<close>

abbreviation session_fds :: "ProxySession \<Rightarrow> fd list" where
  "session_fds s \<equiv> [clientFd s, upstreamFd s]"

text \<open>\<open>held\<close>: sessions out of the tables but still referred to; \<open>extra\<close>: accepted descriptors in local variables.\<close>

definition owned :: "Worker \<Rightarrow> ProxySession list \<Rightarrow> fd list \<Rightarrow> fd list" where
  "owned wk held extra = extra @ map ac_fd (wk_queue wk) @ concat (map (session_fds \<circ> snd) (wk_sessions wk)) @
     concat (map session_fds held) @ [UniqueFd_get (wk_epollFd wk), UniqueFd_get (wk_wakeFd wk)]"

definition session_ok :: "BackendPool \<Rightarrow> ProxySession \<Rightarrow> bool" where
  "session_ok p s \<longleftrightarrow> px_inv s \<and> (\<exists>b<length (bp_backends p). bl_backend (px_backend s) = Some b)"

definition tables_ok :: "Worker \<Rightarrow> bool" where
  "tables_ok wk \<longleftrightarrow>
     distinct (map fst (wk_sessions wk)) \<and>
     (\<forall>(i, s)\<in>set (wk_sessions wk). px_id s = i \<and> i < wk_nextSessionId wk) \<and>
     (\<forall>f i. wk_fdToSession wk f = Some i \<longleftrightarrow> (\<exists>s. (i, s) \<in> set (wk_sessions wk) \<and> f \<in> set (session_fds s))) \<and>
     unat (wk_activeSessions wk) = length (wk_sessions wk)"

abbreviation live_sessions :: "Worker \<Rightarrow> ProxySession list \<Rightarrow> ProxySession list" where
  "live_sessions wk held \<equiv> map snd (wk_sessions wk) @ held"

definition counts_ok :: "nat list \<Rightarrow> nat \<Rightarrow> Worker \<Rightarrow> ProxySession list \<Rightarrow> world \<Rightarrow> bool" where
  "counts_ok base m0 wk held w \<longleftrightarrow>
     length (bp_backends (wd_pool w)) = length base \<and>
     (\<forall>i<length base. active (wd_pool w) i = base ! i + holders (map px_backend (live_sessions wk held)) i) \<and>
     unat (mt_active (wd_metrics w)) = m0 + length (wk_sessions wk) \<and>
     length (live_sessions wk held) < unat (wk_nextSessionId wk)"

text \<open>No counter is about to wrap if \<open>n\<close> more sessions are created.\<close>

definition budget :: "nat list \<Rightarrow> nat \<Rightarrow> nat \<Rightarrow> Worker \<Rightarrow> bool" where
  "budget base m0 n wk \<longleftrightarrow> m0 + unat (wk_nextSessionId wk) + n < 2 ^ 64 \<and> (\<forall>c\<in>set base. c + unat (wk_nextSessionId wk) + n < 2 ^ 64)"

definition worker_inv ::
  "fd set \<Rightarrow> nat list \<Rightarrow> nat \<Rightarrow> Worker \<Rightarrow> ProxySession list \<Rightarrow> fd list \<Rightarrow> world \<Rightarrow> bool" where
  "worker_inv X base m0 wk held extra w \<longleftrightarrow>
     tables_ok wk \<and> fds_ok X (owned wk held extra) (wd_os w) \<and>
     (\<forall>s\<in>set (live_sessions wk held). session_ok (wd_pool w) s) \<and> counts_ok base m0 wk held w"

lemma session_ok_length: "length (bp_backends p') = length (bp_backends p) \<Longrightarrow> session_ok p' s = session_ok p s"
  by (simp add: session_ok_def)

lemma session_ok_pool [simp]: "session_ok (on_backend i f p) s = session_ok p s" "session_ok (p\<lparr> bp_tieBreaker := n \<rparr>) s = session_ok p s"
  by (simp_all add: session_ok_def)

section \<open>Steps that do not touch the tables\<close>

text \<open>A quiet stretch of calls that keeps backends' counts and the gauge.\<close>

definition calm :: "world \<Rightarrow> world \<Rightarrow> bool" where
  "calm w w' \<longleftrightarrow> (\<exists>tr. wd_os w' = wd_os w @ tr \<and> quiet tr) \<and>
     map be_activeConnections (bp_backends (wd_pool w')) = map be_activeConnections (bp_backends (wd_pool w)) \<and>
     mt_active (wd_metrics w') = mt_active (wd_metrics w)"

lemma calm_refl [simp]: "calm w w"
  by (auto simp: calm_def intro: exI [of _ "[]"])

lemma calm_trans: "calm a b \<Longrightarrow> calm b c \<Longrightarrow> calm a c"
  unfolding calm_def by (metis append.assoc quiet_simps(2))

lemma calm_active:
  assumes "calm w w'"
  shows "length (bp_backends (wd_pool w')) = length (bp_backends (wd_pool w))"
    "i < length (bp_backends (wd_pool w)) \<Longrightarrow> active (wd_pool w') i = active (wd_pool w) i"
proof -
  have m: "map be_activeConnections (bp_backends (wd_pool w')) = map be_activeConnections (bp_backends (wd_pool w))"
    using assms by (simp add: calm_def)
  show len: "length (bp_backends (wd_pool w')) = length (bp_backends (wd_pool w))" using arg_cong [OF m, of length] by simp
  show "active (wd_pool w') i = active (wd_pool w) i" if "i < length (bp_backends (wd_pool w))"
    using arg_cong [OF m, of "\<lambda>xs. xs ! i"] that len by (simp add: active_def)
qed

lemma calm_inv: "worker_inv X base m0 wk held extra w \<Longrightarrow> calm w w' \<Longrightarrow> worker_inv X base m0 wk held extra w'"
  using calm_active [of w w'] fds_ok_quiet session_ok_length [of "wd_pool w'" "wd_pool w"]
  by (auto simp: worker_inv_def counts_ok_def) (auto simp: calm_def)

lemma calm_prims [simp]:
  "calm w (w_log l m w)" "calm w (snd (w_now K w))" "calm w (snd (w_epoll_ctl K ep op fd ev w))"
  "calm w (snd (w_epoll_wait K ep n t w))" "calm w (snd (w_eventfd_read K fd w))" "calm w (snd (w_eventfd_write K fd w))"
  "calm w (on_metrics onRejected w)" "calm w (on_metrics onConnectFailure w)" "calm w (on_metrics onAccepted w)"
  "calm w (unregisterFd K ep fd w)" "calm w (snd (registerFd K ep fd ev w))" "calm w (snd (modifyFd K ep fd ev w))"
  by (auto simp: calm_def w_log_def w_now_def os_simps on_metrics_def metrics_defs quiet_def unregisterFd_def
      registerFd_def modifyFd_def split: sysret.splits)

lemma calm_on_lease:
  assumes "\<And>b. be_activeConnections (f b) = be_activeConnections b"
  shows "calm w (on_lease l f w)"
proof -
  have "map be_activeConnections (xs[i := f (xs ! i)]) = map be_activeConnections xs" for i xs
    by (cases "i < length xs") (simp_all add: map_update assms list_update_same_conv list_update_beyond)
  then show ?thesis by (auto simp: calm_def on_lease_def on_backend_def split: option.splits intro: exI [of _ "[]"])
qed

lemma calm_record [simp]: "calm w (on_lease l recordConnectFailure w)" "calm w (on_lease l recordConnectSuccess w)"
  by (rule calm_on_lease; simp add: recordConnectFailure_def recordConnectSuccess_def)+

lemma calm_seq_result:
  "(\<And>w. calm w (snd (f w))) \<Longrightarrow> (\<And>w. calm w (snd (g w))) \<Longrightarrow> calm w (snd (seq_result f g w))"
  unfolding seq_result_def by (auto split: prod.splits sum.splits) (metis calm_trans snd_conv)+

lemma calm_updateInterests [simp]: "calm w (snd (updateInterests K ep s w))"
  unfolding updateInterests_def by (intro calm_seq_result) simp_all

section \<open>Tables as association lists\<close>

lemma alist_update_fresh: "k \<notin> fst ` set xs \<Longrightarrow> AList.update k v xs = xs @ [(k, v)]"
  by (induction xs) auto

lemma alist_update_map:
  "map_of xs k = Some v \<Longrightarrow> distinct (map fst xs) \<Longrightarrow> g v' = g v \<Longrightarrow> map (g \<circ> snd) (AList.update k v' xs) = map (g \<circ> snd) xs"
  by (induction xs) auto

lemma distinct_keys: "distinct (map fst (x # xs)) \<Longrightarrow> y \<in> set xs \<Longrightarrow> fst y \<noteq> fst x"
  by (auto simp: rev_image_eqI)

lemma alist_update_set:
  "distinct (map fst xs) \<Longrightarrow> k \<in> fst ` set xs \<Longrightarrow>
     set (AList.update k v xs) = insert (k, v) {x \<in> set xs. fst x \<noteq> k} \<and> map fst (AList.update k v xs) = map fst xs"
proof (induction xs)
  case (Cons x xs)
  show ?case using Cons distinct_keys [OF Cons.prems(1)] by (cases x; cases "fst x = k") auto
qed simp

lemma alist_delete_mset:
  "(k, v) \<in> set xs \<Longrightarrow> distinct (map fst xs) \<Longrightarrow> mset xs = add_mset (k, v) (mset (AList.delete k xs))"
proof (induction xs)
  case (Cons x xs)
  show ?case
  proof (cases "fst x = k")
    case True
    then have k: "k \<notin> fst ` set xs" using Cons.prems(2) by simp
    then have "AList.delete k xs = xs" "(k, v) \<notin> set xs" by (auto simp: delete_id rev_image_eqI)
    then show ?thesis using True Cons.prems by (cases x) simp
  next
    case False
    then show ?thesis using Cons by (cases x) (auto simp: AList.delete_eq)
  qed
qed simp

lemma mset_concat_map: "mset (concat (map g xs)) = (\<Sum>x\<in>#mset xs. mset (g x))"
  by (induction xs) simp_all

lemma owned_mset:
  "mset (owned wk held extra) = mset extra + mset (map ac_fd (wk_queue wk)) +
     (\<Sum>s\<in>#mset (live_sessions wk held). mset (session_fds s)) +
     {# UniqueFd_get (wk_epollFd wk), UniqueFd_get (wk_wakeFd wk) #}"
proof -
  have "mset (concat (map (session_fds \<circ> snd) xs)) = (\<Sum>s\<in>#mset (map snd xs). mset (session_fds s))" for xs :: "(u64 \<times> ProxySession) list"
    using mset_concat_map [of session_fds "map snd xs"] by simp
  then show ?thesis by (simp add: owned_def mset_concat_map [of session_fds])
qed

lemma holders_mset: "mset ls = mset ls' \<Longrightarrow> holders ls i = holders ls' i"
  unfolding holders_def by (metis mset_filter size_mset)

text \<open>Two owners never share a descriptor.\<close>

lemma distinct_fds_disjoint:
  assumes "distinct (concat (map (session_fds \<circ> snd) xs))" "(i, s) \<in> set xs" "(j, t) \<in> set xs" "(i, s) \<noteq> (j, t)"
  shows "set (session_fds s) \<inter> set (session_fds t) = {}"
  using assms
proof (induction xs)
  case (Cons x xs)
  have sub: "set (session_fds (snd y)) \<subseteq> set (concat (map (\<lambda>a. session_fds (snd a)) xs))" if "y \<in> set xs" for y
    using that by force
  show ?case
    using Cons sub [of "(i, s)"] sub [of "(j, t)"] by (auto simp: comp_def simp del: set_concat)
qed simp

section \<open>Closing and destroying sessions\<close>

lemma worker_inv_perm:
  assumes "mset held = mset held'" "mset extra = mset extra'"
  shows "worker_inv X base m0 wk held extra w = worker_inv X base m0 wk held' extra' w"
proof -
  have "mset (owned wk held extra) = mset (owned wk held' extra')" using assms by (simp add: owned_mset)
  moreover have "set held = set held'" "length held = length held'" using assms(1) by (metis set_mset_mset, metis size_mset)
  moreover have "holders (map px_backend held) i = holders (map px_backend held') i" for i
    by (rule holders_mset) (simp add: assms(1))
  ultimately show ?thesis using fds_ok_perm [of "owned wk held extra" "owned wk held' extra'"] by (simp add: worker_inv_def counts_ok_def)
qed

lemma UniqueFd_destroy_open: "0 \<le> UniqueFd_get u \<Longrightarrow> UniqueFd_destroy u h = h @ [Close (UniqueFd_get u)]"
  by (simp add: UniqueFd_destroy_def UniqueFd_reset_def UniqueFd_get_def os_simps)

text \<open>The last reference to a session goes away: both sockets are closed once and the lease is given back.\<close>

lemma held_fds:
  assumes "worker_inv X base m0 wk (s # held) extra w"
  shows "fds_ok X (upstreamFd s # clientFd s # owned wk held extra) (wd_os w)"
proof -
  have "fds_ok X (owned wk (s # held) extra) (wd_os w)" using assms by (simp add: worker_inv_def)
  moreover have "mset (owned wk (s # held) extra) = mset (upstreamFd s # clientFd s # owned wk held extra)"
    by (simp add: owned_mset)
  ultimately show ?thesis using fds_ok_perm by blast
qed

lemma destroy_os:
  assumes "worker_inv X base m0 wk (s # held) extra w"
  shows "wd_os (ProxySession_destroy s w) = (wd_os w @ [Close (upstreamFd s)]) @ [Close (clientFd s)]"
proof -
  have "0 \<le> upstreamFd s" "0 \<le> clientFd s" using held_fds [OF assms] by (simp_all add: fds_ok_def)
  then show ?thesis by (simp add: ProxySession_destroy_def UniqueFd_destroy_open)
qed

lemma destroy_inv:
  assumes "worker_inv X base m0 wk (s # held) extra w"
  shows "worker_inv X base m0 wk held extra (ProxySession_destroy s w)"
proof -
  note f = held_fds [OF assms] and os = destroy_os [OF assms]
  obtain b where b: "b < length (bp_backends (wd_pool w))" "bl_backend (px_backend s) = Some b"
    using assms by (auto simp: worker_inv_def session_ok_def)
  then have pool: "wd_pool (ProxySession_destroy s w) = on_backend b Backend_release (wd_pool w)"
    by (simp add: ProxySession_destroy_def lease_defs)
  have "wd_metrics (ProxySession_destroy s w) = wd_metrics w" by (simp add: ProxySession_destroy_def)
  then show ?thesis
    using assms fds_ok_close [OF fds_ok_close [OF f]] b
    by (auto simp: worker_inv_def os pool counts_ok_def active_on_backend connections.unat_dec simp flip: active_def)
qed

lemma destroySessions_inv:
  "worker_inv X base m0 wk (ss @ held) extra w \<Longrightarrow> worker_inv X base m0 wk held extra (destroySessions ss w)"
  by (induction ss arbitrary: w) (auto dest: destroy_inv)

text \<open>What every operation of a worker leaves alone.\<close>

definition same_worker :: "Worker \<Rightarrow> Worker \<Rightarrow> bool" where
  "same_worker wk wk' \<longleftrightarrow> wk_index wk' = wk_index wk \<and> wk_config wk' = wk_config wk \<and> wk_epollFd wk' = wk_epollFd wk \<and>
     wk_wakeFd wk' = wk_wakeFd wk \<and> wk_running wk' = wk_running wk"

lemma same_worker_refl [simp]: "same_worker wk wk"
  by (simp add: same_worker_def)

lemma same_worker_trans: "same_worker a b \<Longrightarrow> same_worker b c \<Longrightarrow> same_worker a c"
  by (simp add: same_worker_def)

lemma sessions_distinct:
  assumes "worker_inv X base m0 wk held extra w"
  shows "distinct (concat (map (session_fds \<circ> snd) (wk_sessions wk)))"
  using assms by (simp add: worker_inv_def fds_ok_def owned_def)

lemma session_in_table: "tables_ok wk \<Longrightarrow> (i, s) \<in> set (wk_sessions wk) \<Longrightarrow> px_id s = i \<and> map_of (wk_sessions wk) i = Some s"
  by (auto simp: tables_ok_def)

lemma alist_delete_set: "set (AList.delete k xs) = {x \<in> set xs. fst x \<noteq> k}"
  by (auto simp: AList.delete_eq)

text \<open>The table after a session is erased and its two descriptors are forgotten.\<close>

lemma tables_ok_erase:
  assumes "tables_ok wk" "distinct (concat (map (session_fds \<circ> snd) (wk_sessions wk)))" "(px_id s, s) \<in> set (wk_sessions wk)"
  shows "tables_ok (wk\<lparr> wk_fdToSession := (wk_fdToSession wk)(clientFd s := None, upstreamFd s := None),
    wk_sessions := AList.delete (px_id s) (wk_sessions wk), wk_activeSessions := wk_activeSessions wk - 1 \<rparr>)"
    (is "tables_ok ?wk")
proof -
  have keys: "distinct (map fst (wk_sessions wk))" and ids: "\<forall>(i, s)\<in>set (wk_sessions wk). px_id s = i \<and> i < wk_nextSessionId wk"
    and fds: "\<And>f i. wk_fdToSession wk f = Some i \<longleftrightarrow> (\<exists>t. (i, t) \<in> set (wk_sessions wk) \<and> f \<in> set (session_fds t))"
    and act: "unat (wk_activeSessions wk) = length (wk_sessions wk)"
    using assms(1) by (simp_all add: tables_ok_def)
  have other: "set (session_fds s) \<inter> set (session_fds t) = {}" if "(i, t) \<in> set (wk_sessions wk)" "i \<noteq> px_id s" for i t
    using distinct_fds_disjoint [OF assms(2,3) that(1)] that(2) by blast
  have own: "t = s" if "(px_id s, t) \<in> set (wk_sessions wk)" for t
    using that assms(3) keys by (metis map_of_eq_Some_iff option.inject)
  have "wk_fdToSession ?wk f = Some i \<longleftrightarrow> (\<exists>t. (i, t) \<in> set (wk_sessions ?wk) \<and> f \<in> set (session_fds t))" for f i
  proof (cases "f \<in> set (session_fds s)")
    case True
    then have "wk_fdToSession ?wk f = None" by auto
    moreover have "f \<notin> set (session_fds t)" if "(i, t) \<in> set (wk_sessions wk)" "i \<noteq> px_id s" for t
      using other [OF that] True by blast
    ultimately show ?thesis by (auto simp: alist_delete_set simp del: set_simps)
  next
    case False
    then have "wk_fdToSession ?wk f = wk_fdToSession wk f" by simp
    moreover have "i \<noteq> px_id s" if "(i, t) \<in> set (wk_sessions wk)" "f \<in> set (session_fds t)" for t
      using that False own by blast
    ultimately show ?thesis by (auto simp: alist_delete_set fds simp del: set_simps)
  qed
  moreover have "unat (wk_activeSessions ?wk) = length (wk_sessions ?wk)"
  proof -
    have "length (wk_sessions wk) = Suc (length (AList.delete (px_id s) (wk_sessions wk)))"
      using alist_delete_mset [OF assms(3) keys] by (metis size_add_mset size_mset)
    then show ?thesis using act by (simp add: unat_minus_no_wrap)
  qed
  moreover have "distinct (map fst (wk_sessions ?wk))" using keys by (simp add: AList.distinct_delete)
  ultimately show ?thesis using ids by (auto simp: tables_ok_def alist_delete_set)
qed

text \<open>A session moves from the table to the vector that still holds it.\<close>

lemma worker_inv_erase:
  assumes inv: "worker_inv X base m0 wk held extra w" and s: "(px_id s, s) \<in> set (wk_sessions wk)"
  shows "worker_inv X base m0 (wk\<lparr> wk_fdToSession := (wk_fdToSession wk)(clientFd s := None, upstreamFd s := None),
    wk_sessions := AList.delete (px_id s) (wk_sessions wk), wk_activeSessions := wk_activeSessions wk - 1 \<rparr>)
    (s # held) extra (on_metrics onClosed w)" (is "worker_inv X base m0 ?wk _ _ ?w")
proof -
  have tb: "tables_ok wk" using inv by (simp add: worker_inv_def)
  then have m: "mset (wk_sessions wk) = add_mset (px_id s, s) (mset (AList.delete (px_id s) (wk_sessions wk)))"
    by (intro alist_delete_mset s) (simp add: tables_ok_def)
  then have live: "mset (live_sessions ?wk (s # held)) = mset (live_sessions wk held)" by simp
  then have set_live: "set (live_sessions ?wk (s # held)) = set (live_sessions wk held)" by (metis set_mset_mset)
  have len: "length (live_sessions ?wk (s # held)) = length (live_sessions wk held)" using live by (metis size_mset)
  have h: "holders (map px_backend (live_sessions ?wk (s # held))) i = holders (map px_backend (live_sessions wk held)) i" for i
    by (rule holders_mset) (simp only: mset_map live)
  have own: "mset (owned ?wk (s # held) extra) = mset (owned wk held extra)" unfolding owned_mset live by simp
  have act: "unat (mt_active (wd_metrics ?w)) = unat (mt_active (wd_metrics w)) - 1"
    by (simp add: on_metrics_def sessions.unat_dec)
  have "length (wk_sessions wk) = Suc (length (wk_sessions ?wk))" using arg_cong [OF m, of size] by simp
  then have c: "counts_ok base m0 ?wk (s # held) ?w"
    using inv act len unfolding worker_inv_def counts_ok_def h by (auto simp: on_metrics_def)
  have fd: "fds_ok X (owned ?wk (s # held) extra) (wd_os ?w)"
    using inv fds_ok_perm [OF own] by (simp add: worker_inv_def on_metrics_def)
  show ?thesis
    unfolding worker_inv_def set_live
    using tables_ok_erase [OF tb sessions_distinct [OF inv] s] fd c inv by (simp add: worker_inv_def on_metrics_def)
qed

lemma closeSession_inv:
  assumes inv: "worker_inv X base m0 wk held extra w" and s: "(px_id s, s) \<in> set (wk_sessions wk)"
    and eq: "closeSession K s (wk, w) = (wk', w')"
  shows "worker_inv X base m0 wk' (s # held) extra w'" "wk_sessions wk' = AList.delete (px_id s) (wk_sessions wk)"
    "same_worker wk wk'" "wk_queue wk' = wk_queue wk" "wk_nextSessionId wk' = wk_nextSessionId wk"
proof -
  let ?w = "unregisterFd K (epoll_fd wk) (upstreamFd s) (unregisterFd K (epoll_fd wk) (clientFd s) w)"
  have "map_of (wk_sessions wk) (px_id s) \<noteq> None"
    using session_in_table [of wk "px_id s" s] inv s by (simp add: worker_inv_def)
  then have e: "wk' = wk\<lparr> wk_fdToSession := (wk_fdToSession wk)(clientFd s := None, upstreamFd s := None),
      wk_sessions := AList.delete (px_id s) (wk_sessions wk), wk_activeSessions := wk_activeSessions wk - 1 \<rparr>"
    "w' = w_log Debug ''worker=%zu session=%llu closed: %s'' (on_metrics onClosed ?w)"
    using eq by (auto simp: closeSession_def Let_def)
  have "calm w ?w" using calm_trans calm_prims(10) by blast
  from worker_inv_erase [OF calm_inv [OF inv this] s] calm_inv [OF _ calm_prims(1)]
  show "worker_inv X base m0 wk' (s # held) extra w'" unfolding e by blast
  show "wk_sessions wk' = AList.delete (px_id s) (wk_sessions wk)" "same_worker wk wk'" "wk_queue wk' = wk_queue wk"
    "wk_nextSessionId wk' = wk_nextSessionId wk" unfolding e by (simp_all add: same_worker_def)
qed

lemma closeSessions_inv:
  assumes "worker_inv X base m0 wk held extra w" "distinct (map px_id ss)" "\<forall>s\<in>set ss. (px_id s, s) \<in> set (wk_sessions wk)"
    "closeSessions K ss (wk, w) = (wk', w')"
  shows "worker_inv X base m0 wk' (ss @ held) extra w' \<and> set (wk_sessions wk') = {x \<in> set (wk_sessions wk). fst x \<notin> px_id ` set ss} \<and>
    same_worker wk wk' \<and> wk_queue wk' = wk_queue wk \<and> wk_nextSessionId wk' = wk_nextSessionId wk"
  using assms
proof (induction ss arbitrary: wk w held)
  case (Cons s ss)
  obtain wk1 w1 where c: "closeSession K s (wk, w) = (wk1, w1)" by (cases "closeSession K s (wk, w)")
  note s = closeSession_inv [OF Cons.prems(1) _ c]
  have ins: "(px_id s, s) \<in> set (wk_sessions wk)" using Cons.prems(3) by simp
  have "\<forall>t\<in>set ss. (px_id t, t) \<in> set (wk_sessions wk1)"
    using Cons.prems(2,3) ins by (auto simp: s(2) alist_delete_set rev_image_eqI)
  from Cons.IH [OF s(1) [OF ins] _ this] Cons.prems(2,4) c
  have IH: "worker_inv X base m0 wk' (ss @ s # held) extra w'" "set (wk_sessions wk') = {x \<in> set (wk_sessions wk1). fst x \<notin> px_id ` set ss}"
    "same_worker wk1 wk'" "wk_queue wk' = wk_queue wk1" "wk_nextSessionId wk' = wk_nextSessionId wk1" by auto
  moreover have "worker_inv X base m0 wk' ((s # ss) @ held) extra w'"
    using IH(1) worker_inv_perm [of "ss @ s # held" "(s # ss) @ held" extra extra] by simp
  ultimately show ?case using s ins by (auto simp: alist_delete_set dest: same_worker_trans)
qed auto

section \<open>Creating sessions\<close>

lemma budget_mono: "budget base m0 n wk \<Longrightarrow> k \<le> n \<Longrightarrow> budget base m0 k wk"
  unfolding budget_def by (meson add_left_mono le_less_trans)

lemma budget_next:
  assumes "budget base m0 (Suc n) wk" "wk_nextSessionId wk' = wk_nextSessionId wk + 1"
  shows "budget base m0 n wk'" "unat (wk_nextSessionId wk') = unat (wk_nextSessionId wk) + 1"
proof -
  have "unat (wk_nextSessionId wk) + 1 < 2 ^ 64" using assms(1) by (simp add: budget_def)
  then show nxt: "unat (wk_nextSessionId wk') = unat (wk_nextSessionId wk) + 1" by (simp add: assms(2) unat_plus_no_wrap)
  show "budget base m0 n wk'" using assms(1) by (simp add: budget_def nxt)
qed

lemma close_inv: "worker_inv X base m0 wk held (f # extra) w \<Longrightarrow> worker_inv X base m0 wk held extra (w_close f w)"
  using fds_ok_close [of X f "owned wk held extra" "wd_os w"]
  by (simp add: worker_inv_def owned_def w_close_def os_simps counts_ok_def)

lemma open_inv:
  assumes "worker_inv X base m0 wk held extra w" "0 \<le> f" "f \<notin> open_fds (wd_os w)" "open_fds h = insert f (open_fds (wd_os w))" "closes_ok h"
  shows "worker_inv X base m0 wk held (f # extra) (w\<lparr> wd_os := h \<rparr>)"
  using assms fds_ok_open [of X "owned wk held extra" "wd_os w" f h] by (simp add: worker_inv_def owned_def counts_ok_def)

lemma same_open_inv:
  "worker_inv X base m0 wk held extra w \<Longrightarrow> open_fds h = open_fds (wd_os w) \<Longrightarrow> closes_ok h \<Longrightarrow>
     worker_inv X base m0 wk held extra (w\<lparr> wd_os := h \<rparr>)"
  by (simp add: worker_inv_def counts_ok_def fds_ok_def)

text \<open>A lease in a local variable is one more connection in the base count of its backend.\<close>

lemma acquire_inv:
  assumes inv: "worker_inv X base m0 wk held extra w" and bud: "budget base m0 n wk"
    and eq: "acquire (wd_pool w) = (l, p)"
  shows "case bl_backend l of
      None \<Rightarrow> worker_inv X base m0 wk held extra (w\<lparr> wd_pool := p \<rparr>)
    | Some b \<Rightarrow> b < length (bp_backends p) \<and> worker_inv X (base[b := base ! b + 1]) m0 wk held extra (w\<lparr> wd_pool := p \<rparr>)"
proof -
  let ?bs = "bp_backends (wd_pool w)"
  let ?q = "(wd_pool w)\<lparr> bp_tieBreaker := bp_tieBreaker (wd_pool w) + 1 \<rparr>"
  define sel where "sel = acquire_loop ?bs (unat (bp_tieBreaker (wd_pool w)) mod length ?bs) 0 None"
  have e: "l = \<lparr> bl_backend = sel \<rparr>" "p = (case sel of None \<Rightarrow> ?q | Some i \<Rightarrow> on_backend i Backend_acquire ?q)"
    using eq by (simp_all add: acquire_def Let_def BackendLease_new_def sel_def)
  show ?thesis
  proof (cases sel)
    case None
    then show ?thesis using inv e calm_inv [OF inv, of "w\<lparr> wd_pool := ?q \<rparr>"] by (simp add: calm_def)
  next
    case (Some b)
    then have b: "b < length ?bs" using acquire_loop_index by (simp add: sel_def)
    have act: "active (wd_pool w) b = base ! b + holders (map px_backend (live_sessions wk held)) b"
      and len: "length (live_sessions wk held) < unat (wk_nextSessionId wk)"
      using inv b by (simp_all add: worker_inv_def counts_ok_def)
    then have "active (wd_pool w) b < base ! b + unat (wk_nextSessionId wk)"
      using holders_le [of "map px_backend (live_sessions wk held)" b] by simp
    moreover have "base ! b + unat (wk_nextSessionId wk) + n < 2 ^ 64"
      using bud b inv by (simp add: budget_def worker_inv_def counts_ok_def)
    ultimately have "unat (be_activeConnections (?bs ! b)) + 1 < 2 ^ 64" unfolding active_def by linarith
    from connections.unat_inc [OF this]
    have "worker_inv X (base[b := base ! b + 1]) m0 wk held extra (w\<lparr> wd_pool := on_backend b Backend_acquire ?q \<rparr>)"
      using inv b by (auto simp: worker_inv_def counts_ok_def active_on_backend nth_list_update simp flip: active_def)
    then show ?thesis using e Some b by simp
  qed
qed

lemma release_inv:
  assumes "worker_inv X (base[b := base ! b + 1]) m0 wk held extra w" "b < length (bp_backends (wd_pool w))"
  shows "worker_inv X base m0 wk held extra (w\<lparr> wd_pool := on_backend b Backend_release (wd_pool w) \<rparr>)"
  using assms by (auto simp: worker_inv_def counts_ok_def active_on_backend connections.unat_dec nth_list_update split: if_split_asm simp flip: active_def)

text \<open>The new session object takes over the two descriptors and the lease.\<close>

lemma session_inv_new:
  assumes inv: "worker_inv X (base[b := base ! b + 1]) m0 wk held (c # u # extra) w" and b: "b < length (bp_backends (wd_pool w))"
    and bud: "budget base m0 1 wk"
    and eq: "ProxySession_new K (wk_nextSessionId wk) c u con \<lparr> bl_backend = Some b \<rparr> sz addr w = (s, w')"
  shows "worker_inv X base m0 (wk\<lparr> wk_nextSessionId := wk_nextSessionId wk + 1 \<rparr>) (s # held) extra w'"
    (is "worker_inv X base m0 ?wk _ _ _")
proof -
  have s: "clientFd s = c" "upstreamFd s = u" "px_backend s = \<lparr> bl_backend = Some b \<rparr>"
    using eq by (auto simp: ProxySession_new_def Let_def UniqueFd_new_def UniqueFd_get_def split: prod.splits)
  have "fds_ok X (owned wk held (c # u # extra)) (wd_os w)" using inv by (simp add: worker_inv_def)
  then have cu: "c \<noteq> u" by (simp add: fds_ok_def owned_def)
  have ps: "px_inv s" using eq cu by (rule new_session)
  have nxt: "unat (wk_nextSessionId wk + 1) = unat (wk_nextSessionId wk) + 1"
    using budget_next(2) [of base m0 0 wk ?wk] bud by simp
  have "w' = snd (w_now K w) \<or> w' = on_lease (px_backend s) recordConnectSuccess (snd (w_now K w))"
    using eq by (auto simp: ProxySession_new_def Let_def split: prod.splits if_split_asm)
  then have cw: "calm w w'" using calm_trans [OF calm_prims(2) calm_record(2)] by auto
  have "mset (owned ?wk (s # held) extra) = mset (owned wk held (c # u # extra))" by (simp add: owned_mset s)
  then have "fds_ok X (owned ?wk (s # held) extra) (wd_os w)"
    using inv fds_ok_perm [of "owned ?wk (s # held) extra"] by (simp add: worker_inv_def)
  moreover have "tables_ok ?wk"
    using inv nxt by (auto simp: worker_inv_def tables_ok_def word_less_nat_alt)
  moreover have "counts_ok base m0 ?wk (s # held) w"
    using inv nxt by (auto simp: worker_inv_def counts_ok_def s)
  ultimately have "worker_inv X base m0 ?wk (s # held) extra w"
    using inv ps b by (auto simp: worker_inv_def session_ok_def s)
  then show ?thesis using cw by (rule calm_inv)
qed

text \<open>Publishing a session in the tables, the reverse of erasing it.\<close>

lemma publish_inv:
  assumes inv: "worker_inv X base m0 wk (s # held) extra w" and bud: "budget base m0 0 wk"
    and fresh: "px_id s \<notin> fst ` set (wk_sessions wk)" "px_id s < wk_nextSessionId wk"
  shows "worker_inv X base m0 (wk\<lparr> wk_fdToSession := (wk_fdToSession wk)(clientFd s \<mapsto> px_id s, upstreamFd s \<mapsto> px_id s),
    wk_sessions := AList.update (px_id s) s (wk_sessions wk), wk_activeSessions := wk_activeSessions wk + 1 \<rparr>)
    held extra (on_metrics onOpened w)" (is "worker_inv X base m0 ?wk _ _ ?w")
proof -
  note upd = alist_update_fresh [OF fresh(1), of s]
  have tb: "tables_ok wk" and len: "length (live_sessions wk (s # held)) < unat (wk_nextSessionId wk)"
    and mt: "unat (mt_active (wd_metrics w)) = m0 + length (wk_sessions wk)" using inv by (simp_all add: worker_inv_def counts_ok_def)
  have lt: "m0 + unat (wk_nextSessionId wk) < 2 ^ 64" "unat (wk_nextSessionId wk) < 2 ^ 64" using bud by (simp_all add: budget_def)
  have "unat (mt_active (wd_metrics w)) + 1 < 2 ^ 64" using mt len lt(1) by simp
  then have mt': "unat (mt_active (wd_metrics ?w)) = m0 + length (wk_sessions ?wk)"
    using mt by (simp add: on_metrics_def sessions.unat_inc upd)
  have "unat (wk_activeSessions wk) = length (wk_sessions wk)" using tb by (simp add: tables_ok_def)
  then have act: "unat (wk_activeSessions ?wk) = length (wk_sessions ?wk)"
    using len lt(2) by (simp add: upd unat_plus_no_wrap)
  have dist: "set (session_fds s) \<inter> set (session_fds t) = {}" if "(i, t) \<in> set (wk_sessions wk)" for i t
  proof -
    have "set (concat (map (session_fds \<circ> snd) (wk_sessions wk))) \<inter> set (session_fds s) = {}"
      using inv by (simp add: worker_inv_def fds_ok_def owned_def del: set_concat)
    moreover have "set (session_fds t) \<subseteq> set (concat (map (session_fds \<circ> snd) (wk_sessions wk)))" using that by force
    ultimately show ?thesis by blast
  qed
  have memb: "(i, t) \<in> set (wk_sessions ?wk) \<longleftrightarrow> (i, t) \<in> set (wk_sessions wk) \<or> i = px_id s \<and> t = s" for i t by (auto simp: upd)
  have "wk_fdToSession ?wk f = Some i \<longleftrightarrow> (\<exists>t. (i, t) \<in> set (wk_sessions ?wk) \<and> f \<in> set (session_fds t))" for f i
  proof (cases "f \<in> set (session_fds s)")
    case True
    then have "wk_fdToSession ?wk f = Some (px_id s)" by auto
    moreover have "f \<notin> set (session_fds t)" if "(j, t) \<in> set (wk_sessions wk)" for j t using dist [OF that] True by blast
    ultimately show ?thesis using True unfolding memb by auto
  next
    case False
    then have "wk_fdToSession ?wk f = wk_fdToSession wk f" by simp
    moreover have "wk_fdToSession wk f = Some i \<longleftrightarrow> (\<exists>t. (i, t) \<in> set (wk_sessions wk) \<and> f \<in> set (session_fds t))"
      using tb unfolding tables_ok_def by blast
    ultimately show ?thesis using False unfolding memb by auto
  qed
  then have "tables_ok ?wk" using tb act fresh by (auto simp: tables_ok_def upd)
  moreover have live: "mset (live_sessions ?wk held) = mset (live_sessions wk (s # held))" by (simp add: upd)
  have "fds_ok X (owned ?wk held extra) (wd_os ?w)"
    using inv fds_ok_perm [of "owned ?wk held extra" "owned wk (s # held) extra"] unfolding owned_mset live
    by (simp add: worker_inv_def on_metrics_def)
  moreover have "counts_ok base m0 ?wk held ?w"
    using inv mt' len by (auto simp: worker_inv_def counts_ok_def upd on_metrics_def)
  ultimately show ?thesis using inv by (auto simp: worker_inv_def upd on_metrics_def)
qed

text \<open>Registration of a new session: the outcome of the \<^verbatim>\<open>try\<close> block decides between publishing and dropping it.\<close>

lemma seq_register_calm: "seq_result (registerFd K ep a ea) (registerFd K ep b eb) w = (r, w') \<Longrightarrow> calm w w'"
  using calm_seq_result [of "registerFd K ep a ea" "registerFd K ep b eb" w] by simp

text \<open>After the connect: the session object exists, registration decides between publishing and dropping it.\<close>

definition register_session :: "kernel \<Rightarrow> Worker \<Rightarrow> ProxySession \<Rightarrow> world \<Rightarrow> Worker \<times> world" where
  "register_session K wk s w =
     (case seq_result (registerFd K (epoll_fd wk) (clientFd s) (clientEvents s)) (registerFd K (epoll_fd wk) (upstreamFd s) (upstreamEvents s)) w of
        (Inl e, w) \<Rightarrow>
          (wk, ProxySession_destroy s (w_log Error ''worker=%zu cannot register session=%llu: %s'' (on_metrics onRejected
             (unregisterFd K (epoll_fd wk) (upstreamFd s) (unregisterFd K (epoll_fd wk) (clientFd s) w)))))
      | (Inr _, w) \<Rightarrow>
          (wk\<lparr> wk_fdToSession := (wk_fdToSession wk)(clientFd s \<mapsto> px_id s, upstreamFd s \<mapsto> px_id s),
               wk_sessions := AList.update (px_id s) s (wk_sessions wk),
               wk_activeSessions := wk_activeSessions wk + 1 \<rparr>,
           w_log Debug ''worker=%zu session=%llu client=%s backend=%s(%s)'' (on_metrics onOpened w)))"

lemma register_session_inv:
  assumes inv: "worker_inv X base m0 wk (s # held) extra w" and bud: "budget base m0 0 wk"
    and fresh: "px_id s \<notin> fst ` set (wk_sessions wk)" "px_id s < wk_nextSessionId wk"
    and eq: "register_session K wk s w = (wk', w')"
  shows "worker_inv X base m0 wk' held extra w' \<and> same_worker wk wk' \<and> wk_queue wk' = wk_queue wk \<and>
    wk_nextSessionId wk' = wk_nextSessionId wk"
proof -
  obtain reg w3 where reg: "seq_result (registerFd K (epoll_fd wk) (clientFd s) (clientEvents s)) (registerFd K (epoll_fd wk) (upstreamFd s) (upstreamEvents s)) w
      = (reg, w3)" by fastforce
  note i3 = calm_inv [OF inv seq_register_calm [OF reg]]
  have "calm w3 (w_log Error ''worker=%zu cannot register session=%llu: %s'' (on_metrics onRejected
      (unregisterFd K (epoll_fd wk) (upstreamFd s) (unregisterFd K (epoll_fd wk) (clientFd s) w3))))" by (meson calm_trans calm_prims)
  note drop = destroy_inv [OF calm_inv [OF i3 this]]
  note publish = calm_inv [OF publish_inv [OF i3 bud fresh] calm_prims(1)]
  show ?thesis
    using eq reg drop publish by (cases reg) (auto simp: register_session_def same_worker_def)
qed

lemma createSession_connected:
  assumes "acquire (wd_pool w) = (\<lparr> bl_backend = Some b \<rparr>, p)"
    "connectNonBlocking K (be_endpoint (bp_backends p ! b)) (wd_os w) = (Inr res, h)"
    "ProxySession_new K (wk_nextSessionId wk) (ac_fd c) (cr_fd res) (cr_connecting res) \<lparr> bl_backend = Some b \<rparr>
       (cfg_bufferSize (wk_config wk)) (ac_address c) (w\<lparr> wd_pool := p, wd_os := h \<rparr>) = (s, w2)"
  shows "createSession K c (wk, w) = register_session K (wk\<lparr> wk_nextSessionId := wk_nextSessionId wk + 1 \<rparr>) s w2"
proof -
  obtain reg w3 where reg: "seq_result (registerFd K (epoll_fd wk) (clientFd s) (clientEvents s))
      (registerFd K (epoll_fd wk) (upstreamFd s) (upstreamEvents s)) w2 = (reg, w3)" by fastforce
  have ident: "px_id s = wk_nextSessionId wk" using assms(3) by (auto simp: ProxySession_new_def Let_def split: prod.splits)
  show ?thesis
    by (cases reg) (simp_all add: createSession_def register_session_def Let_def BackendLease_move_def assms reg ident)
qed

text \<open>Up to the point where the session object exists.\<close>

lemma connected_session:
  assumes K: "fresh_fds K" and inv: "worker_inv X base m0 wk held (ac_fd c # extra) w" and bud: "budget base m0 (Suc n) wk"
    and acq: "acquire (wd_pool w) = (\<lparr> bl_backend = Some b \<rparr>, p)"
    and con: "connectNonBlocking K (be_endpoint (bp_backends p ! b)) (wd_os w) = (Inr res, h)"
    and new: "ProxySession_new K (wk_nextSessionId wk) (ac_fd c) (cr_fd res) (cr_connecting res) \<lparr> bl_backend = Some b \<rparr>
       (cfg_bufferSize (wk_config wk)) (ac_address c) (w\<lparr> wd_pool := p, wd_os := h \<rparr>) = (s, w2)"
    and wk1: "wk1 = wk\<lparr> wk_nextSessionId := wk_nextSessionId wk + 1 \<rparr>"
  shows "worker_inv X base m0 wk1 (s # held) extra w2" "budget base m0 n wk1"
    "px_id s \<notin> fst ` set (wk_sessions wk1)" "px_id s < wk_nextSessionId wk1"
proof -
  let ?base = "base[b := base ! b + 1]" and ?w1 = "w\<lparr> wd_pool := p, wd_os := h \<rparr>"
  have ib: "worker_inv X ?base m0 wk held (ac_fd c # extra) (w\<lparr> wd_pool := p \<rparr>)" and b: "b < length (bp_backends p)"
    using acquire_inv [OF inv bud acq] by simp_all
  note acc = connectNonBlocking_accounting [OF K con]
  have "closes_ok h" using acc inv by (simp add: worker_inv_def fds_ok_def)
  then have "worker_inv X ?base m0 wk held (cr_fd res # ac_fd c # extra) ?w1" using open_inv [OF ib, of "cr_fd res" h] acc by simp
  then have i1: "worker_inv X ?base m0 wk held (ac_fd c # cr_fd res # extra) ?w1"
    using worker_inv_perm [of held held "cr_fd res # ac_fd c # extra" "ac_fd c # cr_fd res # extra"] by simp
  show "worker_inv X base m0 wk1 (s # held) extra w2"
    using session_inv_new [OF i1 _ budget_mono [OF bud] new] b by (simp add: wk1)
  have ident: "px_id s = wk_nextSessionId wk" using new by (auto simp: ProxySession_new_def Let_def split: prod.splits)
  have nxt: "budget base m0 n wk1" "unat (wk_nextSessionId wk1) = unat (wk_nextSessionId wk) + 1"
    using budget_next [OF bud, of wk1] by (simp_all add: wk1)
  then show "budget base m0 n wk1" by simp
  show "px_id s \<notin> fst ` set (wk_sessions wk1)" "px_id s < wk_nextSessionId wk1"
    using inv ident nxt(2) by (auto simp: worker_inv_def tables_ok_def word_less_nat_alt wk1)
qed

lemma createSession_inv:
  assumes K: "fresh_fds K" and inv: "worker_inv X base m0 wk held (ac_fd c # extra) w" and bud: "budget base m0 (Suc n) wk"
    and eq: "createSession K c (wk, w) = (wk', w')"
  shows "worker_inv X base m0 wk' held extra w' \<and> budget base m0 n wk' \<and> same_worker wk wk' \<and> wk_queue wk' = wk_queue wk"
proof -
  obtain l p where acq: "acquire (wd_pool w) = (l, p)" by (cases "acquire (wd_pool w)")
  let ?w = "w\<lparr> wd_pool := p \<rparr>"
  note ai = acquire_inv [OF inv bud acq]
  have bud': "budget base m0 n wk" using budget_mono [OF bud] by simp
  consider (none) "bl_backend l = None" | (some) b where "l = \<lparr> bl_backend = Some b \<rparr>" by (cases l) auto
  then show ?thesis
  proof cases
    case none
    have "calm ?w (on_metrics onRejected (w_log lvl m ?w))" for lvl m using calm_trans calm_prims(1,7) by blast
    from close_inv [OF calm_inv [OF _ this]] show ?thesis
      using eq acq ai none bud' by (auto simp: createSession_def Let_def)
  next
    case (some b)
    from ai some have ib: "worker_inv X (base[b := base ! b + 1]) m0 wk held (ac_fd c # extra) ?w" and b: "b < length (bp_backends p)" by simp_all
    obtain r h where con: "connectNonBlocking K (be_endpoint (bp_backends p ! b)) (wd_os w) = (r, h)" by fastforce
    let ?w1 = "?w\<lparr> wd_os := h \<rparr>"
    show ?thesis
    proof (cases r)
      case (Inl e)
      note acc = connectNonBlocking_accounting [OF K con]
      have "closes_ok h" using acc inv by (simp add: worker_inv_def fds_ok_def)
      then have i1: "worker_inv X (base[b := base ! b + 1]) m0 wk held (ac_fd c # extra) ?w1" using same_open_inv [OF ib] acc Inl by simp
      define w2 where "w2 = w_log Warn ''worker=%zu backend=%s connect failed: %s''
        (on_metrics onRejected (on_metrics onConnectFailure (on_lease \<lparr> bl_backend = Some b \<rparr> recordConnectFailure ?w1)))"
      have cw: "calm ?w1 w2" unfolding w2_def by (meson calm_trans calm_prims calm_record)
      from release_inv [OF close_inv [OF calm_inv [OF i1 cw]]] calm_active(1) [OF cw] b show ?thesis
        using eq acq con Inl some bud' by (auto simp: createSession_def Let_def w2_def [symmetric] w_close_def lease_defs)
    next
      case (Inr res)
      let ?wk = "wk\<lparr> wk_nextSessionId := wk_nextSessionId wk + 1 \<rparr>"
      obtain s w2 where new: "ProxySession_new K (wk_nextSessionId wk) (ac_fd c) (cr_fd res) (cr_connecting res) \<lparr> bl_backend = Some b \<rparr>
          (cfg_bufferSize (wk_config wk)) (ac_address c) ?w1 = (s, w2)" by fastforce
      note acq' = acq [unfolded some] and con' = con [unfolded Inr]
      note cs = connected_session [OF K inv bud acq' con' new refl]
      have "register_session K ?wk s w2 = (wk', w')" using createSession_connected [OF acq' con' new] eq by (rule trans [OF sym])
      note reg = register_session_inv [OF cs(1) budget_mono [OF cs(2) le0] cs(3,4) this]
      moreover have "budget base m0 n wk'" using reg cs(2) by (simp add: budget_def)
      ultimately show ?thesis by (simp add: same_worker_def)
    qed
  qed
qed

section \<open>The accept queue\<close>

lemma drainLoop_inv:
  assumes "fresh_fds K" "worker_inv X base m0 wk held (map ac_fd local @ extra) w" "budget base m0 (length local + n) wk"
    "drainLoop K local (wk, w) = (wk', w')"
  shows "worker_inv X base m0 wk' held extra w' \<and> budget base m0 n wk' \<and> same_worker wk wk' \<and> wk_queue wk' = wk_queue wk"
  using assms(2-)
proof (induction local arbitrary: wk w)
  case (Cons c local)
  obtain wk1 w1 where step: "(if \<not> wk_running wk then (wk, w_close (ac_fd c) w) else createSession K c (wk, w)) = (wk1, w1)"
    by (metis surj_pair)
  have "worker_inv X base m0 wk1 held (map ac_fd local @ extra) w1 \<and> budget base m0 (length local + n) wk1 \<and> same_worker wk wk1
      \<and> wk_queue wk1 = wk_queue wk"
  proof (cases "wk_running wk")
    case True
    then show ?thesis using createSession_inv [OF assms(1), of X base m0 wk held c "map ac_fd local @ extra" w "length local + n" wk1 w1]
        Cons.prems step by simp
  next
    case False
    then show ?thesis using close_inv [of X base m0 wk held "ac_fd c"] budget_mono [OF Cons.prems(2)] Cons.prems(1) step by auto
  qed
  moreover have "drainLoop K local (wk1, w1) = (wk', w')" using Cons.prems(3) by (simp only: drainLoop.simps fst_conv snd_conv step)
  ultimately show ?case using Cons.IH [of wk1 w1] same_worker_trans by auto
qed simp

text \<open>The queue is swapped into a local variable.\<close>

lemma take_queue_inv:
  assumes "worker_inv X base m0 wk held extra w"
  shows "worker_inv X base m0 (wk\<lparr> wk_queue := [] \<rparr>) held (map ac_fd (wk_queue wk) @ extra) w"
proof -
  let ?wk = "wk\<lparr> wk_queue := [] \<rparr>"
  have "mset (owned ?wk held (map ac_fd (wk_queue wk) @ extra)) = mset (owned wk held extra)" by (simp add: owned_mset)
  then show ?thesis
    using assms fds_ok_perm [of "owned ?wk held (map ac_fd (wk_queue wk) @ extra)" "owned wk held extra"]
    by (simp add: worker_inv_def tables_ok_def counts_ok_def)
qed

lemma drainQueue_inv:
  assumes "fresh_fds K" "worker_inv X base m0 wk held extra w" "budget base m0 (length (wk_queue wk) + n) wk"
    "drainQueue K (wk, w) = (wk', w')"
  shows "worker_inv X base m0 wk' held extra w' \<and> budget base m0 n wk' \<and> same_worker wk wk' \<and> wk_queue wk' = []"
proof -
  have "budget base m0 (length (wk_queue wk) + n) (wk\<lparr> wk_queue := [] \<rparr>)" using assms(3) by (simp add: budget_def)
  then show ?thesis using drainLoop_inv [OF assms(1) take_queue_inv [OF assms(2)], of n wk' w'] assms(4)
    by (simp add: drainQueue_def same_worker_def)
qed

lemma calm_read: "w_eventfd_read K fd w = (r, w') \<Longrightarrow> calm w w'"
  by (metis calm_prims(5) snd_conv)

lemma drainWake_calm:
  assumes "drainWake K fd w = Some w'"
  shows "calm w w'"
proof (rule forever_rule [where I = "\<lambda>_. True" and R = calm, OF assms [unfolded drainWake_def]])
  let ?body = "\<lambda>w. case w_eventfd_read K fd w of (Ok _, w) \<Rightarrow> Inr w | (Err _, w) \<Rightarrow> Inl w"
  show "calm w x" if "?body w = Inl x" for w x
    using that by (auto dest: calm_read split: prod.splits sysret.splits)
  show "calm w x" if "?body w = Inr w1" "calm w1 x" for w w1 x
    using that by (auto dest: calm_read intro: calm_trans split: prod.splits sysret.splits)
qed simp_all

section \<open>Events\<close>

lemma evolves_calm: "evolves (s, w) tr (s', w') \<Longrightarrow> calm w w'"
proof -
  assume e: "evolves (s, w) tr (s', w')"
  have "map (snd \<circ> snd \<circ> snd) (map backend_core bs) = map be_activeConnections bs" for bs
    by (simp add: backend_core_def comp_def)
  then show ?thesis using e unfolding calm_def evolves_def shared_kept_def by (metis snd_conv)
qed

text \<open>The handler leaves identifier, descriptors and lease of the session as they are.\<close>

lemma update_session_inv:
  assumes inv: "worker_inv X base m0 wk held extra w" and s: "map_of (wk_sessions wk) i = Some s"
    and same: "same_session s s'" "px_inv s'" and wk': "wk' = wk\<lparr> wk_sessions := AList.update (px_id s') s' (wk_sessions wk) \<rparr>"
  shows "worker_inv X base m0 wk' held extra w"
proof -
  have tb: "tables_ok wk" and live: "\<forall>s\<in>set (live_sessions wk held). session_ok (wd_pool w) s" using inv by (simp_all add: worker_inv_def)
  have keys: "distinct (map fst (wk_sessions wk))" using tb by (simp add: tables_ok_def)
  have mem: "(i, s) \<in> set (wk_sessions wk)" using s by (rule map_of_SomeD)
  then have ident: "px_id s = i" "px_id s' = i" "i \<in> fst ` set (wk_sessions wk)" "session_fds s' = session_fds s" "px_backend s' = px_backend s"
    using tb same by (auto simp: tables_ok_def same_session_def rev_image_eqI)
  have fields: "wk_fdToSession wk' = wk_fdToSession wk" "wk_nextSessionId wk' = wk_nextSessionId wk" "wk_activeSessions wk' = wk_activeSessions wk"
    "wk_queue wk' = wk_queue wk" "wk_epollFd wk' = wk_epollFd wk" "wk_wakeFd wk' = wk_wakeFd wk"
    "wk_sessions wk' = AList.update i s' (wk_sessions wk)" by (simp_all add: wk' ident)
  note upd = alist_update_set [OF keys ident(3), of s', folded fields(7), THEN conjunct1]
    alist_update_set [OF keys ident(3), of s', folded fields(7), THEN conjunct2]
  have len: "length (wk_sessions wk') = length (wk_sessions wk)" using arg_cong [OF upd(2), of length] by simp
  have own: "owned wk' held extra = owned wk held extra"
    using alist_update_map [of "wk_sessions wk" i s session_fds s', OF s keys ident(4)] by (simp add: owned_def fields)
  have h: "map (px_backend \<circ> snd) (wk_sessions wk') = map (px_backend \<circ> snd) (wk_sessions wk)"
    using alist_update_map [of "wk_sessions wk" i s px_backend s', OF s keys ident(5)] by (simp add: fields)
  have only: "t = s" if "(i, t) \<in> set (wk_sessions wk)" for t using that mem keys by (metis map_of_eq_Some_iff option.inject)
  have "(\<exists>t. (j, t) \<in> set (wk_sessions wk') \<and> f \<in> set (session_fds t)) \<longleftrightarrow> (\<exists>t. (j, t) \<in> set (wk_sessions wk) \<and> f \<in> set (session_fds t))" for j f
  proof (cases "j = i")
    case True
    have "(\<exists>t. (i, t) \<in> set (wk_sessions wk) \<and> f \<in> set (session_fds t)) \<longleftrightarrow> f \<in> set (session_fds s)" using mem only by blast
    then show ?thesis unfolding True upd(1) ident(4) [symmetric] by simp
  qed (simp add: upd(1))
  then have "tables_ok wk'" using tb mem unfolding tables_ok_def fields(1-6) upd len by (simp add: ident) blast
  moreover have "session_ok (wd_pool w) s'" using live mem same ident by (force simp: session_ok_def)
  then have "\<forall>t\<in>set (live_sessions wk' held). session_ok (wd_pool w) t" using live upd(1) by auto
  moreover have "counts_ok base m0 wk' held w" using inv h by (simp add: worker_inv_def counts_ok_def len fields(1-6))
  ultimately show ?thesis using inv own by (simp add: worker_inv_def)
qed

text \<open>
  eventfd(2): a read takes the whole counter, so in a row of reads one fails unless other threads keep writing for
  ever; \<open>B\<close> bounds how often that happens.
\<close>

fun wake_reads :: "kernel \<Rightarrow> fd \<Rightarrow> os \<Rightarrow> nat \<Rightarrow> os" where
  "wake_reads K fd h 0 = h"
| "wake_reads K fd h (Suc i) = wake_reads K fd (h @ [EventFdRead fd (k_eventfd_read K h fd)]) i"

definition wake_bounded :: "kernel \<Rightarrow> nat \<Rightarrow> bool" where
  "wake_bounded K B \<longleftrightarrow> (\<forall>h fd. \<exists>i\<le>B. \<exists>e. k_eventfd_read K (wake_reads K fd h i) fd = Err e)"

definition wake_wait :: "kernel \<Rightarrow> fd \<Rightarrow> os \<Rightarrow> nat" where
  "wake_wait K fd h = (LEAST i. \<exists>e. k_eventfd_read K (wake_reads K fd h i) fd = Err e)"

lemma wake_wait_step:
  assumes "wake_bounded K B" "k_eventfd_read K h fd = Ok v"
  shows "wake_wait K fd (h @ [EventFdRead fd (Ok v)]) < wake_wait K fd h"
proof -
  let ?P = "\<lambda>i. \<exists>e. k_eventfd_read K (wake_reads K fd h i) fd = Err e"
  obtain i where "?P i" using assms(1) unfolding wake_bounded_def by blast
  moreover have "\<not> ?P 0" using assms(2) by simp
  ultimately have "(LEAST i. ?P i) = Suc (LEAST i. ?P (Suc i))" by (rule Least_Suc)
  then show ?thesis using assms(2) by (simp add: wake_wait_def)
qed

lemma drainWake_returns:
  assumes "wake_bounded K B"
  shows "\<exists>w'. drainWake K fd w = Some w'"
  unfolding drainWake_def
proof (rule forever_terminates [where I = "\<lambda>_. True" and r = "measure (wake_wait K fd \<circ> wd_os)"])
  fix w w'
  assume "(case w_eventfd_read K fd w of (Ok _, w) \<Rightarrow> Inr w | (Err _, w) \<Rightarrow> Inl w) = Inr w'"
  then obtain v where "k_eventfd_read K (wd_os w) fd = Ok v" "w' = w\<lparr> wd_os := wd_os w @ [EventFdRead fd (Ok v)] \<rparr>"
    by (auto simp: w_eventfd_read_def split: sysret.splits)
  then show "True \<and> (w', w) \<in> measure (wake_wait K fd \<circ> wd_os)" using wake_wait_step [OF assms] by simp
qed simp_all

text \<open>What the theorems on the event loop ask of the operating system.\<close>

definition kernel_ok :: "kernel \<Rightarrow> nat \<Rightarrow> bool" where
  "kernel_ok K B \<longleftrightarrow> recv_bounded K \<and> send_bounded K \<and> fresh_fds K \<and> eintr_bounded K B \<and> wake_bounded K B"

abbreviation worker_ok :: "fd set \<Rightarrow> nat list \<Rightarrow> nat \<Rightarrow> nat \<Rightarrow> Worker \<Rightarrow> ProxySession list \<Rightarrow> world \<Rightarrow> bool" where
  "worker_ok X base m0 n wk held w \<equiv> worker_inv X base m0 wk held [] w \<and> budget base m0 (length (wk_queue wk) + n) wk"

lemma handleReady_session:
  assumes K: "kernel_ok K B" and inv: "worker_inv X base m0 wk held extra w"
    and s: "map_of (wk_sessions wk) i = Some s"
  shows "\<exists>ok s1 w1. handleEvent K fd events (s, w) = Some (ok, s1, w1) \<and> same_session s s1 \<and> px_inv s1 \<and> calm w w1"
proof -
  have "px_inv s" using inv map_of_SomeD [OF s] by (force simp: worker_inv_def session_ok_def)
  moreover from this obtain ok s1 w1 where h: "handleEvent K fd events (s, w) = Some (ok, s1, w1)"
    using handleEvent_returns [of K B s fd events w] K by (auto simp: kernel_ok_def)
  ultimately obtain tr where "evolves (s, w) tr (s1, w1)" using handleEvent_leads [of K s fd events w ok s1 w1] K by (auto simp: kernel_ok_def)
  then show ?thesis using h evolves_calm by (auto simp: evolves_def)
qed

lemma same_session_markClosing [simp]: "same_session s (markClosing s') = same_session s s'"
  by (simp add: same_session_def markClosing_def all_directions [where d = ClientToUpstream])

lemma px_inv_markClosing [simp]: "px_inv (markClosing s) = px_inv s"
  by (simp add: px_inv_def markClosing_def all_directions [where d = ClientToUpstream])

lemma handleReady_handled:
  assumes "fd \<noteq> wake_fd wk" "wk_fdToSession wk fd = Some i" "map_of (wk_sessions wk) i = Some s" "\<not> px_closing s"
    "handleEvent K fd events (s, w) = Some (good, s1, w1)" "updateInterests K (epoll_fd wk) s1 w1 = (r, w2)"
  shows "handleReady K (fd, events) (wk, w) =
    Some (wk\<lparr> wk_sessions := AList.update (px_id s1) (if good \<and> r = Inr () then s1 else markClosing s1) (wk_sessions wk) \<rparr>,
          if \<not> good then w1 else if r = Inr () then w2 else w_log Warn ''worker=%zu session=%llu epoll update failed: %s'' w2)"
  using assms by (auto simp: handleReady_def Let_def markClosing_def split: sum.splits)

lemma handleReady_ok:
  assumes K: "kernel_ok K B" and ok: "worker_ok X base m0 n wk held w"
  shows "\<exists>wk' w'. handleReady K (fd, events) (wk, w) = Some (wk', w') \<and> worker_ok X base m0 n wk' held w' \<and> same_worker wk wk'"
proof -
  have fresh: "fresh_fds K" and wake: "wake_bounded K B" using K by (simp_all add: kernel_ok_def)
  consider (wake) "fd = UniqueFd_get (wk_wakeFd wk)"
    | (skip) "fd \<noteq> UniqueFd_get (wk_wakeFd wk)" "\<forall>i s. wk_fdToSession wk fd = Some i \<and> map_of (wk_sessions wk) i = Some s \<longrightarrow> px_closing s"
    | (session) i s where "fd \<noteq> UniqueFd_get (wk_wakeFd wk)" "wk_fdToSession wk fd = Some i" "map_of (wk_sessions wk) i = Some s" "\<not> px_closing s"
    by blast
  then show ?thesis
  proof cases
    case wake
    obtain w1 where w1: "drainWake K fd w = Some w1" using drainWake_returns \<open>wake_bounded K B\<close> by blast
    obtain wk' w' where q: "drainQueue K (wk, w1) = (wk', w')" by fastforce
    have "worker_inv X base m0 wk held [] w1" using ok calm_inv drainWake_calm [OF w1] by blast
    then show ?thesis using drainQueue_inv [OF fresh _ _ q] ok wake w1 q by (auto simp: handleReady_def)
  next
    case skip
    then have "handleReady K (fd, events) (wk, w) = Some (wk, w)"
      by (auto simp: handleReady_def bind_eq_Some_conv split: option.splits)
    then show ?thesis using ok by simp
  next
    case (session i s)
    obtain good s1 w1 where h: "handleEvent K fd events (s, w) = Some (good, s1, w1)" "same_session s s1" "px_inv s1" "calm w w1"
      using handleReady_session [OF K _ session(3)] ok by blast
    obtain r w2 where u: "updateInterests K (epoll_fd wk) s1 w1 = (r, w2)" by fastforce
    define s' where "s' = (if good \<and> r = Inr () then s1 else markClosing s1)"
    define w' where "w' = (if \<not> good then w1 else if r = Inr () then w2 else w_log Warn ''worker=%zu session=%llu epoll update failed: %s'' w2)"
    let ?wk = "wk\<lparr> wk_sessions := AList.update (px_id s') s' (wk_sessions wk) \<rparr>"
    have "handleReady K (fd, events) (wk, w) = Some (?wk, w')"
      using handleReady_handled [OF session h(1) u] by (simp add: s'_def w'_def markClosing_def if_distrib [of px_id])
    moreover have "calm w1 w2" using calm_updateInterests [of w1 K "epoll_fd wk" s1] u by (metis snd_conv)
    then have "calm w w'" unfolding w'_def using h(4) by (auto intro: calm_trans)
    then have "worker_inv X base m0 ?wk held [] w'"
      using calm_inv [OF update_session_inv [OF _ session(3), of X base m0 held "[]" w s']] h(2,3) ok by (simp add: s'_def)
    ultimately show ?thesis using ok by (auto simp: budget_def same_worker_def)
  qed
qed

lemma handleBatch_ok:
  assumes "kernel_ok K B" "worker_ok X base m0 n wk held w"
  shows "\<exists>wk' w'. handleBatch K es (wk, w) = Some (wk', w') \<and> worker_ok X base m0 n wk' held w' \<and> same_worker wk wk'"
  using assms(2)
proof (induction es arbitrary: wk w)
  case (Cons e es)
  obtain wk1 w1 where s: "handleReady K e (wk, w) = Some (wk1, w1)" "worker_ok X base m0 n wk1 held w1" "same_worker wk wk1"
    using handleReady_ok [OF assms(1) Cons.prems, of "fst e" "snd e"] by auto
  then show ?case using Cons.IH [OF s(2)] by (auto dest: same_worker_trans)
qed simp

end
