(* ===== verification/WorkerLife.thy ===== *)
theory WorkerLife
  imports WorkerSafety
begin

text \<open>
  The life of a worker: the timeout sweep, one iteration of the event loop, the clean-up after the loop, construction
  and the hand-over of accepted clients, each shown to keep the invariant of theory \<open>WorkerSafety\<close>; the properties
  of the worker at the end.
\<close>

section \<open>The timeout sweep\<close>

lemma calm_now: "w_now K w = (t, w') \<Longrightarrow> calm w w'"
  by (metis calm_prims(2) snd_conv)

lemma calm_epoll_wait: "w_epoll_wait K ep n t w = (r, w') \<Longrightarrow> calm w w'"
  by (metis calm_prims(4) snd_conv)

lemma calm_idleFor: "idleFor K seconds s w = (b, w') \<Longrightarrow> calm w w'"
  by (auto simp: idleFor_def dest: calm_now split: prod.splits)

lemma calm_connectTimedOut: "connectTimedOut K ms s w = (b, w') \<Longrightarrow> calm w w'"
  by (auto simp: connectTimedOut_def dest: calm_now split: prod.splits if_split_asm)

text \<open>The expired sessions are taken from the table, each once.\<close>

lemma expiredSessions_spec:
  assumes "expiredSessions K config ss w = (expired, w')"
  shows "calm w w' \<and> set expired \<subseteq> set ss \<and> (distinct (map px_id ss) \<longrightarrow> distinct (map px_id expired))"
  using assms
proof (induction ss arbitrary: w expired w')
  case (Cons s ss)
  obtain t w1 where t: "connectTimedOut K (cfg_connectTimeoutMs config) s w = (t, w1)" by fastforce
  obtain idle w2 where i: "idleFor K (cfg_idleTimeoutSeconds config) s w1 = (idle, w2)" by fastforce
  define w3 where "w3 = (if t then on_metrics onConnectFailure (on_lease (px_backend s) recordConnectFailure w1) else w2)"
  obtain ex w4 where r: "expiredSessions K config ss w3 = (ex, w4)" by fastforce
  have res: "w' = w4" "expired = (if t \<or> idle then s # ex else ex)"
    using Cons.prems t i r by (auto simp: w3_def split: prod.splits if_split_asm)
  have "calm w w3" unfolding w3_def
    using calm_connectTimedOut [OF t] calm_idleFor [OF i] calm_record(1) calm_prims(8) by (metis (full_types) calm_trans)
  then show ?case using Cons.IH [OF r] res by (auto intro: calm_trans)
qed simp

lemma table_ids:
  assumes "tables_ok wk"
  shows "distinct (map px_id (map snd (wk_sessions wk)))" "\<forall>s\<in>set (map snd (wk_sessions wk)). (px_id s, s) \<in> set (wk_sessions wk)"
proof -
  have "map px_id (map snd (wk_sessions wk)) = map fst (wk_sessions wk)" using assms by (auto simp: tables_ok_def)
  then show "distinct (map px_id (map snd (wk_sessions wk)))" using assms by (simp only: tables_ok_def)
  show "\<forall>s\<in>set (map snd (wk_sessions wk)). (px_id s, s) \<in> set (wk_sessions wk)" using assms by (auto simp: tables_ok_def)
qed

lemma sweep_ok:
  assumes ok: "worker_ok X base m0 n wk held w" and eq: "sweepIdleSessions K (wk, w) = (wk', w')"
  shows "worker_ok X base m0 n wk' held w' \<and> same_worker wk wk' \<and> set (wk_sessions wk') \<subseteq> set (wk_sessions wk)"
proof -
  obtain expired w1 where e: "expiredSessions K (wk_config wk) (map snd (wk_sessions wk)) w = (expired, w1)" by fastforce
  note sp = expiredSessions_spec [OF e]
  obtain wk2 w2 where c: "closeSessions K expired (wk, w1) = (wk2, w2)" by fastforce
  have tb: "tables_ok wk" using ok by (simp add: worker_inv_def)
  have "worker_inv X base m0 wk held [] w1" using ok sp calm_inv by blast
  from closeSessions_inv [OF this _ _ c] sp table_ids [OF tb]
  have cl: "worker_inv X base m0 wk2 (expired @ held) [] w2" "same_worker wk wk2" "wk_queue wk2 = wk_queue wk"
    "wk_nextSessionId wk2 = wk_nextSessionId wk" "set (wk_sessions wk2) \<subseteq> set (wk_sessions wk)" by auto
  have res: "wk' = wk2" "w' = destroySessions expired w2" using eq e c by (simp_all add: sweepIdleSessions_def)
  show ?thesis using destroySessions_inv [OF cl(1)] cl ok res by (simp add: budget_def)
qed

section \<open>One iteration\<close>

lemma closing_ok:
  assumes ok: "worker_ok X base m0 n wk held w" and eq: "closeSessions K (closingSessions wk) (wk, w) = (wk', w')"
  shows "worker_ok X base m0 n wk' (closingSessions wk @ held) w' \<and> same_worker wk wk' \<and>
    (\<forall>(i, s)\<in>set (wk_sessions wk'). \<not> px_closing s)"
proof -
  have tb: "tables_ok wk" using ok by (simp add: worker_inv_def)
  have "distinct (map px_id (closingSessions wk))" "\<forall>s\<in>set (closingSessions wk). (px_id s, s) \<in> set (wk_sessions wk)"
    using table_ids [OF tb] distinct_map_filter unfolding closingSessions_def by (blast, auto)
  note cl = closeSessions_inv [OF conjunct1 [OF ok] this eq]
  have "\<not> px_closing s" if "(i, s) \<in> set (wk_sessions wk')" for i s
  proof
    assume "px_closing s"
    moreover have "(i, s) \<in> set (wk_sessions wk)" "i \<notin> px_id ` set (closingSessions wk)" using cl that by auto
    ultimately show False using session_in_table [OF tb, of i s] by (force simp: closingSessions_def)
  qed
  then show ?thesis using cl ok by (auto simp: budget_def)
qed

lemma runIteration_ok:
  assumes K: "kernel_ok K B" and ok: "worker_ok X base m0 n wk [] w"
  shows "\<exists>go t wk' w'. runIteration K (lastSweep, wk, w) = Some (go, t, wk', w') \<and> worker_ok X base m0 n wk' [] w' \<and>
    same_worker wk wk' \<and> (go \<or> wk' = wk) \<and>
    (\<forall>es. k_epoll_wait K (wd_os w) (epoll_fd wk) (cfg_maxEvents (wk_config wk)) 1000 = Ok es \<longrightarrow> (\<forall>(i, s)\<in>set (wk_sessions wk'). \<not> px_closing s))"
proof -
  obtain r w1 where ew: "w_epoll_wait K (epoll_fd wk) (cfg_maxEvents (wk_config wk)) 1000 w = (r, w1)" by fastforce
  have "calm w w1" using ew by (rule calm_epoll_wait)
  then have ok1: "worker_ok X base m0 n wk [] w1" using ok calm_inv by blast
  show ?thesis
  proof (cases r)
    case (Err e)
    moreover from this have "k_epoll_wait K (wd_os w) (epoll_fd wk) (cfg_maxEvents (wk_config wk)) 1000 = Err e" using ew by (auto simp: w_epoll_wait_def)
    ultimately show ?thesis using ew ok1 calm_inv [OF conjunct1 [OF ok1] calm_prims(1)] by (auto simp: runIteration_def)
  next
    case (Ok events)
    obtain wk2 w2 where b: "handleBatch K events (wk, w1) = Some (wk2, w2)" "worker_ok X base m0 n wk2 [] w2" "same_worker wk wk2"
      using handleBatch_ok [OF K ok1] by blast
    obtain wk3 w3 where c: "closeSessions K (closingSessions wk2) (wk2, w2) = (wk3, w3)" by fastforce
    note cl = closing_ok [OF b(2) c, simplified]
    obtain now w4 where now: "w_now K w3 = (now, w4)" by fastforce
    have "calm w3 w4" using now by (rule calm_now)
    then have ok4: "worker_ok X base m0 n wk3 (closingSessions wk2) w4" using cl calm_inv by blast
    obtain wk5 w5 where sw: "sweepIdleSessions K (wk3, w4) = (wk5, w5)" by fastforce
    note ok5 = sweep_ok [OF ok4 sw]
    have "runIteration K (lastSweep, wk, w) =
        Some (if now - lastSweep \<ge> 1000000000 then (True, now, wk5, destroySessions (closingSessions wk2) w5)
              else (True, lastSweep, wk3, destroySessions (closingSessions wk2) w4))"
      using ew Ok b(1) c now sw by (simp add: runIteration_def Let_def)
    moreover have "same_worker wk wk3" "same_worker wk wk5" using b(3) cl ok5 same_worker_trans by blast+
    moreover note destroySessions_inv [where held = "[]" and ss = "closingSessions wk2" and X = X and base = base and ?m0.0 = m0 and extra = "[]"]
    moreover have "\<forall>(i, s)\<in>set (wk_sessions wk5). \<not> px_closing s" using cl ok5 by blast
    ultimately show ?thesis using ok4 ok5 cl by auto
  qed
qed
section \<open>The end of the loop\<close>

text \<open>A worker with no client left owns its two descriptors and nothing else.\<close>

lemma idle_worker:
  assumes "worker_inv X base m0 wk [] [] w" "wk_sessions wk = []" "wk_queue wk = []"
  shows "open_fds (wd_os w) = X \<union> {UniqueFd_get (wk_epollFd wk), UniqueFd_get (wk_wakeFd wk)}" "closes_ok (wd_os w)"
    "length (bp_backends (wd_pool w)) = length base" "i < length base \<Longrightarrow> active (wd_pool w) i = base ! i" "unat (mt_active (wd_metrics w)) = m0"
    "wk_activeSessions wk = 0" "wk_fdToSession wk = Map.empty"
proof -
  show "open_fds (wd_os w) = X \<union> {UniqueFd_get (wk_epollFd wk), UniqueFd_get (wk_wakeFd wk)}" "closes_ok (wd_os w)"
    "length (bp_backends (wd_pool w)) = length base" "i < length base \<Longrightarrow> active (wd_pool w) i = base ! i" "unat (mt_active (wd_metrics w)) = m0"
    using assms by (simp_all add: worker_inv_def fds_ok_def owned_def counts_ok_def)
  have tb: "tables_ok wk" using assms(1) by (simp add: worker_inv_def)
  then show "wk_activeSessions wk = 0" using assms(2) by (simp add: tables_ok_def unat_eq_0)
  have "wk_fdToSession wk f = None" for f using tb assms(2) by (cases "wk_fdToSession wk f") (auto simp: tables_ok_def)
  then show "wk_fdToSession wk = Map.empty" by auto
qed

lemma runExit_ok:
  assumes K: "fresh_fds K" and ok: "worker_ok X base m0 n wk [] w" and eq: "runExit K (wk, w) = (wk', w')"
  shows "worker_ok X base m0 n wk' [] w' \<and> same_worker wk wk' \<and> wk_sessions wk' = [] \<and> wk_queue wk' = []"
proof -
  obtain wk1 w1 where d: "drainQueue K (wk, w) = (wk1, w1)" by fastforce
  note dq = drainQueue_inv [OF K conjunct1 [OF ok] conjunct2 [OF ok] d]
  obtain wk2 w2 where c: "closeSessions K (map snd (wk_sessions wk1)) (wk1, w1) = (wk2, w2)" by fastforce
  have tb: "tables_ok wk1" using dq by (simp add: worker_inv_def)
  note cl = closeSessions_inv [OF conjunct1 [OF dq] table_ids [OF tb] c]
  have "wk_sessions wk2 = []"
  proof -
    have "fst x = px_id (snd x)" if "x \<in> set (wk_sessions wk1)" for x using session_in_table [OF tb, of "fst x" "snd x"] that by simp
    then have "set (wk_sessions wk2) = {}" using cl by auto
    then show ?thesis by simp
  qed
  moreover have wk1: "wk1\<lparr> wk_queue := [] \<rparr> = wk1" using dq by simp
  have res: "wk' = wk2" "w' = destroySessions (map snd (wk_sessions wk1)) (w_log Info ''worker=%zu stopped'' w2)"
    using eq d dq c wk1 by (simp_all add: runExit_def Let_def)
  moreover have "worker_inv X base m0 wk2 [] [] w'"
    using destroySessions_inv [OF calm_inv [OF conjunct1 [OF cl] calm_prims(1)]] res by simp
  ultimately show ?thesis using cl dq same_worker_trans [of wk wk1 wk2] by (auto simp: budget_def)
qed

section \<open>Construction and hand-over\<close>

definition actives :: "BackendPool \<Rightarrow> nat list" where
  "actives p = map (active p) [0..<length (bp_backends p)]"

lemma Worker_new_spec:
  assumes K: "fresh_fds K" and cl: "closes_ok (wd_os w)" and eq: "Worker_new K idx config w = (r, w')"
  shows "case r of
      Inl e \<Rightarrow> open_fds (wd_os w') = open_fds (wd_os w) \<and> closes_ok (wd_os w')
    | Inr wk \<Rightarrow> worker_inv (open_fds (wd_os w)) (actives (wd_pool w)) (unat (mt_active (wd_metrics w))) wk [] [] w' \<and>
        wk_index wk = idx \<and> wk_config wk = config \<and> \<not> wk_running wk \<and> wk_queue wk = [] \<and> wk_sessions wk = [] \<and> wk_nextSessionId wk = 1"
proof -
  let ?h = "wd_os w"
  define r1 where "r1 = k_epoll_create1 K ?h"
  define h1 where "h1 = ?h @ [EpollCreate r1]"
  define r2 where "r2 = k_eventfd K h1"
  define h2 where "h2 = h1 @ [EventFd r2]"
  have f1: "r1 = Ok e \<Longrightarrow> 0 \<le> e \<and> e \<notin> open_fds ?h" and f2: "r2 = Ok f \<Longrightarrow> 0 \<le> f \<and> f \<notin> open_fds h1" for e f
    using K by (auto simp: fresh_fds_def r1_def r2_def)
  have o1: "r1 = Ok e \<Longrightarrow> open_fds h1 = insert e (open_fds ?h)" "r1 = Err e' \<Longrightarrow> open_fds h1 = open_fds ?h" "closes_ok h1" for e e'
    using cl by (simp_all add: h1_def)
  have o2: "r2 = Ok f \<Longrightarrow> open_fds h2 = insert f (open_fds h1)" "r2 = Err e' \<Longrightarrow> open_fds h2 = open_fds h1" "closes_ok h2" for f e'
    using o1(3) by (simp_all add: h2_def)
  note eq' = eq [unfolded Worker_new_def sys_epoll_create1_def sys_eventfd_def Let_def prod.case, folded r1_def, folded h1_def,
    folded r2_def, folded h2_def]
  note defs = registerFd_def w_epoll_ctl_def fd_or_minus1_def UniqueFd_new_def UniqueFd_get_def UniqueFd_valid_def UniqueFd_destroy_def
    UniqueFd_reset_def sys_close_def
  consider (no_epoll) e where "r1 = Err e" | (no_event) f e where "r1 = Ok f" "r2 = Err e" | (both) f g where "r1 = Ok f" "r2 = Ok g"
    by (cases r1; cases r2) auto
  then show ?thesis
  proof cases
    case no_epoll
    then show ?thesis using eq' f2 o1 o2 by (cases r2) (auto simp: defs)
  next
    case no_event
    then show ?thesis using eq' f1 o1 o2 by (auto simp: defs)
  next
    case both
    then have fg: "0 \<le> f" "0 \<le> g" "f \<notin> open_fds ?h" "g \<notin> open_fds ?h" "f \<noteq> g" using f1 f2 o1 by auto
    show ?thesis
    proof (cases "k_epoll_ctl K h2 f EPOLL_CTL_ADD g EPOLLIN")
      case (Err e)
      then show ?thesis using eq' both fg o1 o2 by (auto simp: defs)
    next
      case (Ok u)
      then show ?thesis using eq' both fg o1 o2
        by (auto simp: defs worker_inv_def tables_ok_def fds_ok_def owned_def counts_ok_def actives_def)
    qed
  qed
qed

text \<open>The limit of the queue does not wrap.\<close>

lemma queueLimit_value:
  assumes "0 \<le> cfg_backlog (wk_config wk)" "cfg_backlog (wk_config wk) < 2 ^ 31"
  shows "unat (queueLimit wk) = 4 * nat (cfg_backlog (wk_config wk))"
proof -
  have u: "unat (to_size_t (cfg_backlog (wk_config wk))) = nat (cfg_backlog (wk_config wk))"
    using uint_to_size_t [of "cfg_backlog (wk_config wk)"] assms by (simp flip: nat_uint_eq)
  have "unat (to_size_t (cfg_backlog (wk_config wk))) * unat (4 :: size_t) < 2 ^ LENGTH(64)" using assms unfolding u by simp
  then show ?thesis unfolding queueLimit_def by (simp add: unat_mult_lem [THEN iffD1] u)
qed

text \<open>What \<^verbatim>\<open>enqueue\<close> does: refusal leaves everything alone; otherwise the client is queued and the worker is woken.\<close>

lemma enqueue_refused:
  "\<not> wk_running wk \<or> of_nat (length (wk_queue wk)) \<ge> queueLimit wk \<Longrightarrow> enqueue K c a (wk, w) = (False, wk, w)"
  by (auto simp: enqueue_def)

lemma enqueue_queued:
  assumes "wk_running wk" "\<not> of_nat (length (wk_queue wk)) \<ge> queueLimit wk"
  shows "enqueue K c a (wk, w) =
    (let r = k_eventfd_write K (wd_os w) (UniqueFd_get (wk_wakeFd wk)) in
     (r = Ok () \<or> r = Err EAGAIN, wk\<lparr> wk_queue := wk_queue wk @ [\<lparr> ac_fd = c, ac_address = a \<rparr>] \<rparr>,
      w\<lparr> wd_os := wd_os w @ [EventFdWrite (UniqueFd_get (wk_wakeFd wk)) r] \<rparr>))"
  using assms by (simp add: enqueue_def w_eventfd_write_def Let_def)

lemma enqueue_inv:
  assumes inv: "worker_inv X base m0 wk held (c # extra) w" and q: "wk_running wk" "\<not> of_nat (length (wk_queue wk)) \<ge> queueLimit wk"
    and eq: "enqueue K c a (wk, w) = (ok, wk', w')"
  shows "worker_inv X base m0 wk' held extra w'"
proof -
  have wk': "wk' = wk\<lparr> wk_queue := wk_queue wk @ [\<lparr> ac_fd = c, ac_address = a \<rparr>] \<rparr>" and w': "w' = snd (w_eventfd_write K (UniqueFd_get (wk_wakeFd wk)) w)"
    using eq enqueue_queued [OF q] by (simp_all add: Let_def w_eventfd_write_def)
  have "mset (owned wk' held extra) = mset (owned wk held (c # extra))" by (simp add: owned_mset wk')
  then have "worker_inv X base m0 wk' held extra w"
    using inv fds_ok_perm [of "owned wk' held extra" "owned wk held (c # extra)"]
    by (simp add: worker_inv_def wk' tables_ok_def counts_ok_def)
  then show ?thesis unfolding w' using calm_prims(6) by (rule calm_inv)
qed

lemma worker_inv_running [simp]: "worker_inv X base m0 (wk\<lparr> wk_running := b \<rparr>) held extra w = worker_inv X base m0 wk held extra w"
  by (simp add: worker_inv_def tables_ok_def owned_def counts_ok_def)

lemma budget_running [simp]: "budget base m0 n (wk\<lparr> wk_running := b \<rparr>) = budget base m0 n wk"
  by (simp add: budget_def)

section \<open>A sample worker\<close>

text \<open>Built and started, one client accepted and handed over; the kernel then reports the wake-up.\<close>

definition small_config :: AppConfig where
  "small_config = AppConfig_default\<lparr> cfg_bufferSize := 4, cfg_backlog := 2 \<rparr>"

definition wake_kernel :: kernel where
  "wake_kernel = sample_kernel\<lparr> k_epoll_wait := \<lambda>h ep n t. Ok [(4, EPOLLIN)] \<rparr>"

definition sample_worker :: "Worker \<times> world" where
  "sample_worker = (case Worker_new wake_kernel 0 small_config sample_world of
     (Inr wk, w) \<Rightarrow> (snd (Worker_start wk), w\<lparr> wd_os := wd_os w @ [Accept4 0 (Ok (5, sample_address))] \<rparr>))"

definition sample_queued :: "Worker \<times> world" where
  "sample_queued = snd (enqueue wake_kernel 5 ''10.0.0.1:5000'' sample_worker)"

abbreviation sample_base :: "nat list" where
  "sample_base \<equiv> [1]"

lemma wake_contracts: "kernel_ok wake_kernel 0"
  using sample_contracts
  by (simp add: kernel_ok_def wake_kernel_def recv_bounded_def send_bounded_def fresh_fds_def eintr_bounded_def wake_bounded_def)
     (simp add: sample_kernel_def)

lemma sample_worker_inv: "worker_inv {} sample_base 0 (fst sample_worker) [] [5] (snd sample_worker)"
proof -
  have "\<not> isl (fst (Worker_new wake_kernel 0 small_config sample_world))" by code_simp
  then obtain wk w where new: "Worker_new wake_kernel 0 small_config sample_world = (Inr wk, w)"
    by (metis prod.collapse sum.collapse(2))
  have run: "\<not> wk_running wk" and inv: "worker_inv {} (actives (wd_pool sample_world)) 0 wk [] [] w"
    using Worker_new_spec [OF _ _ new] wake_contracts by (simp_all add: kernel_ok_def sample_world_def Metrics_new_def)
  have w: "w = snd (Worker_new wake_kernel 0 small_config sample_world)" by (simp add: new)
  have "open_fds (wd_os w) = {3, 4}" "actives (wd_pool sample_world) = sample_base"
    unfolding w by code_simp+
  then show ?thesis
    using open_inv [OF inv, of 5] run inv
    by (simp add: sample_worker_def new Worker_start_def worker_inv_def [of _ _ _ _ _ "[]" w] fds_ok_def)
qed

lemma sample_queued_inv: "worker_inv {} sample_base 0 (fst sample_queued) [] [] (snd sample_queued)"
proof -
  have "wk_running (fst sample_worker)" "\<not> of_nat (length (wk_queue (fst sample_worker))) \<ge> queueLimit (fst sample_worker)" by code_simp+
  from enqueue_inv [OF sample_worker_inv this] show ?thesis unfolding sample_queued_def by (metis prod.collapse)
qed

lemma sample_budget: "budget sample_base 0 (length (wk_queue (fst sample_queued))) (fst sample_queued)"
proof -
  have "wk_nextSessionId (fst sample_queued) = 1" "length (wk_queue (fst sample_queued)) = 1" by code_simp+
  then show ?thesis by (simp add: budget_def)
qed

section \<open>Properties\<close>

text \<open>C5. The event loop keeps the worker consistent, whatever the kernel reports: one iteration returns, and afterwards the two
  tables still describe the same sessions, every descriptor of the worker is open and owned once, no other descriptor of
  the process was touched, backend connection counts and session gauges are exact, and no session marked for closing
  is left after a batch.\<close>

theorem worker_iteration_invariant:
  assumes "kernel_ok K B" "worker_inv X base m0 wk [] [] w" "budget base m0 (length (wk_queue wk)) wk"
  shows "\<exists>go t wk' w'. runIteration K (lastSweep, wk, w) = Some (go, t, wk', w') \<and> worker_inv X base m0 wk' [] [] w' \<and>
    budget base m0 (length (wk_queue wk')) wk' \<and> wk_running wk' = wk_running wk \<and>
    ((\<exists>es. k_epoll_wait K (wd_os w) (epoll_fd wk) (cfg_maxEvents (wk_config wk)) 1000 = Ok es) \<longrightarrow> (\<forall>(i, s)\<in>set (wk_sessions wk'). \<not> px_closing s))"
  using runIteration_ok [OF assms(1), where X = X and base = base and ?m0.0 = m0 and n = 0 and wk = wk and w = w and lastSweep = lastSweep] assms(2,3) by (auto simp: same_worker_def)

theorem worker_iteration_invariant_witness:
  "\<exists>t wk w. runIteration wake_kernel (0, sample_queued) = Some (True, t, wk, w) \<and> worker_inv {} sample_base 0 wk [] [] w \<and>
     length (wk_sessions wk) = 1"
proof -
  obtain go t wk w where r: "runIteration wake_kernel (0, sample_queued) = Some (go, t, wk, w)" and i: "worker_inv {} sample_base 0 wk [] [] w"
    using worker_iteration_invariant [OF wake_contracts sample_queued_inv sample_budget, where lastSweep = 0] by auto
  have "case runIteration wake_kernel (0, sample_queued) of Some (go, t, wk, w) \<Rightarrow> go \<and> length (wk_sessions wk) = 1 | None \<Rightarrow> False"
    by code_simp
  then show ?thesis using r i by auto
qed

text \<open>C12. A worker that leaves its loop gives everything back: no session and no queued client is left, the only descriptors
  of the worker still open are its epoll and its eventfd, each other one was closed exactly once, every lease went back to
  its backend and the session gauges are down.\<close>

theorem worker_exit_releases_all:
  assumes "fresh_fds K" "worker_inv X base m0 wk [] [] w" "budget base m0 (length (wk_queue wk)) wk" "runExit K (wk, w) = (wk', w')"
  shows "wk_sessions wk' = [] \<and> wk_queue wk' = [] \<and> wk_fdToSession wk' = Map.empty \<and> activeSessions wk' = 0 \<and>
    open_fds (wd_os w') = X \<union> {UniqueFd_get (wk_epollFd wk), UniqueFd_get (wk_wakeFd wk)} \<and> closes_ok (wd_os w') \<and>
    length (bp_backends (wd_pool w')) = length base \<and> (\<forall>i<length base. active (wd_pool w') i = base ! i) \<and> unat (mt_active (wd_metrics w')) = m0"
proof -
  have r: "worker_inv X base m0 wk' [] [] w'" "same_worker wk wk'" "wk_sessions wk' = []" "wk_queue wk' = []"
    using runExit_ok [OF assms(1) _ assms(4), of X base m0 0] assms(2,3) by auto
  show ?thesis using idle_worker [OF r(1,3,4)] r by (simp add: same_worker_def activeSessions_def)
qed

theorem worker_exit_releases_all_witness:
  "open_fds (wd_os (snd (runExit sample_kernel sample_queued))) = {3, 4} \<and> closes_ok (wd_os (snd (runExit sample_kernel sample_queued)))"
proof -
  have "UniqueFd_get (wk_epollFd (fst sample_queued)) = 3" "UniqueFd_get (wk_wakeFd (fst sample_queued)) = 4" by code_simp+
  then show ?thesis
    using worker_exit_releases_all [OF sample_contracts(3) sample_queued_inv sample_budget, of "fst (runExit sample_kernel sample_queued)"
        "snd (runExit sample_kernel sample_queued)"] by simp
qed

text \<open>C28. A constructed worker is well formed: it owns exactly the two descriptors it created, has no client, is not running and
  counts sessions from one. A construction that throws closed whatever it had created.\<close>

theorem worker_new_well_formed:
  assumes "fresh_fds K" "closes_ok (wd_os w)" "Worker_new K idx config w = (r, w')"
  shows "case r of
      Inl e \<Rightarrow> open_fds (wd_os w') = open_fds (wd_os w) \<and> closes_ok (wd_os w')
    | Inr wk \<Rightarrow> worker_inv (open_fds (wd_os w)) (actives (wd_pool w)) (unat (mt_active (wd_metrics w))) wk [] [] w' \<and>
        wk_index wk = idx \<and> wk_config wk = config \<and> \<not> wk_running wk \<and> wk_queue wk = [] \<and> wk_sessions wk = [] \<and> wk_nextSessionId wk = 1"
  using assms by (rule Worker_new_spec)

theorem worker_new_well_formed_witness:
  "open_fds (wd_os (snd (Worker_new (sample_kernel\<lparr> k_eventfd := \<lambda>h. Err 24 \<rparr>) 0 small_config sample_world))) = {}"
proof -
  let ?K = "sample_kernel\<lparr> k_eventfd := \<lambda>h. Err 24 \<rparr>"
  have "fresh_fds ?K" using sample_contracts(3) by (simp add: fresh_fds_def)
  moreover have "isl (fst (Worker_new ?K 0 small_config sample_world))" by code_simp
  ultimately show ?thesis
    using worker_new_well_formed [of ?K sample_world 0 small_config "fst (Worker_new ?K 0 small_config sample_world)"
        "snd (Worker_new ?K 0 small_config sample_world)"]
    by (auto simp: sample_world_def isl_def)
qed

text \<open>C22. Handing over a client: a stopped worker and a worker whose queue holds four times the backlog refuse, and nothing
  changes; otherwise the client joins the end of the queue, ownership of its descriptor moves to the worker, the worker is
  woken by one write, and the answer is that write's success or a counter already full. The queue never holds more than four
  times the configured backlog, which is not negative and an \<^verbatim>\<open>int\<close>.\<close>

theorem enqueue_contract:
  assumes "0 \<le> cfg_backlog (wk_config wk)" "cfg_backlog (wk_config wk) < 2 ^ 31"
    "length (wk_queue wk) \<le> 4 * nat (cfg_backlog (wk_config wk))" "enqueue K c a (wk, w) = (ok, wk', w')"
  shows "length (wk_queue wk') \<le> 4 * nat (cfg_backlog (wk_config wk)) \<and>
    (if wk_running wk \<and> length (wk_queue wk) < 4 * nat (cfg_backlog (wk_config wk))
     then wk_queue wk' = wk_queue wk @ [\<lparr> ac_fd = c, ac_address = a \<rparr>] \<and>
       (\<exists>r. wd_os w' = wd_os w @ [EventFdWrite (UniqueFd_get (wk_wakeFd wk)) r] \<and> (ok \<longleftrightarrow> r = Ok () \<or> r = Err EAGAIN)) \<and>
       (\<forall>X base m0 held extra. worker_inv X base m0 wk held (c # extra) w \<longrightarrow> worker_inv X base m0 wk' held extra w')
     else \<not> ok \<and> wk' = wk \<and> w' = w)"
proof -
  let ?limit = "4 * nat (cfg_backlog (wk_config wk))"
  have limit: "unat (queueLimit wk) = ?limit" using queueLimit_value [OF assms(1,2)] .
  have full: "of_nat (length (wk_queue wk)) \<ge> queueLimit wk \<longleftrightarrow> length (wk_queue wk) \<ge> ?limit"
  proof -
    have "nat (cfg_backlog (wk_config wk)) < 2 ^ 31" using assms(1,2) by (simp add: nat_less_iff)
    then have "length (wk_queue wk) < 2 ^ 64" using assms(3) by simp
    then show ?thesis using limit by (simp add: word_le_nat_alt)
  qed
  show ?thesis
  proof (cases "wk_running wk \<and> length (wk_queue wk) < ?limit")
    case True
    then have q: "wk_running wk" "\<not> of_nat (length (wk_queue wk)) \<ge> queueLimit wk" using full by auto
    have "worker_inv X base m0 wk' held extra w'" if "worker_inv X base m0 wk held (c # extra) w" for X base m0 held extra
      using that q assms(4) by (rule enqueue_inv)
    then show ?thesis using True assms(4) enqueue_queued [OF q] by (auto simp: Let_def)
  next
    case False
    then show ?thesis using assms(3,4) enqueue_refused [of wk K c a w] full by auto
  qed
qed

theorem enqueue_contract_witness: "worker_inv {} sample_base 0 (fst sample_queued) [] [] (snd sample_queued)"
proof -
  have s: "cfg_backlog (wk_config (fst sample_worker)) = 2" "length (wk_queue (fst sample_worker)) = 0" "wk_running (fst sample_worker)" by code_simp+
  have "enqueue wake_kernel 5 ''10.0.0.1:5000'' (fst sample_worker, snd sample_worker) =
      (fst (enqueue wake_kernel 5 ''10.0.0.1:5000'' sample_worker), fst sample_queued, snd sample_queued)"
    by (simp add: sample_queued_def)
  from enqueue_contract [OF _ _ _ this] show ?thesis using s sample_worker_inv by simp
qed

text \<open>A stopped worker closes the clients of its queue in order.\<close>

lemma drainQueue_stopped:
  assumes "\<not> wk_running wk"
  shows "drainQueue K (wk, w) = (wk\<lparr> wk_queue := [] \<rparr>, w\<lparr> wd_os := wd_os w @ map (\<lambda>c. Close (ac_fd c)) (wk_queue wk) \<rparr>)"
proof -
  have "drainLoop K q (wk\<lparr> wk_queue := [] \<rparr>, w) = (wk\<lparr> wk_queue := [] \<rparr>, w\<lparr> wd_os := wd_os w @ map (\<lambda>c. Close (ac_fd c)) q \<rparr>)" for q w
    using assms by (induction q arbitrary: w) (simp_all add: w_close_def os_simps)
  then show ?thesis by (simp add: drainQueue_def)
qed

lemma close_after_close: "c \<notin> A \<Longrightarrow> \<not> closes_ok_from A (map (\<lambda>c. Close (ac_fd c)) q @ [Close c])"
  by (induction q arbitrary: A) auto

text \<open>C33. The caller of \<^verbatim>\<open>enqueue\<close> closes the descriptor when the answer is false, but the answer is also false when the client
  was queued and the write to the eventfd failed with an error other than EAGAIN. The descriptor then has two owners: after the
  caller closed it, the worker closes it again when it is stopped and drains its queue.\<close>

theorem enqueue_refusal_closes_twice:
  assumes "wk_running wk" "\<not> of_nat (length (wk_queue wk)) \<ge> queueLimit wk"
    "k_eventfd_write K (wd_os w) (UniqueFd_get (wk_wakeFd wk)) = Err e" "e \<noteq> EAGAIN"
  shows "\<exists>wk' w'. enqueue K c a (wk, w) = (False, wk', w') \<and> c \<in> ac_fd ` set (wk_queue wk') \<and>
    \<not> closes_ok (wd_os (snd (drainQueue K (wk'\<lparr> wk_running := False \<rparr>, w_close c w'))))"
  using enqueue_queued [OF assms(1,2), of K c a w] assms(3,4) close_after_close [of c "open_fds (wd_os w) - {c}" "wk_queue wk"]
  by (simp add: Let_def drainQueue_stopped w_close_def os_simps)

theorem enqueue_refusal_closes_twice_witness:
  "\<exists>wk w. enqueue (wake_kernel\<lparr> k_eventfd_write := \<lambda>h fd. Err 4 \<rparr>) 5 [] sample_worker = (False, wk, w) \<and>
     \<not> closes_ok (wd_os (snd (drainQueue wake_kernel (wk\<lparr> wk_running := False \<rparr>, w_close 5 w))))"
proof -
  let ?K = "wake_kernel\<lparr> k_eventfd_write := \<lambda>h fd. Err 4 \<rparr>"
  have "wk_running (fst sample_worker)" "\<not> of_nat (length (wk_queue (fst sample_worker))) \<ge> queueLimit (fst sample_worker)" by code_simp+
  from enqueue_refusal_closes_twice [OF this, of ?K "snd sample_worker" 4 5 "[]"]
  obtain wk w where "enqueue ?K 5 [] sample_worker = (False, wk, w)"
    "\<not> closes_ok (wd_os (snd (drainQueue ?K (wk\<lparr> wk_running := False \<rparr>, w_close 5 w))))" by auto
  then show ?thesis by (auto simp: drainQueue_stopped)
qed

text \<open>C32. A worker whose \<^verbatim>\<open>epoll_wait\<close> fails leaves its loop for good but stays marked as running: after its clean-up it still
  accepts clients, which nobody will serve or close, and with no active session it looks like the least loaded worker.\<close>

theorem failed_worker_accepts_clients:
  assumes "kernel_ok K B" "worker_inv X base m0 wk [] [] w" "budget base m0 (length (wk_queue wk)) wk" "wk_running wk" "0 < queueLimit wk"
    "k_epoll_wait K (wd_os w) (epoll_fd wk) (cfg_maxEvents (wk_config wk)) 1000 = Err e" "e \<noteq> EINTR"
    "\<And>h fd. k_eventfd_write K h fd = Ok ()"
  shows "\<exists>w1 wk2 w2 wk3 w3. runIteration K (lastSweep, wk, w) = Some (False, lastSweep, wk, w1) \<and> runExit K (wk, w1) = (wk2, w2) \<and>
    activeSessions wk2 = 0 \<and> enqueue K c a (wk2, w2) = (True, wk3, w3) \<and> wk_queue wk3 = [\<lparr> ac_fd = c, ac_address = a \<rparr>]"
proof -
  obtain go t wk' w1 where it: "runIteration K (lastSweep, wk, w) = Some (go, t, wk', w1)" "worker_ok X base m0 0 wk' [] w1"
    using runIteration_ok [OF assms(1), where X = X and base = base and ?m0.0 = m0 and n = 0 and wk = wk and w = w and lastSweep = lastSweep] assms(2,3) by auto
  moreover have res: "\<not> go" "t = lastSweep" "wk' = wk"
    using it(1) assms(6,7) by (auto simp: runIteration_def w_epoll_wait_def)
  moreover obtain wk2 w2 where ex: "runExit K (wk, w1) = (wk2, w2)" by fastforce
  moreover have "fresh_fds K" using assms(1) by (simp add: kernel_ok_def)
  from runExit_ok [OF this it(2) [unfolded res] ex]
  have "worker_inv X base m0 wk2 [] [] w2" "same_worker wk wk2" "wk_sessions wk2 = []" "wk_queue wk2 = []" by auto
  moreover from this have "activeSessions wk2 = 0" "wk_running wk2" "\<not> of_nat (length (wk_queue wk2)) \<ge> queueLimit wk2"
    using idle_worker(6) assms(4,5) by (auto simp: activeSessions_def same_worker_def queueLimit_def not_le)
  ultimately show ?thesis using enqueue_queued [of wk2 K c a w2] assms(8) by (auto simp: Let_def)
qed

theorem failed_worker_accepts_clients_witness:
  "\<exists>w1 wk2 w2 wk3 w3. runIteration (wake_kernel\<lparr> k_epoll_wait := \<lambda>h ep n t. Err 9 \<rparr>) (0, sample_queued) = Some (False, 0, fst sample_queued, w1) \<and>
     runExit (wake_kernel\<lparr> k_epoll_wait := \<lambda>h ep n t. Err 9 \<rparr>) (fst sample_queued, w1) = (wk2, w2) \<and>
     enqueue (wake_kernel\<lparr> k_epoll_wait := \<lambda>h ep n t. Err 9 \<rparr>) 6 [] (wk2, w2) = (True, wk3, w3)"
proof -
  let ?K = "wake_kernel\<lparr> k_epoll_wait := \<lambda>h ep n t. Err 9 \<rparr>"
  have "kernel_ok ?K 0" using wake_contracts
    by (simp add: kernel_ok_def recv_bounded_def send_bounded_def fresh_fds_def eintr_bounded_def wake_bounded_def)
  moreover have "wk_running (fst sample_queued)" "0 < queueLimit (fst sample_queued)" by code_simp+
  moreover have "k_eventfd_write ?K h fd = Ok ()" for h fd by (simp add: wake_kernel_def sample_kernel_def)
  ultimately show ?thesis
    using failed_worker_accepts_clients [OF _ sample_queued_inv sample_budget, of ?K 0 9 0 6 "[]"] by auto
qed

text \<open>When a session is due at time \<open>t\<close>: its connect or its silence lasted too long.\<close>

definition due :: "AppConfig \<Rightarrow> int \<Rightarrow> ProxySession \<Rightarrow> bool" where
  "due config t s \<longleftrightarrow>
     px_upstreamConnecting s \<and> t - px_createdAt s \<ge> cfg_connectTimeoutMs config * 1000000 \<or>
     t - px_lastActivity s \<ge> cfg_idleTimeoutSeconds config * 1000000000"

lemma due_mono: "due config t s \<Longrightarrow> t \<le> t' \<Longrightarrow> due config t' s"
  by (auto simp: due_def)

lemma calm_extends: "calm w w' \<Longrightarrow> extends (wd_os w) (wd_os w')"
  by (auto simp: calm_def)

lemma expiredSessions_due:
  assumes clock: "clock_monotone K" and eq: "expiredSessions K config ss w = (expired, w')"
    and t: "t0 \<le> k_now K (wd_os w)" "k_now K (wd_os w') \<le> t1"
  shows "{s \<in> set ss. due config t0 s} \<subseteq> set expired \<and> set expired \<subseteq> {s \<in> set ss. due config t1 s}"
  using eq t
proof (induction ss arbitrary: w expired w')
  case (Cons s ss)
  obtain t w1 where t: "connectTimedOut K (cfg_connectTimeoutMs config) s w = (t, w1)" by fastforce
  obtain idle w2 where i: "idleFor K (cfg_idleTimeoutSeconds config) s w1 = (idle, w2)" by fastforce
  define w3 where "w3 = (if t then on_metrics onConnectFailure (on_lease (px_backend s) recordConnectFailure w1) else w2)"
  obtain ex where r: "expiredSessions K config ss w3 = (ex, w')" "expired = (if t \<or> idle then s # ex else ex)"
    using Cons.prems(1) t i by (auto simp: w3_def split: prod.splits if_split_asm)
  have ext: "extends (wd_os w) (wd_os w1)" "extends (wd_os w1) (wd_os w3)" "extends (wd_os w3) (wd_os w')"
    unfolding w3_def using calm_connectTimedOut [OF t] calm_idleFor [OF i] calm_record(1) calm_prims(8) expiredSessions_spec [OF r(1)] calm_trans
    by (metis (full_types) calm_extends w3_def)+
  then have c: "k_now K (wd_os w) \<le> k_now K (wd_os w1)" "k_now K (wd_os w1) \<le> k_now K (wd_os w3)" "k_now K (wd_os w3) \<le> k_now K (wd_os w')"
    using clock unfolding clock_monotone_def by blast+
  have "due config t1 s" if "t \<or> idle"
    using that t i c Cons.prems(3)
    by (auto simp: due_def connectTimedOut_def idleFor_def w_now_def sys_now_def split: if_split_asm)
  moreover have "t \<or> idle" if "due config t0 s"
    using that t i c Cons.prems(2)
    by (auto simp: due_def connectTimedOut_def idleFor_def w_now_def sys_now_def split: if_split_asm)
  moreover have "t0 \<le> k_now K (wd_os w3)" using c Cons.prems(2) by linarith
  ultimately show ?case using Cons.IH [OF r(1) _ Cons.prems(3)] r(2) by auto
qed simp

lemma closeSessions_extends: "closeSessions K ss (wk, w) = (wk', w') \<Longrightarrow> extends (wd_os w) (wd_os w')"
proof (induction ss arbitrary: wk w)
  case (Cons s ss)
  obtain wk1 w1 where c: "closeSession K s (wk, w) = (wk1, w1)" by fastforce
  then have "extends (wd_os w) (wd_os w1)"
    by (auto simp: closeSession_def unregisterFd_def w_epoll_ctl_def w_log_def fg_log_def on_metrics_def Let_def extends_def split: if_split_asm)
  then show ?case using Cons.IH [of wk1 w1] Cons.prems c by (auto intro: extends_trans)
qed simp

lemma destroySessions_extends: "extends (wd_os w) (wd_os (destroySessions ss w))"
proof (induction ss arbitrary: w)
  case (Cons s ss)
  have "extends (wd_os w) (wd_os (ProxySession_destroy s w))"
    by (auto simp: ProxySession_destroy_def UniqueFd_destroy_def UniqueFd_reset_def sys_close_def Let_def extends_def)
  then show ?case using Cons.IH [of "ProxySession_destroy s w"] by (auto intro: extends_trans)
qed simp

text \<open>C25. The sweep closes the sessions that are due and no others. Every session whose connect or idle time was over when the sweep began
  is gone afterwards, and every session whose time is not over when the sweep ends is still there, untouched; the clock is
  read anew for each session and only has to be monotone.\<close>

theorem sweep_closes_due_sessions:
  assumes "clock_monotone K" "worker_inv X base m0 wk held [] w"
    "sweepIdleSessions K (wk, w) = (wk', w')" "(i, s) \<in> set (wk_sessions wk)"
  shows "(due (wk_config wk) (k_now K (wd_os w)) s \<longrightarrow> i \<notin> fst ` set (wk_sessions wk')) \<and>
    (\<not> due (wk_config wk) (k_now K (wd_os w')) s \<longrightarrow> (i, s) \<in> set (wk_sessions wk'))"
proof -
  let ?t0 = "k_now K (wd_os w)" and ?t1 = "k_now K (wd_os w')"
  obtain expired w1 where e: "expiredSessions K (wk_config wk) (map snd (wk_sessions wk)) w = (expired, w1)" by fastforce
  obtain wk2 w2 where c: "closeSessions K expired (wk, w1) = (wk2, w2)" by fastforce
  have "w' = destroySessions expired w2" using assms(3) e c by (simp add: sweepIdleSessions_def)
  then have "extends (wd_os w1) (wd_os w')" using extends_trans [OF closeSessions_extends [OF c] destroySessions_extends] by simp
  then have "k_now K (wd_os w1) \<le> ?t1" using assms(1) unfolding clock_monotone_def by blast
  note ex = expiredSessions_due [OF assms(1) e order_refl this] and sp = expiredSessions_spec [OF e]
  have tb: "tables_ok wk" using assms(2) by (simp add: worker_inv_def)
  have sessions: "set (wk_sessions wk') = {x \<in> set (wk_sessions wk). fst x \<notin> px_id ` set expired}"
    using closeSessions_inv [OF calm_inv [OF assms(2)] _ _ c] sp table_ids [OF tb] assms(3) e c
    by (auto simp: sweepIdleSessions_def)
  have ident: "px_id s = i" using session_in_table [OF tb assms(4)] by simp
  have only: "x = s" if "x \<in> set expired" "px_id x = i" for x
  proof -
    have "(i, x) \<in> set (wk_sessions wk)" using that sp table_ids(2) [OF tb] by auto
    then show ?thesis using session_in_table [OF tb, of i x] session_in_table [OF tb assms(4)] by simp
  qed
  have "s \<in> set expired" if "due (wk_config wk) ?t0 s" using that ex assms(4) by force
  then have "i \<notin> fst ` set (wk_sessions wk')" if "due (wk_config wk) ?t0 s" using that ident by (auto simp: sessions)
  moreover have "i \<notin> px_id ` set expired" if "\<not> due (wk_config wk) ?t1 s" using that ex only by blast
  ultimately show ?thesis using assms(4) by (auto simp: sessions)
qed

definition sample_served :: "Worker \<times> world" where
  "sample_served = snd (snd (the (runIteration wake_kernel (0, sample_queued))))"

lemma sample_served_inv: "worker_inv {} sample_base 0 (fst sample_served) [] [] (snd sample_served)"
  using runIteration_ok [OF wake_contracts, where X = "{}" and base = sample_base and ?m0.0 = 0 and n = 0 and
      wk = "fst sample_queued" and w = "snd sample_queued" and lastSweep = 0] sample_queued_inv sample_budget
  unfolding sample_served_def by force

text \<open>A clock that advances with every call and is late.\<close>

theorem sweep_closes_due_sessions_witness:
  "1 \<in> fst ` set (wk_sessions (fst sample_served)) \<and>
   1 \<notin> fst ` set (wk_sessions (fst (sweepIdleSessions (sample_kernel\<lparr> k_now := \<lambda>h. 100000000000 + int (length h) \<rparr>) sample_served)))"
proof -
  let ?K = "sample_kernel\<lparr> k_now := \<lambda>h. 100000000000 + int (length h) \<rparr>"
  have K: "clock_monotone ?K" by (auto simp: clock_monotone_def extends_def)
  obtain wk' w' where sw: "sweepIdleSessions ?K (fst sample_served, snd sample_served) = (wk', w')" by fastforce
  have "case map_of (wk_sessions (fst sample_served)) 1 of Some s \<Rightarrow> due (wk_config (fst sample_served)) 100000000000 s | None \<Rightarrow> False"
    by code_simp
  then obtain s where s: "map_of (wk_sessions (fst sample_served)) 1 = Some s" "due (wk_config (fst sample_served)) 100000000000 s"
    by (auto split: option.splits)
  have "due (wk_config (fst sample_served)) (k_now ?K (wd_os (snd sample_served))) s" by (rule due_mono [OF s(2)]) simp
  moreover have "(1, s) \<in> set (wk_sessions (fst sample_served))" using s(1) by (rule map_of_SomeD)
  ultimately show ?thesis using sweep_closes_due_sessions [OF K sample_served_inv sw, of 1 s] sw by force
qed

end
