(* ===== verification/Dispatch.thy ===== *)
theory Dispatch
  imports WorkerLife HealthChecker
begin

text \<open>
  The main program (\<^verbatim>\<open>main.cpp\<close>): command line, signals, choice of a worker, the accept loop, start-up and what runs
  at shutdown. Threads interleave in theory \<open>System\<close>; here are the pieces each runs.
\<close>

section \<open>Command line\<close>

record Options =
  op_configPath :: string
  op_checkOnly :: bool
  op_showVersion :: bool

definition Options_new :: Options where
  "Options_new = \<lparr> op_configPath = ''config/fluxgate.conf'', op_checkOnly = False, op_showVersion = False \<rparr>"

definition usage :: "string \<Rightarrow> string" where
  "usage program = ''Usage: '' @ program @ '' [-c config] [--check] [--version]'' @ [char_of (10 :: nat)]"

text \<open>\<open>Help t\<close>: \<open>t\<close> is printed and the process exits with status 0.\<close>

datatype parsed = Parsed Options | Help string

fun parseOptions_loop :: "string \<Rightarrow> Options \<Rightarrow> string list \<Rightarrow> parsed result" where
  "parseOptions_loop program options [] = Inr (Parsed options)"
| "parseOptions_loop program options (argument # rest) =
     (case rest of
        path # rest' \<Rightarrow>
          if argument = ''-c'' \<or> argument = ''--config''
          then parseOptions_loop program (options\<lparr> op_configPath := path \<rparr>) rest'
          else if argument = ''--check'' then parseOptions_loop program (options\<lparr> op_checkOnly := True \<rparr>) rest
          else if argument = ''--version'' \<or> argument = ''-v''
          then parseOptions_loop program (options\<lparr> op_showVersion := True \<rparr>) rest
          else if argument = ''--help'' \<or> argument = ''-h'' then Inr (Help (usage program))
          else Inl (RuntimeError (''unknown argument: '' @ argument))
      | [] \<Rightarrow>
          if argument = ''--check'' then parseOptions_loop program (options\<lparr> op_checkOnly := True \<rparr>) rest
          else if argument = ''--version'' \<or> argument = ''-v''
          then parseOptions_loop program (options\<lparr> op_showVersion := True \<rparr>) rest
          else if argument = ''--help'' \<or> argument = ''-h'' then Inr (Help (usage program))
          else Inl (RuntimeError (''unknown argument: '' @ argument)))"

definition parseOptions :: "string list \<Rightarrow> parsed result" where
  "parseOptions argv = parseOptions_loop (hd argv) Options_new (tl argv)"

section \<open>Signals\<close>

definition sys_sigaction :: "kernel \<Rightarrow> int \<Rightarrow> os \<Rightarrow> unit sysret \<times> os" where [os_simps]:
  "sys_sigaction K n h = (k_sigaction K h n, h @ [SigAction n (k_sigaction K h n)])"

definition installSignals :: "kernel \<Rightarrow> unit io" where
  "installSignals K h =
     (case sys_sigaction K SIGINT h of
        (Err _, h) \<Rightarrow> io_throw (RuntimeError ''sigaction failed'') h
      | (Ok _, h) \<Rightarrow>
          (case sys_sigaction K SIGTERM h of
             (Err _, h) \<Rightarrow> io_throw (RuntimeError ''sigaction failed'') h
           | (Ok _, h) \<Rightarrow> io_return () (snd (sys_sigaction K SIGPIPE h))))"

section \<open>Choice of a worker\<close>

fun selectWorker_loop :: "Worker list \<Rightarrow> size_t \<Rightarrow> nat list \<Rightarrow> nat \<times> size_t \<Rightarrow> nat \<times> size_t" where
  "selectWorker_loop workers cursor [] best = best"
| "selectWorker_loop workers cursor (i # is) (selected, minimum) =
     (let index = unat ((cursor + of_nat i) mod of_nat (length workers));
          active = activeSessions (workers ! index)
      in selectWorker_loop workers cursor is (if active < minimum then (index, active) else (selected, minimum)))"

definition selectWorker :: "Worker list \<Rightarrow> size_t \<Rightarrow> nat" where
  "selectWorker workers cursor =
     (let selected = unat (cursor mod of_nat (length workers));
          minimum = activeSessions (workers ! selected)
      in fst (selectWorker_loop workers cursor [1..<length workers] (selected, minimum)))"

section \<open>The accept loop\<close>

definition w_accept4 :: "kernel \<Rightarrow> fd \<Rightarrow> world \<Rightarrow> (fd \<times> sockaddr_storage) sysret \<times> world" where [os_simps]:
  "w_accept4 K l w = (k_accept4 K (wd_os w) l, w\<lparr> wd_os := wd_os w @ [Accept4 l (k_accept4 K (wd_os w) l)] \<rparr>)"

type_synonym dispatch = "Worker list \<times> size_t \<times> world"

text \<open>One client: configure it and hand it to a worker, or drop it.\<close>

definition dispatchClient :: "kernel \<Rightarrow> fd \<Rightarrow> sockaddr_storage \<Rightarrow> dispatch \<Rightarrow> dispatch" where
  "dispatchClient K client address st =
     (case st of (workers, dispatchCursor, w) \<Rightarrow>
      let w = on_metrics onAccepted w in
      (case setTcpNoDelay K client (wd_os w) of
        (Inl e, h) \<Rightarrow>
          let w = w_log Warn ''cannot configure client socket: %s'' (w\<lparr> wd_os := h \<rparr>)
          in (workers, dispatchCursor, on_metrics onRejected (w_close client w))
      | (Inr _, h) \<Rightarrow>
          let workerIndex = selectWorker workers dispatchCursor;
              (taken, worker, w) = enqueue K client (peerAddress K address) (workers ! workerIndex, w\<lparr> wd_os := h \<rparr>);
              workers = workers[workerIndex := worker]
          in (workers, dispatchCursor + 1, if \<not> taken then on_metrics onRejected (w_close client w) else w)))"

text \<open>The body of the inner loop: \<open>Inl\<close> leaves it.\<close>

definition acceptOne :: "kernel \<Rightarrow> fd \<Rightarrow> dispatch \<Rightarrow> dispatch + dispatch" where
  "acceptOne K listenFd st =
     (case st of (workers, dispatchCursor, w) \<Rightarrow>
      (case w_accept4 K listenFd w of
        (Err e, w) \<Rightarrow>
          if e = EAGAIN \<or> e = EWOULDBLOCK then Inl (workers, dispatchCursor, w)
          else if e = EINTR then Inr (workers, dispatchCursor, w)
          else Inl (workers, dispatchCursor, w_log Warn ''accept4 failed: %s'' w)
      | (Ok (client, address), w) \<Rightarrow> Inr (dispatchClient K client address (workers, dispatchCursor, w))))"

definition acceptLoop :: "kernel \<Rightarrow> fd \<Rightarrow> dispatch \<Rightarrow> dispatch option" where
  "acceptLoop K listenFd = forever (acceptOne K listenFd)"

text \<open>The wait for the listening socket: whether a client is pending.\<close>

definition waitListener :: "kernel \<Rightarrow> fd \<Rightarrow> world \<Rightarrow> bool result \<times> world" where
  "waitListener K listenFd w =
     (let (r, h) = sys_poll K listenFd POLLIN 500 (wd_os w); w = w\<lparr> wd_os := h \<rparr> in
      (case r of
        Err e \<Rightarrow> if e = EINTR then (Inr False, w) else (Inl (SystemError ''poll failed'' e), w)
      | Ok (ready, revents) \<Rightarrow> (Inr (\<not> (ready = 0 \<or> revents AND POLLIN = 0)), w)))"

text \<open>One turn of the outer loop: wait for the listening socket, then accept until it is drained.\<close>

definition mainIteration :: "kernel \<Rightarrow> fd \<Rightarrow> dispatch \<Rightarrow> dispatch result option" where
  "mainIteration K listenFd st =
     (case st of (workers, dispatchCursor, w) \<Rightarrow>
      (case waitListener K listenFd w of
        (Inl e, w) \<Rightarrow> Some (Inl e)
      | (Inr ready, w) \<Rightarrow>
          if \<not> ready then Some (Inr (workers, dispatchCursor, w))
          else map_option Inr (acceptLoop K listenFd (workers, dispatchCursor, w))))"

section \<open>Start-up\<close>

text \<open>\<^verbatim>\<open>~Worker\<close> of a worker whose thread is done: \<^verbatim>\<open>stop\<close>, \<^verbatim>\<open>join\<close>, then the members in reverse order.\<close>

definition Worker_destroy :: "kernel \<Rightarrow> Worker \<Rightarrow> world \<Rightarrow> world" where
  "Worker_destroy K wk w =
     (let (wk, w) = Worker_stop K (wk, w)
      in w\<lparr> wd_os := UniqueFd_destroy (wk_epollFd wk) (UniqueFd_destroy (wk_wakeFd wk) (wd_os w)) \<rparr>)"

fun destroyWorkers :: "kernel \<Rightarrow> Worker list \<Rightarrow> world \<Rightarrow> world" where
  "destroyWorkers K [] w = w"
| "destroyWorkers K (wk # wks) w = destroyWorkers K wks (Worker_destroy K wk w)"

text \<open>
  The loop that creates and starts the workers. When a constructor throws, the vector is destroyed: each started thread
  is stopped and joined, which takes it through the beginning and the end of \<^verbatim>\<open>run\<close> (iterations between them would only
  add system calls that change nothing, since no client was handed over yet).
\<close>

fun unwindWorkers :: "kernel \<Rightarrow> Worker list \<Rightarrow> world \<Rightarrow> world" where
  "unwindWorkers K [] w = w"
| "unwindWorkers K (wk # wks) w =
     (let (_, w) = runStart K w;
          (wk, w) = runExit K (Worker_stop K (wk, w))
      in unwindWorkers K wks (Worker_destroy K wk w))"

fun startWorkers :: "kernel \<Rightarrow> AppConfig \<Rightarrow> nat list \<Rightarrow> Worker list \<Rightarrow> world \<Rightarrow> Worker list result \<times> world" where
  "startWorkers K config [] workers w = (Inr workers, w)"
| "startWorkers K config (i # is) workers w =
     (case Worker_new K (of_nat i) config w of
        (Inl e, w) \<Rightarrow> (Inl e, unwindWorkers K workers w)
      | (Inr wk, w) \<Rightarrow> startWorkers K config is (workers @ [snd (Worker_start wk)]) w)"

text \<open>The objects of \<^verbatim>\<open>main\<close> once everything runs; the metrics and the pool are in the world.\<close>

record Server =
  sv_config :: AppConfig
  sv_logger :: Logger
  sv_listenFd :: UniqueFd
  sv_checker :: HealthChecker
  sv_workers :: "Worker list"

datatype outcome = Finished string | Fatal exn | Serving Server

text \<open>
  \<open>Finished t\<close> prints \<open>t\<close> and returns 0; \<open>Fatal e\<close> prints the error and returns 1, after the objects built so far were
  destroyed. First the part of \<^verbatim>\<open>main\<close> from the signal handlers to the accept loop.
\<close>

definition startServer :: "kernel \<Rightarrow> AppConfig \<Rightarrow> LogLevel \<Rightarrow> BackendPool \<Rightarrow> os \<Rightarrow> outcome \<times> world" where
  "startServer K config lvl pool h =
     (case installSignals K h of
        (Inl e, h) \<Rightarrow> (Fatal e, \<lparr> wd_os = h, wd_metrics = Metrics_new, wd_pool = pool \<rparr>)
      | (Inr _, h) \<Rightarrow>
          (case createListenSocket K (cfg_listenHost config) (cfg_listenPort config) (cfg_backlog config) h of
             (Inl e, h) \<Rightarrow> (Fatal e, \<lparr> wd_os = h, wd_metrics = Metrics_new, wd_pool = pool \<rparr>)
           | (Inr f, h) \<Rightarrow>
               let listenFd = UniqueFd_new f;
                   w = \<lparr> wd_os = h, wd_metrics = Metrics_new, wd_pool = pool \<rparr>;
                   checker = HealthChecker_new (cfg_healthCheckIntervalMs config) (cfg_healthCheckTimeoutMs config)
                               (cfg_healthCheckFailureThreshold config) (cfg_healthCheckSuccessThreshold config)
               in (case startWorkers K config [0..<unat (cfg_workers config)] [] w of
                     (Inl e, w) \<Rightarrow> (Fatal e, w\<lparr> wd_os := UniqueFd_destroy listenFd (wd_os w) \<rparr>)
                   | (Inr workers, w) \<Rightarrow>
                       (Serving \<lparr> sv_config = config, sv_logger = setLevel lvl Logger_new, sv_listenFd = listenFd,
                          sv_checker = checker, sv_workers = workers \<rparr>,
                        w_log Info ''FluxGate listening on %s:%u with %zu worker(s) and %zu backend(s)'' w))))"

text \<open>\<^verbatim>\<open>main\<close> up to the accept loop; \<open>files\<close> gives the text of the files that can be opened.\<close>

definition main_start :: "kernel \<Rightarrow> (string \<Rightarrow> string option) \<Rightarrow> string list \<Rightarrow> os \<Rightarrow> outcome \<times> world" where
  "main_start K files argv h =
     (let leave = (\<lambda>out h. (out, \<lparr> wd_os = h, wd_metrics = Metrics_new, wd_pool = \<lparr> bp_backends = [], bp_tieBreaker = 0 \<rparr> \<rparr>)) in
      case parseOptions argv of
        Inl e \<Rightarrow> leave (Fatal e) h
      | Inr (Help t) \<Rightarrow> leave (Finished t) h
      | Inr (Parsed options) \<Rightarrow>
          if op_showVersion options then leave (Finished (''FluxGate 1.2.0'' @ [char_of (10 :: nat)])) h
          else (case load (op_configPath options) (files (op_configPath options)) of
            Inl e \<Rightarrow> leave (Fatal e) h
          | Inr config \<Rightarrow>
              (case parseLevel (cfg_logLevel config) of
                 Inl e \<Rightarrow> leave (Fatal e) h
               | Inr lvl \<Rightarrow>
                   (case BackendPool_new K (cfg_backends config) h of
                      (Inl e, h) \<Rightarrow> leave (Fatal e) h
                    | (Inr pool, h) \<Rightarrow>
                        if op_checkOnly options
                        then leave (Finished (''configuration is valid; resolved '' @ nat_to_string (length (bp_backends pool)) @
                               '' backend(s)'' @ [char_of (10 :: nat)])) h
                        else startServer K config lvl pool h))))"

section \<open>Statistics and shutdown\<close>

text \<open>One report of the statistics thread.\<close>

fun reportBackends :: "Backend list \<Rightarrow> world \<Rightarrow> world" where
  "reportBackends [] w = w"
| "reportBackends (b # bs) w = reportBackends bs (w_log Info ''backend=%s healthy=%s active=%zu total=%llu failed=%llu'' w)"

definition statsReport :: "world \<Rightarrow> world" where
  "statsReport w = reportBackends (bp_backends (wd_pool w)) (w_log Info ''metrics %s'' w)"

text \<open>What is left to do when all threads were joined: the final line, then the objects of \<^verbatim>\<open>main\<close> are destroyed.\<close>

definition main_exit :: "kernel \<Rightarrow> UniqueFd \<Rightarrow> Worker list \<Rightarrow> world \<Rightarrow> world" where
  "main_exit K listenFd workers w =
     (let w = w_log Info ''FluxGate stopped; final metrics %s'' w;
          w = destroyWorkers K workers w
      in w\<lparr> wd_os := UniqueFd_destroy listenFd (wd_os w) \<rparr>)"

section \<open>The choice is a rotating scan\<close>

text \<open>Candidates are pairs of an index and the number of sessions loaded for it.\<close>

abbreviation fewer_sessions :: "nat \<times> size_t \<Rightarrow> nat \<times> size_t \<Rightarrow> bool" where
  "fewer_sessions x y \<equiv> snd x < snd y"

interpretation least_active: rotating_scan fewer_sessions "\<lambda>_. True"
  by unfold_locales auto

abbreviation candidate_worker :: "Worker list \<Rightarrow> nat \<Rightarrow> nat \<times> size_t" where
  "candidate_worker workers i \<equiv> (i, activeSessions (workers ! i))"

lemma selectWorker_loop_scan:
  "scan_best fewer_sessions (Some best)
     (map (\<lambda>i. candidate_worker workers (unat ((cursor + of_nat i) mod of_nat (length workers)))) is) =
   Some (selectWorker_loop workers cursor is best)"
  by (induction "is" arbitrary: best) (auto simp: Let_def)

lemma rotation_index:
  assumes "unat cursor + n < 2 ^ 64" "i < n"
  shows "unat ((cursor + of_nat i) mod (of_nat n :: size_t)) = (unat cursor + i) mod n"
proof -
  have "unat (cursor + of_nat i) = unat cursor + i" using assms by (subst unat_plus_no_wrap) simp_all
  then show ?thesis using assms by (simp add: unat_mod_distrib)
qed

lemma selectWorker_scan:
  assumes "workers \<noteq> []" "unat cursor + length workers < 2 ^ 64"
  shows "\<exists>m. scan_best fewer_sessions None (map (candidate_worker workers) (rotation (unat cursor) (length workers))) = Some m \<and>
    fst m = selectWorker workers cursor"
proof -
  let ?n = "length workers" and ?c = "candidate_worker workers"
  have n: "0 < ?n" using assms(1) by simp
  have first: "unat (cursor mod of_nat ?n) = unat cursor mod ?n" using rotation_index [OF assms(2) n] by simp
  have "rotation (unat cursor) ?n = unat cursor mod ?n # map (\<lambda>i. (unat cursor + i) mod ?n) [1..<?n]"
    using n by (simp add: rotation_def upt_conv_Cons)
  then have "map ?c (rotation (unat cursor) ?n) =
      ?c (unat cursor mod ?n) # map (\<lambda>i. ?c (unat ((cursor + of_nat i) mod of_nat ?n))) [1..<?n]"
    using rotation_index [OF assms(2)] by simp
  then show ?thesis
    using selectWorker_loop_scan [where best = "?c (unat cursor mod ?n)" and workers = workers and cursor = cursor and ?is = "[1..<?n]"]
    by (simp add: selectWorker_def Let_def first)
qed

lemma selectWorker_spec:
  assumes "workers \<noteq> []" "unat cursor + length workers < 2 ^ 64" "selectWorker workers cursor = j"
  shows "j < length workers \<and> (\<forall>k<length workers. activeSessions (workers ! j) \<le> activeSessions (workers ! k)) \<and>
    (\<exists>before after. rotation (unat cursor) (length workers) = before @ j # after \<and>
       (\<forall>k\<in>set before. activeSessions (workers ! j) < activeSessions (workers ! k)))"
proof -
  let ?rot = "rotation (unat cursor) (length workers)" and ?c = "candidate_worker workers"
  obtain m where m: "scan_best fewer_sessions None (map ?c ?rot) = Some m" "fst m = j"
    using selectWorker_scan [OF assms(1,2)] assms(3) by auto
  from least_active.scan_first_best [OF _ m(1)] obtain ys zs where best: "\<forall>x\<in>set (map ?c ?rot). \<not> fewer_sessions x m"
    and split: "map ?c ?rot = ys @ m # zs" and before: "\<forall>y\<in>set ys. fewer_sessions m y" by auto
  from split obtain bf i af where rot: "?rot = bf @ i # af" and parts: "map ?c bf = ys" "?c i = m"
    by (auto simp: map_eq_append_conv map_eq_Cons_conv)
  then have i: "i = j" "snd m = activeSessions (workers ! j)" using m(2) by auto
  have "j \<in> set ?rot" using rot i by simp
  then have "j < length workers" by (simp add: set_rotation)
  moreover have "\<forall>k<length workers. activeSessions (workers ! j) \<le> activeSessions (workers ! k)"
    using best i by (auto simp: set_rotation not_less)
  moreover have "\<forall>k\<in>set bf. activeSessions (workers ! j) < activeSessions (workers ! k)"
    using before parts i by auto
  ultimately show ?thesis using rot i by blast
qed

section \<open>Properties\<close>

text \<open>C13. Clients go to the least loaded worker: the chosen index is valid, no worker had fewer active sessions when it was read,
  and among equals the first one from the rotating cursor on is taken, so that idle workers are served in turn.\<close>

theorem selectWorker_least_loaded:
  assumes "workers \<noteq> []" "unat cursor + length workers < 2 ^ 64" "selectWorker workers cursor = j"
  shows "j < length workers \<and> (\<forall>k<length workers. activeSessions (workers ! j) \<le> activeSessions (workers ! k)) \<and>
    (\<exists>before after. rotation (unat cursor) (length workers) = before @ j # after \<and>
       (\<forall>k\<in>set before. activeSessions (workers ! j) < activeSessions (workers ! k)))"
  using assms by (rule selectWorker_spec)

definition loaded :: "size_t \<Rightarrow> Worker" where
  "loaded n = (fst sample_worker)\<lparr> wk_activeSessions := n \<rparr>"

definition sample_workers :: "Worker list" where
  "sample_workers = [loaded 2, loaded 1, loaded 3, loaded 1]"

theorem selectWorker_least_loaded_witness:
  "selectWorker sample_workers 2 = 3 \<and> activeSessions (sample_workers ! 3) \<le> activeSessions (sample_workers ! 0) \<and>
    activeSessions (sample_workers ! 3) \<le> activeSessions (sample_workers ! 1)"
proof -
  have sel: "selectWorker sample_workers 2 = 3" by code_simp
  have "sample_workers \<noteq> []" "unat (2 :: size_t) + length sample_workers < 2 ^ 64" by (simp_all add: sample_workers_def)
  moreover have "0 < length sample_workers" "1 < length sample_workers" by (simp_all add: sample_workers_def)
  ultimately show ?thesis using selectWorker_least_loaded [OF _ _ sel] sel by blast
qed

text \<open>The grammar of the command line: a sequence of options, each with its two spellings, and what they ask for.\<close>

datatype cli = ConfigOpt bool string | CheckOpt | VersionOpt bool

fun spell :: "cli \<Rightarrow> string list" where
  "spell (ConfigOpt long path) = [if long then ''--config'' else ''-c'', path]"
| "spell CheckOpt = [''--check'']"
| "spell (VersionOpt long) = [if long then ''--version'' else ''-v'']"

abbreviation spell_all :: "cli list \<Rightarrow> string list" where
  "spell_all ts \<equiv> concat (map spell ts)"

definition asked :: "cli list \<Rightarrow> Options" where
  "asked ts = \<lparr> op_configPath = last (''config/fluxgate.conf'' # [path. ConfigOpt long path \<leftarrow> ts]),
     op_checkOnly = (CheckOpt \<in> set ts), op_showVersion = (\<exists>long. VersionOpt long \<in> set ts) \<rparr>"

text \<open>An argument that no option begins with: a word outside the grammar, or the name of a file is missing.\<close>

definition misplaced :: "string \<Rightarrow> string list \<Rightarrow> bool" where
  "misplaced a rest \<longleftrightarrow> (if a \<in> {''-c'', ''--config''} then rest = [] else a \<notin> {''--check'', ''--version'', ''-v'', ''--help'', ''-h''})"

fun set_option :: "cli \<Rightarrow> Options \<Rightarrow> Options" where
  "set_option (ConfigOpt long path) opts = opts\<lparr> op_configPath := path \<rparr>"
| "set_option CheckOpt opts = opts\<lparr> op_checkOnly := True \<rparr>"
| "set_option (VersionOpt long) opts = opts\<lparr> op_showVersion := True \<rparr>"

lemma set_options_sel:
  "op_configPath (fold set_option ts opts) = last (op_configPath opts # [path. ConfigOpt long path \<leftarrow> ts])"
  "op_checkOnly (fold set_option ts opts) \<longleftrightarrow> op_checkOnly opts \<or> CheckOpt \<in> set ts"
  "op_showVersion (fold set_option ts opts) \<longleftrightarrow> op_showVersion opts \<or> (\<exists>long. VersionOpt long \<in> set ts)"
proof (induction ts arbitrary: opts)
  case (Cons t ts)
  { case 1 then show ?case using Cons(1) by (cases t) auto }
  { case 2 then show ?case using Cons(2) by (cases t) auto }
  { case 3 then show ?case using Cons(3) by (cases t) auto }
qed simp_all

lemma set_options_new: "fold set_option ts Options_new = asked ts"
  by (rule Options.equality) (simp_all add: set_options_sel asked_def Options_new_def del: fold_simps)

lemma parse_spelled:
  "parseOptions_loop program opts (spell_all ts @ rest) = parseOptions_loop program (fold set_option ts opts) rest"
proof (induction ts arbitrary: opts)
  case (Cons t ts)
  have "parseOptions_loop program opts (spell t @ args) = parseOptions_loop program (set_option t opts) args" for args
    by (cases t; cases args) auto
  then show ?case using Cons.IH by simp
qed simp

lemma parse_spelled_new: "parseOptions (program # spell_all ts @ rest) = parseOptions_loop program (asked ts) rest"
  by (simp add: parseOptions_def parse_spelled set_options_new)

text \<open>Every command line is spelled options up to its end, up to a request for help, or up to a misplaced argument.\<close>

lemma command_line_cases:
  obtains (all) ts where "args = spell_all ts"
  | (asks) ts h rest where "args = spell_all ts @ h # rest" "h \<in> {''--help'', ''-h''}"
  | (bad) ts a rest where "args = spell_all ts @ a # rest" "misplaced a rest"
proof -
  have "\<exists>ts. args = spell_all ts \<or> (\<exists>h rest. args = spell_all ts @ h # rest \<and> (h \<in> {''--help'', ''-h''} \<or> misplaced h rest))"
  proof (induction args rule: length_induct)
    case (1 args)
    have step: ?case if "args = spell t @ args'" for t args'
    proof -
      have "length args' < length args" using that by (cases t) auto
      then obtain ts where "args' = spell_all ts \<or> (\<exists>h rest. args' = spell_all ts @ h # rest \<and> (h \<in> {''--help'', ''-h''} \<or> misplaced h rest))"
        using 1 by blast
      then show ?case using that by (intro exI [of _ "t # ts"]) auto
    qed
    show ?case
    proof (cases args)
      case Nil
      then show ?thesis by (intro exI [of _ "[]"]) simp
    next
      case (Cons a rest)
      consider (named) path rest' where "a \<in> {''-c'', ''--config''}" "rest = path # rest'" | (checks) "a = ''--check''"
        | (prints) "a \<in> {''--version'', ''-v''}" | (asks) "a \<in> {''--help'', ''-h''}" | (bad) "misplaced a rest"
        unfolding misplaced_def by (cases rest; cases "a \<in> {''-c'', ''--config''}") (simp_all, blast+)
      then show ?thesis
      proof cases
        case named
        then show ?thesis using step [of "ConfigOpt (a = ''--config'') path" rest'] Cons by auto
      next
        case checks
        then show ?thesis using step [of CheckOpt rest] Cons by simp
      next
        case prints
        then show ?thesis using step [of "VersionOpt (a = ''--version'')" rest] Cons by auto
      next
        case asks
        then show ?thesis using Cons by (intro exI [of _ "[]"]) auto
      next
        case bad
        then show ?thesis using Cons by (intro exI [of _ "[]"]) simp
      qed
    qed
  qed
  then show thesis using all asks bad by blast
qed

lemma parse_help: "h \<in> {''--help'', ''-h''} \<Longrightarrow> parseOptions (program # spell_all ts @ h # rest) = Inr (Help (usage program))"
  by (cases rest) (auto simp: parse_spelled_new)

lemma parse_misplaced: "misplaced a rest \<Longrightarrow> parseOptions (program # spell_all ts @ a # rest) = Inl (RuntimeError (''unknown argument: '' @ a))"
  by (cases rest) (auto simp: parse_spelled_new misplaced_def split: if_splits)

lemma parse_all: "parseOptions (program # spell_all ts) = Inr (Parsed (asked ts))"
  using parse_spelled_new [of program ts "[]"] by simp

text \<open>C39. The command line is read exactly as its grammar says. Options are returned for the sequences of options in their long or short
  spelling and for nothing else: the last file named counts (the default without one), even one named like an option, and
  the flags that occur are set. The help text is the answer exactly when well-formed options are followed by \<^verbatim>\<open>--help\<close> or
  \<^verbatim>\<open>-h\<close>, whatever comes after it. And it is an error exactly when an argument outside the grammar, or \<^verbatim>\<open>-c\<close> without a file name,
  comes first, and that argument is the one reported.\<close>

theorem parseOptions_spec:
  "(parseOptions (program # args) = Inr (Parsed opts) \<longleftrightarrow> (\<exists>ts. args = spell_all ts \<and> opts = asked ts)) \<and>
   (parseOptions (program # args) = Inr (Help t) \<longleftrightarrow>
      (\<exists>ts h rest. args = spell_all ts @ h # rest \<and> h \<in> {''--help'', ''-h''} \<and> t = usage program)) \<and>
   (parseOptions (program # args) = Inl e \<longleftrightarrow>
      (\<exists>ts a rest. args = spell_all ts @ a # rest \<and> misplaced a rest \<and> e = RuntimeError (''unknown argument: '' @ a)))"
proof (intro conjI iffI)
  assume "parseOptions (program # args) = Inr (Parsed opts)"
  then show "\<exists>ts. args = spell_all ts \<and> opts = asked ts"
    by (cases rule: command_line_cases [of args]) (auto simp: parse_all parse_help parse_misplaced)
next
  assume "parseOptions (program # args) = Inr (Help t)"
  then show "\<exists>ts h rest. args = spell_all ts @ h # rest \<and> h \<in> {''--help'', ''-h''} \<and> t = usage program"
    by (cases rule: command_line_cases [of args]) (fastforce simp: parse_all parse_help parse_misplaced)+
next
  assume "parseOptions (program # args) = Inl e"
  then show "\<exists>ts a rest. args = spell_all ts @ a # rest \<and> misplaced a rest \<and> e = RuntimeError (''unknown argument: '' @ a)"
    by (cases rule: command_line_cases [of args]) (fastforce simp: parse_all parse_help parse_misplaced)+
qed (auto simp: parse_all parse_help parse_misplaced)

end
