(* ===== verification/Fleet.thy ===== *)
theory Fleet
  imports Dispatch
begin

text \<open>
  All workers of the process together with the main thread's descriptors: the invariant of a single worker (theory
  \<open>WorkerSafety\<close>) is stated against "the rest of the process"; here the rest is the other workers, so a step of one
  worker, an accepted client or a change that touches no worker keeps the invariant of all.
\<close>

section \<open>All workers together\<close>

definition fleet_fds :: "Worker list \<Rightarrow> fd list" where
  "fleet_fds ws = concat (map (\<lambda>wk. owned wk [] []) ws)"

definition fleet_sessions :: "Worker list \<Rightarrow> nat" where
  "fleet_sessions ws = (\<Sum>wk\<leftarrow>ws. length (wk_sessions wk))"

definition fleet_holders :: "Worker list \<Rightarrow> nat \<Rightarrow> nat" where
  "fleet_holders ws i = (\<Sum>wk\<leftarrow>ws. holders (map px_backend (live_sessions wk [])) i)"

text \<open>Sessions a worker has created and clients waiting in its queue: it bounds every counter.\<close>

definition fleet_load :: "Worker list \<Rightarrow> nat" where
  "fleet_load ws = (\<Sum>wk\<leftarrow>ws. unat (wk_nextSessionId wk) + length (wk_queue wk))"

lemmas fleet_defs = fleet_fds_def fleet_sessions_def fleet_holders_def fleet_load_def

definition local_ok :: "BackendPool \<Rightarrow> Worker \<Rightarrow> bool" where
  "local_ok p wk \<longleftrightarrow> tables_ok wk \<and> (\<forall>s\<in>set (map snd (wk_sessions wk)). session_ok p s) \<and>
     length (wk_sessions wk) < unat (wk_nextSessionId wk)"

lemma local_ok_length: "length (bp_backends p') = length (bp_backends p) \<Longrightarrow> local_ok p' wk = local_ok p wk"
  unfolding local_ok_def by (metis session_ok_length)

text \<open>\<open>fs\<close>: the descriptors of the main thread.\<close>

definition fleet_inv :: "fd list \<Rightarrow> Worker list \<Rightarrow> world \<Rightarrow> bool" where
  "fleet_inv fs ws w \<longleftrightarrow> fds_ok {} (fs @ fleet_fds ws) (wd_os w) \<and> (\<forall>wk\<in>set ws. local_ok (wd_pool w) wk) \<and>
     (\<forall>i<length (bp_backends (wd_pool w)). active (wd_pool w) i = fleet_holders ws i) \<and>
     unat (mt_active (wd_metrics w)) = fleet_sessions ws"

text \<open>What the other workers are to one worker.\<close>

definition rest_fds :: "fd list \<Rightarrow> Worker list \<Rightarrow> fd set" where
  "rest_fds fs ws = set (fs @ fleet_fds ws)"

definition rest_base :: "Worker list \<Rightarrow> world \<Rightarrow> nat list" where
  "rest_base ws w = map (fleet_holders ws) [0..<length (bp_backends (wd_pool w))]"

definition rest_ok :: "fd list \<Rightarrow> Worker list \<Rightarrow> BackendPool \<Rightarrow> bool" where
  "rest_ok fs ws p \<longleftrightarrow> distinct (fs @ fleet_fds ws) \<and> (\<forall>f\<in>set (fs @ fleet_fds ws). 0 \<le> f) \<and> (\<forall>wk\<in>set ws. local_ok p wk)"

lemma fds_ok_split:
  "fds_ok {} (fs @ gs) h \<longleftrightarrow> distinct fs \<and> (\<forall>f\<in>set fs. 0 \<le> f) \<and> fds_ok (set fs) gs h"
  by (auto simp: fds_ok_def)

lemma fleet_perm:
  "fleet_sessions (as @ wk # bs) = length (wk_sessions wk) + fleet_sessions (as @ bs)"
  "fleet_holders (as @ wk # bs) i = holders (map px_backend (live_sessions wk [])) i + fleet_holders (as @ bs) i"
  "fleet_load (as @ wk # bs) = unat (wk_nextSessionId wk) + length (wk_queue wk) + fleet_load (as @ bs)"
  by (simp_all add: fleet_defs)

lemma fleet_focus:
  "fleet_inv (extra @ fs) (as @ wk # bs) w \<longleftrightarrow>
     rest_ok fs (as @ bs) (wd_pool w) \<and>
     worker_inv (rest_fds fs (as @ bs)) (rest_base (as @ bs) w) (fleet_sessions (as @ bs)) wk [] extra w"
proof -
  let ?own = "owned wk [] extra"
  have "mset ((extra @ fs) @ fleet_fds (as @ wk # bs)) = mset ((fs @ fleet_fds (as @ bs)) @ ?own)"
    by (simp add: fleet_fds_def owned_mset)
  then have "fds_ok {} ((extra @ fs) @ fleet_fds (as @ wk # bs)) (wd_os w) =
      fds_ok {} ((fs @ fleet_fds (as @ bs)) @ ?own) (wd_os w)" by (rule fds_ok_perm)
  note fds = trans [OF this fds_ok_split]
  show ?thesis
    unfolding fleet_inv_def fds rest_ok_def worker_inv_def counts_ok_def rest_fds_def rest_base_def local_ok_def
    by (auto simp: fleet_perm)
qed
text \<open>One worker moves, the others see nothing of it.\<close>

lemma fleet_step:
  assumes "fleet_inv (extra @ fs) (as @ wk # bs) w"
    "worker_inv (rest_fds fs (as @ bs)) (rest_base (as @ bs) w) (fleet_sessions (as @ bs)) wk' [] extra' w'"
  shows "fleet_inv (extra' @ fs) (as @ wk' # bs) w'"
proof -
  have len: "length (bp_backends (wd_pool w')) = length (bp_backends (wd_pool w))"
    using assms(2) by (simp add: worker_inv_def counts_ok_def rest_base_def)
  then have "rest_base (as @ bs) w' = rest_base (as @ bs) w" by (simp add: rest_base_def)
  moreover have "rest_ok fs (as @ bs) (wd_pool w') = rest_ok fs (as @ bs) (wd_pool w)"
    by (simp add: rest_ok_def local_ok_length [OF len])
  ultimately show ?thesis using assms by (simp add: fleet_focus)
qed

lemma fleet_holders_le: "fleet_holders ws i \<le> fleet_sessions ws"
  unfolding fleet_holders_def fleet_sessions_def
  using holders_le [of "map px_backend (live_sessions wk [])" i for wk] by (intro sum_list_mono) simp

lemma fleet_sessions_load: "\<forall>wk\<in>set ws. local_ok p wk \<Longrightarrow> fleet_sessions ws \<le> fleet_load ws"
  unfolding fleet_sessions_def fleet_load_def by (intro sum_list_mono) (auto simp: local_ok_def)

lemma fleet_budget:
  assumes "fleet_inv fs (as @ wk # bs) w" "fleet_load (as @ wk # bs) + n < 2 ^ 64"
  shows "budget (rest_base (as @ bs) w) (fleet_sessions (as @ bs)) (length (wk_queue wk) + n) wk"
proof -
  have "fleet_sessions (as @ bs) \<le> fleet_load (as @ bs)"
    using assms(1) by (intro fleet_sessions_load [of _ "wd_pool w"]) (auto simp: fleet_inv_def)
  then have "fleet_sessions (as @ bs) + (unat (wk_nextSessionId wk) + length (wk_queue wk)) + n < 2 ^ 64"
    using assms(2) by (simp add: fleet_perm)
  moreover have "c \<le> fleet_sessions (as @ bs)" if "c \<in> set (rest_base (as @ bs) w)" for c
    using that fleet_holders_le [of "as @ bs"] by (auto simp: rest_base_def)
  ultimately show ?thesis by (fastforce simp: budget_def)
qed

text \<open>A step that keeps every budget does not raise the load.\<close>

lemma load_from_budget:
  assumes start: "budget base m0 (length (wk_queue wk)) wk" and base: "\<forall>c\<in>set base. c \<le> m0"
    and keeps: "\<And>n. budget base m0 (length (wk_queue wk) + n) wk \<Longrightarrow> budget base m0 (length (wk_queue wk') + n) wk'"
  shows "unat (wk_nextSessionId wk') + length (wk_queue wk') \<le> unat (wk_nextSessionId wk) + length (wk_queue wk)"
proof -
  define n where "n = 2 ^ 64 - 1 - (m0 + unat (wk_nextSessionId wk) + length (wk_queue wk))"
  have m: "m0 + unat (wk_nextSessionId wk) + length (wk_queue wk) < 2 ^ 64" using start by (simp add: budget_def)
  then have tot: "m0 + unat (wk_nextSessionId wk) + length (wk_queue wk) + n = 2 ^ 64 - 1" by (simp add: n_def)
  then have "budget base m0 (length (wk_queue wk) + n) wk" using base by (fastforce simp: budget_def)
  from keeps [OF this] show ?thesis using tot by (simp add: budget_def)
qed

lemma rest_base_le: "\<forall>c\<in>set (rest_base ws w). c \<le> fleet_sessions ws"
  using fleet_holders_le by (auto simp: rest_base_def)

text \<open>Any operation of one worker that keeps its invariant and its budgets keeps the invariant of all.\<close>

definition fleet_ok :: "fd list \<Rightarrow> Worker list \<Rightarrow> world \<Rightarrow> bool" where
  "fleet_ok fs ws w \<longleftrightarrow> fleet_inv fs ws w \<and> fleet_load ws < 2 ^ 64"

lemma fleet_ok_worker:
  assumes ok: "fleet_ok fs (as @ wk # bs) w"
    and op: "\<And>X base m0 n. worker_ok X base m0 n wk [] w \<Longrightarrow> worker_ok X base m0 n wk' [] w'"
  shows "fleet_ok fs (as @ wk' # bs) w'"
proof -
  let ?base = "rest_base (as @ bs) w" and ?m0 = "fleet_sessions (as @ bs)"
  have inv: "fleet_inv ([] @ fs) (as @ wk # bs) w" and load: "fleet_load (as @ wk # bs) < 2 ^ 64" using ok by (simp_all add: fleet_ok_def)
  have wi: "worker_inv (rest_fds fs (as @ bs)) ?base ?m0 wk [] [] w" using inv unfolding fleet_focus by simp
  have bud: "budget ?base ?m0 (length (wk_queue wk) + 0) wk" using fleet_budget [OF inv, of 0] load by simp
  have "worker_inv (rest_fds fs (as @ bs)) ?base ?m0 wk' [] [] w'" using op [OF conjI [OF wi bud]] by simp
  from fleet_step [OF inv this] have "fleet_inv fs (as @ wk' # bs) w'" by simp
  moreover have "unat (wk_nextSessionId wk') + length (wk_queue wk') \<le> unat (wk_nextSessionId wk) + length (wk_queue wk)"
    using bud op wi by (intro load_from_budget [OF _ rest_base_le]) auto
  ultimately show ?thesis using load by (simp add: fleet_ok_def fleet_perm)
qed

text \<open>Steps of the process outside the workers.\<close>

definition neutral :: "world \<Rightarrow> world \<Rightarrow> bool" where
  "neutral w w' \<longleftrightarrow> open_fds (wd_os w') = open_fds (wd_os w) \<and> (closes_ok (wd_os w) \<longrightarrow> closes_ok (wd_os w')) \<and>
     length (bp_backends (wd_pool w')) = length (bp_backends (wd_pool w)) \<and>
     (\<forall>i<length (bp_backends (wd_pool w)). active (wd_pool w') i = active (wd_pool w) i) \<and>
     mt_active (wd_metrics w') = mt_active (wd_metrics w)"

lemma neutral_trans: "neutral a b \<Longrightarrow> neutral b c \<Longrightarrow> neutral a c"
  by (auto simp: neutral_def)

lemma neutral_calm: "calm w w' \<Longrightarrow> neutral w w'"
  using calm_active [of w w'] by (auto simp: neutral_def calm_def quiet_def)

lemma fleet_neutral: "fleet_inv fs ws w \<Longrightarrow> neutral w w' \<Longrightarrow> fleet_inv fs ws w'"
  using local_ok_length [of "wd_pool w'" "wd_pool w"] by (simp add: fleet_inv_def neutral_def fds_ok_def)

section \<open>Accepting clients\<close>

lemma selectWorker_bound:
  assumes "ws \<noteq> []" "length ws < 2 ^ 64"
  shows "selectWorker ws cursor < length ws"
proof -
  have idx: "unat (x mod of_nat (length ws)) < length ws" for x :: size_t
    using assms by (simp add: unat_mod_distrib)
  have "fst best < length ws \<Longrightarrow> fst (selectWorker_loop ws cursor is best) < length ws" for "is" best
    by (induction "is" arbitrary: best) (auto simp: Let_def idx)
  then show ?thesis by (simp add: selectWorker_def Let_def idx)
qed

text \<open>eventfd(2): a write of 1 to a non-blocking eventfd succeeds or fails with EAGAIN.\<close>

definition eventfd_writable :: "kernel \<Rightarrow> bool" where
  "eventfd_writable K \<longleftrightarrow> (\<forall>h fd. k_eventfd_write K h fd = Ok () \<or> k_eventfd_write K h fd = Err EAGAIN)"

text \<open>The descriptor in the main thread's hand is closed.\<close>

lemma fleet_close:
  assumes "fleet_inv (c # fs) ws w"
  shows "fleet_inv fs ws (w_close c w)"
  using assms fds_ok_close [of "{}" c "fs @ fleet_fds ws" "wd_os w"] by (simp add: fleet_inv_def w_close_def os_simps)

lemma fleet_open:
  assumes "fleet_inv fs ws w" "0 \<le> f" "f \<notin> open_fds (wd_os w)"
  shows "fleet_inv (f # fs) ws (w\<lparr> wd_os := wd_os w @ [Accept4 l (Ok (f, a))] \<rparr>)"
  using assms fds_ok_open [of "{}" "fs @ fleet_fds ws" "wd_os w" f "wd_os w @ [Accept4 l (Ok (f, a))]"]
  by (simp add: fleet_inv_def fds_ok_def)

lemma neutral_nodelay:
  assumes "setTcpNoDelay K c (wd_os w) = (r, h)"
  shows "neutral w (w\<lparr> wd_os := h \<rparr>)"
proof -
  have "fd_neutral (setTcpNoDelay K c)" by simp
  from this [unfolded fd_neutral_def, THEN spec, of "wd_os w"] assms show ?thesis by (simp add: neutral_def)
qed

lemma load_queue: "fleet_load (as @ wk\<lparr> wk_queue := q \<rparr> # bs) + length (wk_queue wk) = fleet_load (as @ wk # bs) + length q"
  by (simp add: fleet_perm)

text \<open>What dispatching changes in the workers: at most one of them, running, gets one more queue entry.\<close>

definition handed_over :: "Worker list \<Rightarrow> Worker list \<Rightarrow> bool" where
  "handed_over ws ws' \<longleftrightarrow> ws' = ws \<or>
     (\<exists>j c. j < length ws \<and> wk_running (ws ! j) \<and> ws' = ws[j := (ws ! j)\<lparr> wk_queue := wk_queue (ws ! j) @ [c] \<rparr>])"

lemma handed_over_length: "handed_over ws ws' \<Longrightarrow> length ws' = length ws"
  by (auto simp: handed_over_def)

lemma enqueue_fleet:
  assumes inv: "fleet_inv (c # fs) ws w" and load: "fleet_load ws + 1 < 2 ^ 64" and j: "j < length ws" and K: "eventfd_writable K"
    and eq: "enqueue K c a (ws ! j, w) = (taken, wk', w')"
  shows "handed_over ws (ws[j := wk']) \<and> fleet_ok (if taken then fs else c # fs) (ws[j := wk']) w'"
proof (cases "wk_running (ws ! j) \<and> \<not> of_nat (length (wk_queue (ws ! j))) \<ge> queueLimit (ws ! j)")
  case False
  then have "enqueue K c a (ws ! j, w) = (False, ws ! j, w)" by (intro enqueue_refused) auto
  then show ?thesis using eq inv load by (simp add: handed_over_def fleet_ok_def)
next
  case True
  then have q: "wk_running (ws ! j)" "\<not> of_nat (length (wk_queue (ws ! j))) \<ge> queueLimit (ws ! j)" by auto
  define as bs where "as = take j ws" and "bs = drop (Suc j) ws"
  have ws: "ws = as @ ws ! j # bs" using j by (simp add: as_def bs_def id_take_nth_drop)
  have upd: "ws[j := v] = as @ v # bs" for v using j by (simp add: as_def bs_def upd_conv_take_nth_drop)
  have wk': "taken" "wk' = (ws ! j)\<lparr> wk_queue := wk_queue (ws ! j) @ [\<lparr> ac_fd = c, ac_address = a \<rparr>] \<rparr>"
    using eq enqueue_queued [OF q, of K c a w] K by (auto simp: Let_def eventfd_writable_def)
  have f: "fleet_inv ([c] @ fs) (as @ ws ! j # bs) w" using inv ws by simp
  then have "worker_inv (rest_fds fs (as @ bs)) (rest_base (as @ bs) w) (fleet_sessions (as @ bs)) (ws ! j) [] [c] w"
    unfolding fleet_focus by simp
  from fleet_step [OF f enqueue_inv [OF this q eq]] have "fleet_inv fs (as @ wk' # bs) w'" by simp
  moreover have "fleet_load (as @ wk' # bs) < 2 ^ 64"
    using load_queue [where as = as and wk = "ws ! j" and bs = bs] load ws by (simp add: wk' fleet_perm)
  moreover have "handed_over ws (ws[j := wk'])" using q j wk' unfolding handed_over_def by blast
  ultimately show ?thesis using wk'(1) by (simp add: fleet_ok_def upd)
qed

lemma dispatchClient_ok:
  assumes inv: "fleet_inv (c # fs) ws w" and load: "fleet_load ws + 1 < 2 ^ 64" and ws: "ws \<noteq> []" "length ws < 2 ^ 64"
    and K: "eventfd_writable K" and eq: "dispatchClient K c address (ws, cursor, w) = (ws', cursor', w')"
  shows "handed_over ws ws' \<and> fleet_ok fs ws' w'"
proof -
  let ?w1 = "on_metrics onAccepted w"
  have rej: "neutral v (on_metrics onRejected v)" for v by (rule neutral_calm) simp
  obtain r h where nd: "setTcpNoDelay K c (wd_os ?w1) = (r, h)" by fastforce
  have i1: "fleet_inv (c # fs) ws (?w1\<lparr> wd_os := h \<rparr>)"
    using fleet_neutral [OF fleet_neutral [OF inv neutral_calm [OF calm_prims(9)]] neutral_nodelay [OF nd]] .
  show ?thesis
  proof (cases r)
    case (Inl e)
    define w2 where "w2 = w_log Warn ''cannot configure client socket: %s'' (?w1\<lparr> wd_os := h \<rparr>)"
    have "fleet_inv (c # fs) ws w2" unfolding w2_def using fleet_neutral [OF i1 neutral_calm [OF calm_prims(1)]] .
    then have "fleet_inv fs ws (on_metrics onRejected (w_close c w2))" using fleet_close fleet_neutral rej by blast
    moreover have "ws' = ws" "w' = on_metrics onRejected (w_close c w2)"
      using eq nd Inl by (simp_all add: dispatchClient_def Let_def w2_def)
    ultimately show ?thesis using load by (simp add: handed_over_def fleet_ok_def)
  next
    case (Inr u)
    let ?j = "selectWorker ws cursor"
    obtain taken wk' w2 where en: "enqueue K c (peerAddress K address) (ws ! ?j, ?w1\<lparr> wd_os := h \<rparr>) = (taken, wk', w2)" by (metis prod_cases3)
    note e = enqueue_fleet [OF i1 load selectWorker_bound [OF ws] K en]
    have res: "ws' = ws[?j := wk']" "w' = (if taken then w2 else on_metrics onRejected (w_close c w2))"
      using eq nd Inr en by (auto simp: dispatchClient_def Let_def)
    show ?thesis using e res fleet_neutral [OF fleet_close rej] by (cases taken) (simp_all add: fleet_ok_def)
  qed
qed

lemma acceptOne_ok:
  assumes ok: "fleet_ok fs ws w" and load: "fleet_load ws + 1 < 2 ^ 64" and ws: "ws \<noteq> []" "length ws < 2 ^ 64"
    and K: "eventfd_writable K" "fresh_fds K"
    and eq: "acceptOne K l (ws, cursor, w) = Inl (ws', cursor', w') \<or> acceptOne K l (ws, cursor, w) = Inr (ws', cursor', w')"
  shows "handed_over ws ws' \<and> fleet_ok fs ws' w'"
proof (cases "k_accept4 K (wd_os w) l")
  case (Err e)
  let ?w = "w\<lparr> wd_os := wd_os w @ [Accept4 l (Err e)] \<rparr>"
  have n: "neutral w ?w" by (simp add: neutral_def)
  have "ws' = ws" "w' = ?w \<or> w' = w_log Warn ''accept4 failed: %s'' ?w"
    using eq Err by (auto simp: acceptOne_def w_accept4_def split: if_split_asm)
  then show ?thesis
    using ok fleet_neutral [OF _ n] fleet_neutral [OF _ neutral_trans [OF n neutral_calm [OF calm_prims(1)]]]
    by (auto simp: fleet_ok_def handed_over_def)
next
  case (Ok ca)
  obtain c a where ca: "ca = (c, a)" by (cases ca)
  have "0 \<le> c" "c \<notin> open_fds (wd_os w)" using K(2) Ok unfolding ca fresh_fds_def by blast+
  then have "fleet_inv (c # fs) ws (w\<lparr> wd_os := wd_os w @ [Accept4 l (Ok (c, a))] \<rparr>)"
    using ok by (intro fleet_open) (simp_all add: fleet_ok_def)
  then show ?thesis
    using eq Ok ca load dispatchClient_ok [OF _ _ ws K(1)] by (auto simp: acceptOne_def w_accept4_def)
qed

end
