(* ===== verification/System.thy ===== *)
theory System
  imports Fleet
begin

text \<open>
  The whole process: the main thread, the worker threads, the health checker and the statistics thread as one step
  relation over the objects of \<^verbatim>\<open>main\<close>, one handler call at a time. Every step keeps the invariant of all workers (theory
  \<open>Fleet\<close>); from it follow the properties of start-up and of shutdown. What a whole turn of the main loop does is in theory
  \<open>AcceptRound\<close>.
\<close>

section \<open>The process as a step relation\<close>

text \<open>Where a worker thread is in \<^verbatim>\<open>run\<close> (with its \<^verbatim>\<open>lastSweep\<close>), and where the main thread is.\<close>

datatype thread_pc = Starting | Looping int | Leaving | Stopped

datatype main_pc = Polling | Accepting | Stopping

record System =
  sy_listenFd :: UniqueFd
  sy_checker :: HealthChecker
  sy_workers :: "Worker list"
  sy_pcs :: "thread_pc list"
  sy_cursor :: size_t
  sy_stopRequested :: bool
  sy_main :: main_pc
  sy_world :: world

definition system_of :: "Server \<Rightarrow> world \<Rightarrow> System" where
  "system_of sv w = \<lparr> sy_listenFd = sv_listenFd sv, sy_checker = sv_checker sv, sy_workers = sv_workers sv,
     sy_pcs = map (\<lambda>_. Starting) (sv_workers sv), sy_cursor = 0, sy_stopRequested = False,
     sy_main = Polling, sy_world = w \<rparr>"

definition set_worker :: "nat \<Rightarrow> Worker \<Rightarrow> thread_pc \<Rightarrow> world \<Rightarrow> System \<Rightarrow> System" where
  "set_worker j wk pc w sy = sy\<lparr> sy_workers := (sy_workers sy)[j := wk], sy_pcs := (sy_pcs sy)[j := pc], sy_world := w \<rparr>"

text \<open>\<^verbatim>\<open>Worker::join\<close> returns when the thread has ended.\<close>

definition Worker_joined :: "thread_pc \<Rightarrow> bool" where
  [simp]: "Worker_joined pc \<longleftrightarrow> pc = Stopped"

text \<open>One step of a worker thread: \<^verbatim>\<open>run\<close> up to its loop, one iteration, and what follows the loop.\<close>

inductive worker_thread :: "kernel \<Rightarrow> thread_pc \<times> Worker \<times> world \<Rightarrow> thread_pc \<times> Worker \<times> world \<Rightarrow> bool" for K where
  enter: "runStart K w = (t, w') \<Longrightarrow> worker_thread K (Starting, wk, w) (Looping t, wk, w')"
| iterate: "wk_running wk \<Longrightarrow> runIteration K (t, wk, w) = Some (True, t', wk', w') \<Longrightarrow>
    worker_thread K (Looping t, wk, w) (Looping t', wk', w')"
| failed: "wk_running wk \<Longrightarrow> runIteration K (t, wk, w) = Some (False, t', wk', w') \<Longrightarrow>
    worker_thread K (Looping t, wk, w) (Leaving, wk', w')"
| leave: "\<not> wk_running wk \<Longrightarrow> worker_thread K (Looping t, wk, w) (Leaving, wk, w)"
| cleanup: "runExit K (wk, w) = (wk', w') \<Longrightarrow> worker_thread K (Leaving, wk, w) (Stopped, wk', w')"

inductive_cases worker_threadE: "worker_thread K (pc, wk, w) (pc', wk', w')"

text \<open>
  One step of the main thread in its loop: it waits for the listening socket, accepts one client at a time until the socket is
  drained, and looks at the flag of the signal handler only between two waits. The guard of \<open>accept\<close> says that fewer than
  \<open>2 ^ 64\<close> clients are ever accepted.
\<close>

inductive accept_step :: "kernel \<Rightarrow> System \<Rightarrow> System \<Rightarrow> bool" for K where
  poll: "sy_main sy = Polling \<Longrightarrow> \<not> sy_stopRequested sy \<Longrightarrow>
    waitListener K (UniqueFd_get (sy_listenFd sy)) (sy_world sy) = (Inr ready, w) \<Longrightarrow>
    accept_step K sy (sy\<lparr> sy_main := if ready then Accepting else Polling, sy_world := w \<rparr>)"
| accept: "sy_main sy = Accepting \<Longrightarrow> fleet_load (sy_workers sy) + 1 < 2 ^ 64 \<Longrightarrow>
    acceptOne K (UniqueFd_get (sy_listenFd sy)) (sy_workers sy, sy_cursor sy, sy_world sy) = Inr (ws, cursor, w) \<Longrightarrow>
    accept_step K sy (sy\<lparr> sy_workers := ws, sy_cursor := cursor, sy_world := w \<rparr>)"
| drained: "sy_main sy = Accepting \<Longrightarrow> fleet_load (sy_workers sy) + 1 < 2 ^ 64 \<Longrightarrow>
    acceptOne K (UniqueFd_get (sy_listenFd sy)) (sy_workers sy, sy_cursor sy, sy_world sy) = Inl (ws, cursor, w) \<Longrightarrow>
    accept_step K sy (sy\<lparr> sy_workers := ws, sy_cursor := cursor, sy_main := Polling, sy_world := w \<rparr>)"
| shutdown: "sy_main sy = Polling \<Longrightarrow> sy_stopRequested sy \<Longrightarrow>
    accept_step K sy (sy\<lparr> sy_main := Stopping, sy_world := w_log Info ''shutdown requested'' (sy_world sy) \<rparr>)"

definition signalHandler :: "System \<Rightarrow> System" where
  "signalHandler sy = sy\<lparr> sy_stopRequested := True \<rparr>"

text \<open>
  The threads of the process in any order: workers, the main thread, whole rounds of the checker, whole reports, the signal
  handler, and the stop of a worker once the main thread has left its loop. Theory \<open>Process\<close> adds the order in which
  the main thread stops and joins the others.
\<close>

inductive system_step :: "kernel \<Rightarrow> System \<Rightarrow> System \<Rightarrow> bool" for K where
  worker: "j < length (sy_workers sy) \<Longrightarrow> worker_thread K (sy_pcs sy ! j, sy_workers sy ! j, sy_world sy) (pc, wk, w) \<Longrightarrow>
    system_step K sy (set_worker j wk pc w sy)"
| main: "accept_step K sy sy' \<Longrightarrow> system_step K sy sy'"
| check: "checkOnce K (sy_checker sy, wd_pool (sy_world sy), wd_os (sy_world sy)) = Some (hc, p, h) \<Longrightarrow>
    system_step K sy (sy\<lparr> sy_checker := hc, sy_world := (sy_world sy)\<lparr> wd_pool := p, wd_os := h \<rparr> \<rparr>)"
| report: "system_step K sy (sy\<lparr> sy_world := statsReport (sy_world sy) \<rparr>)"
| signal: "system_step K sy (signalHandler sy)"
| stop: "sy_main sy = Stopping \<Longrightarrow> j < length (sy_workers sy) \<Longrightarrow> Worker_stop K (sy_workers sy ! j, sy_world sy) = (wk, w) \<Longrightarrow>
    system_step K sy (set_worker j wk (sy_pcs sy ! j) w sy)"

text \<open>epoll_wait(2): on a valid epoll descriptor and buffer the only failure is an interruption.\<close>

definition epoll_reliable :: "kernel \<Rightarrow> bool" where
  "epoll_reliable K \<longleftrightarrow> (\<forall>h ep n t e. k_epoll_wait K h ep n t = Err e \<longrightarrow> e = EINTR)"

definition system_kernel :: "kernel \<Rightarrow> nat \<Rightarrow> bool" where
  "system_kernel K B \<longleftrightarrow> kernel_ok K B \<and> eventfd_writable K"

text \<open>The objects of a thread that has ended: its sessions are gone. Its queue is empty unless its \<^verbatim>\<open>epoll_wait\<close> failed.\<close>

definition phase_ok :: "Worker \<Rightarrow> thread_pc \<Rightarrow> bool" where
  "phase_ok wk pc \<longleftrightarrow> (pc = Stopped \<longrightarrow> wk_sessions wk = [])"

definition system_inv :: "System \<Rightarrow> bool" where
  "system_inv sy \<longleftrightarrow> fleet_ok [UniqueFd_get (sy_listenFd sy)] (sy_workers sy) (sy_world sy) \<and> sy_workers sy \<noteq> [] \<and>
     list_all2 phase_ok (sy_workers sy) (sy_pcs sy)"

section \<open>Every step keeps the invariant\<close>

lemma fleet_worker:
  assumes "fleet_ok fs ws w" "j < length ws"
  shows "\<exists>X base m0. worker_ok X base m0 0 (ws ! j) [] w"
proof -
  let ?as = "take j ws" and ?bs = "drop (Suc j) ws"
  have ws: "ws = ?as @ ws ! j # ?bs" using assms(2) by (rule id_take_nth_drop)
  have inv: "fleet_inv ([] @ fs) (?as @ ws ! j # ?bs) w" and load: "fleet_load (?as @ ws ! j # ?bs) + 0 < 2 ^ 64"
    using assms(1) ws by (simp_all add: fleet_ok_def)
  show ?thesis using inv [unfolded fleet_focus] fleet_budget [OF inv load] by blast
qed

lemma fleet_ok_update:
  assumes "fleet_ok fs ws w" "j < length ws"
    "\<And>X base m0 n. worker_ok X base m0 n (ws ! j) [] w \<Longrightarrow> worker_ok X base m0 n wk' [] w'"
  shows "fleet_ok fs (ws[j := wk']) w'"
proof -
  have "fleet_ok fs (take j ws @ ws ! j # drop (Suc j) ws) w" using assms(1,2) by (simp flip: id_take_nth_drop)
  from fleet_ok_worker [OF this assms(3)] show ?thesis using assms(2) by (simp add: upd_conv_take_nth_drop)
qed

lemma phases_handed_over:
  assumes "list_all2 phase_ok ws pcs" "handed_over ws ws'"
  shows "list_all2 phase_ok ws' pcs"
proof -
  have nth: "i < length ws \<Longrightarrow> phase_ok (ws ! i) (pcs ! i)" and len: "length pcs = length ws" for i
    using assms(1) by (auto simp: list_all2_conv_all_nth)
  have "length ws' = length ws \<and> (\<forall>i<length ws. phase_ok (ws' ! i) (pcs ! i))"
    using assms(2) nth by (auto simp: handed_over_def nth_list_update phase_ok_def)
  then show ?thesis using len by (simp add: list_all2_conv_all_nth)
qed

lemma fleet_length:
  assumes "fleet_ok fs ws w"
  shows "length ws < 2 ^ 64"
proof -
  have "1 \<le> unat (wk_nextSessionId wk) + length (wk_queue wk)" if "wk \<in> set ws" for wk
    using assms that by (fastforce simp: fleet_ok_def fleet_inv_def local_ok_def)
  then have "(\<Sum>wk\<leftarrow>ws. 1) \<le> fleet_load ws" unfolding fleet_load_def by (intro sum_list_mono) auto
  then show ?thesis using assms by (simp add: sum_list_triv fleet_ok_def)
qed

lemma runStart_calm: "runStart K w = (t, w') \<Longrightarrow> calm w w'"
  unfolding runStart_def using calm_trans [OF calm_prims(1) calm_now] by blast

lemma reportBackends_calm: "calm w (reportBackends bs w)"
  by (induction bs arbitrary: w) (auto intro: calm_trans [OF calm_prims(1)])

lemma statsReport_neutral: "neutral w (statsReport w)"
  unfolding statsReport_def using calm_trans [OF calm_prims(1) reportBackends_calm] by (rule neutral_calm)

lemma check_neutral:
  assumes "fresh_fds K" "checkOnce K (hc, wd_pool w, wd_os w) = Some (hc', p, h)"
  shows "neutral w (w\<lparr> wd_pool := p, wd_os := h \<rparr>)"
  using checkOnce_effect [OF assms] by (auto simp: neutral_def)

lemma Worker_stop_ok:
  assumes "Worker_stop K (wk, w) = (wk', w')"
  shows "worker_ok X base m0 n wk [] w \<Longrightarrow> worker_ok X base m0 n wk' [] w'" "\<not> wk_running wk'"
    "wk_sessions wk' = wk_sessions wk" "wk_queue wk' = wk_queue wk" "wk_epollFd wk' = wk_epollFd wk" "wk_wakeFd wk' = wk_wakeFd wk"
  using assms calm_inv [OF _ calm_prims(6)] by (auto simp: Worker_stop_def split: if_split_asm)

lemma system_inv_worker:
  assumes inv: "system_inv sy" and j: "j < length (sy_workers sy)"
    and op: "\<And>X base m0 n. worker_ok X base m0 n (sy_workers sy ! j) [] (sy_world sy) \<Longrightarrow> worker_ok X base m0 n wk [] w"
    and pc: "phase_ok wk pc"
  shows "system_inv (set_worker j wk pc w sy)"
proof -
  have "fleet_ok [UniqueFd_get (sy_listenFd sy)] ((sy_workers sy)[j := wk]) w"
    using inv j op by (intro fleet_ok_update) (auto simp: system_inv_def)
  then show ?thesis using inv pc by (simp add: system_inv_def set_worker_def list_all2_update_cong)
qed

lemma system_inv_neutral:
  assumes "system_inv sy" "neutral (sy_world sy) w"
  shows "system_inv (sy\<lparr> sy_world := w \<rparr>)"
  using assms fleet_neutral [OF _ assms(2)] by (simp add: system_inv_def fleet_ok_def)

lemma waitListener_neutral: "waitListener K l w = (r, w') \<Longrightarrow> neutral w w'"
  by (auto simp: waitListener_def sys_poll_def neutral_def os_simps Let_def split: sysret.split_asm if_split_asm prod.split_asm)

lemma acceptOne_system:
  assumes inv: "system_inv sy" and load: "fleet_load (sy_workers sy) + 1 < 2 ^ 64" and K: "eventfd_writable K" "fresh_fds K"
    and eq: "acceptOne K (UniqueFd_get (sy_listenFd sy)) (sy_workers sy, sy_cursor sy, sy_world sy) = Inl (ws, cursor, w) \<or>
      acceptOne K (UniqueFd_get (sy_listenFd sy)) (sy_workers sy, sy_cursor sy, sy_world sy) = Inr (ws, cursor, w)"
  shows "system_inv (sy\<lparr> sy_workers := ws, sy_cursor := cursor, sy_world := w \<rparr>)"
    "system_inv (sy\<lparr> sy_workers := ws, sy_cursor := cursor, sy_main := pc, sy_world := w \<rparr>)" "handed_over (sy_workers sy) ws"
proof -
  have ok: "fleet_ok [UniqueFd_get (sy_listenFd sy)] (sy_workers sy) (sy_world sy)" "sy_workers sy \<noteq> []"
    using inv by (simp_all add: system_inv_def)
  have a: "handed_over (sy_workers sy) ws \<and> fleet_ok [UniqueFd_get (sy_listenFd sy)] ws w"
    using acceptOne_ok [OF ok(1) load ok(2) fleet_length [OF ok(1)] K eq] .
  moreover have "ws \<noteq> []" using a ok(2) handed_over_length by (metis length_0_conv)
  ultimately show "system_inv (sy\<lparr> sy_workers := ws, sy_cursor := cursor, sy_world := w \<rparr>)"
    "system_inv (sy\<lparr> sy_workers := ws, sy_cursor := cursor, sy_main := pc, sy_world := w \<rparr>)" "handed_over (sy_workers sy) ws"
    using inv phases_handed_over unfolding system_inv_def by auto
qed

lemma worker_thread_ok:
  assumes "kernel_ok K B" "worker_ok X base m0 n wk [] w" "worker_thread K (pc, wk, w) (pc', wk', w')"
  shows "worker_ok X base m0 n wk' [] w' \<and> same_worker wk wk' \<and> phase_ok wk' pc'"
  using assms(3)
proof (rule worker_threadE)
  fix t assume "runStart K w = (t, w')" "wk' = wk" "pc' = Looping t"
  then show ?thesis using assms(2) calm_inv [OF _ runStart_calm] by (auto simp: phase_ok_def)
next
  fix t t' assume "pc' = Looping t'" "runIteration K (t, wk, w) = Some (True, t', wk', w')"
  then show ?thesis using runIteration_ok [OF assms(1,2), where lastSweep = t] by (auto simp: phase_ok_def)
next
  fix t t' assume "pc' = Leaving" "runIteration K (t, wk, w) = Some (False, t', wk', w')"
  then show ?thesis using runIteration_ok [OF assms(1,2), where lastSweep = t] by (auto simp: phase_ok_def)
next
  assume "runExit K (wk, w) = (wk', w')"
  then show ?thesis using runExit_ok [OF _ assms(2)] assms(1) by (auto simp: phase_ok_def kernel_ok_def)
qed (use assms(2) in \<open>simp add: phase_ok_def\<close>)

lemma accept_step_inv:
  assumes K: "fresh_fds K" "eventfd_writable K" and step: "accept_step K sy sy'" and inv: "system_inv sy"
  shows "system_inv sy'"
  using step
proof cases
  case (poll ready w)
  from system_inv_neutral [OF inv waitListener_neutral [OF poll(4)]] show ?thesis unfolding poll(1) by (simp add: system_inv_def)
next
  case (accept ws cursor w)
  then show ?thesis using acceptOne_system [OF inv accept(3) K(2,1)] by blast
next
  case (drained ws cursor w)
  then show ?thesis using acceptOne_system [OF inv drained(3) K(2,1)] by blast
next
  case shutdown
  from system_inv_neutral [OF inv neutral_calm [OF calm_prims(1)]] show ?thesis unfolding shutdown(1) by (simp add: system_inv_def)
qed

lemma system_inv_step:
  assumes K: "system_kernel K B" and step: "system_step K sy sy'" and inv: "system_inv sy"
  shows "system_inv sy'"
proof -
  have ko: "kernel_ok K B" and fresh: "fresh_fds K" and ew: "eventfd_writable K"
    using K by (simp_all add: system_kernel_def kernel_ok_def)
  from step show ?thesis
  proof cases
    case (worker j pc wk w)
    have "fleet_ok [UniqueFd_get (sy_listenFd sy)] (sy_workers sy) (sy_world sy)" using inv by (simp add: system_inv_def)
    then have "phase_ok wk pc" using fleet_worker worker(2) worker_thread_ok [OF ko _ worker(3)] by blast
    then show ?thesis unfolding worker(1) using worker_thread_ok [OF ko _ worker(3)] by (intro system_inv_worker [OF inv worker(2)]) blast+
  next
    case main
    then show ?thesis using accept_step_inv [OF fresh ew] inv by blast
  next
    case (check hc p h)
    from system_inv_neutral [OF inv check_neutral [OF fresh check(2)]] show ?thesis unfolding check(1) by (simp add: system_inv_def)
  next
    case report
    then show ?thesis using system_inv_neutral [OF inv statsReport_neutral] by simp
  next
    case signal
    then show ?thesis using inv by (simp add: system_inv_def signalHandler_def)
  next
    case (stop j wk w)
    have "phase_ok (sy_workers sy ! j) (sy_pcs sy ! j)" using inv stop(3) by (simp add: system_inv_def list_all2_conv_all_nth)
    then have "phase_ok wk (sy_pcs sy ! j)" using Worker_stop_ok(3) [OF stop(4)] by (simp add: phase_ok_def)
    then show ?thesis unfolding stop(1) using Worker_stop_ok(1) [OF stop(4)] by (intro system_inv_worker [OF inv stop(3)])
  qed
qed

lemma system_inv_reachable:
  "(system_step K)\<^sup>*\<^sup>* sy sy' \<Longrightarrow> system_kernel K B \<Longrightarrow> system_inv sy \<Longrightarrow> system_inv sy'"
  by (induction rule: rtranclp_induct) (auto intro: system_inv_step)

section \<open>Shutdown\<close>

text \<open>
  The members of a worker are destroyed; a queue that is not empty is destroyed without closing the descriptors in it,
  which then belong to nobody: they are counted to the main thread.
\<close>

definition queued_fds :: "Worker list \<Rightarrow> fd list" where
  "queued_fds ws = concat (map (\<lambda>wk. map ac_fd (wk_queue wk)) ws)"

lemma destroy_worker_inv:
  assumes inv: "fleet_inv fs (wk # ws) w" and idle: "wk_sessions wk = []"
  shows "fleet_inv (map ac_fd (wk_queue wk) @ fs) ws (Worker_destroy K wk w)"
proof -
  let ?e = "UniqueFd_get (wk_epollFd wk)" and ?k = "UniqueFd_get (wk_wakeFd wk)" and ?q = "map ac_fd (wk_queue wk)"
  obtain wk1 w1 where st: "Worker_stop K (wk, w) = (wk1, w1)" by fastforce
  have "calm w w1" using st by (auto simp: Worker_stop_def split: if_split_asm)
  from fleet_neutral [OF inv neutral_calm [OF this]] have i1: "fleet_inv fs (wk # ws) w1" .
  have "mset (fs @ fleet_fds (wk # ws)) = mset (?k # ?e # (?q @ fs) @ fleet_fds ws)" using idle by (simp add: fleet_fds_def owned_def)
  then have f: "fds_ok {} (?k # ?e # (?q @ fs) @ fleet_fds ws) (wd_os w1)" using i1 fds_ok_perm unfolding fleet_inv_def by blast
  then have "wd_os (Worker_destroy K wk w) = (wd_os w1 @ [Close ?k]) @ [Close ?e]"
    using st Worker_stop_ok(5,6) [OF st] by (simp add: Worker_destroy_def UniqueFd_destroy_open fds_ok_def)
  moreover have "wd_pool (Worker_destroy K wk w) = wd_pool w1" "wd_metrics (Worker_destroy K wk w) = wd_metrics w1"
    using st by (simp_all add: Worker_destroy_def)
  ultimately show ?thesis
    using i1 idle fds_ok_close [OF fds_ok_close [OF f]] by (simp add: fleet_inv_def fleet_sessions_def fleet_holders_def)
qed

lemma fleet_inv_perm: "mset fs = mset gs \<Longrightarrow> fleet_inv fs ws w = fleet_inv gs ws w"
  using fds_ok_perm [of "fs @ fleet_fds ws" "gs @ fleet_fds ws"] by (simp add: fleet_inv_def)

lemma destroyWorkers_inv:
  assumes "fleet_inv fs ws w" "\<forall>wk\<in>set ws. wk_sessions wk = []"
  shows "fleet_inv (fs @ queued_fds ws) [] (destroyWorkers K ws w)"
  using assms
proof (induction ws arbitrary: w fs)
  case (Cons wk ws)
  have "fleet_inv ((map ac_fd (wk_queue wk) @ fs) @ queued_fds ws) [] (destroyWorkers K ws (Worker_destroy K wk w))"
    using Cons.IH [OF destroy_worker_inv [OF Cons.prems(1)]] Cons.prems(2) by simp
  then show ?case
    using fleet_inv_perm [of "(map ac_fd (wk_queue wk) @ fs) @ queued_fds ws" "fs @ queued_fds (wk # ws)"] by (simp add: queued_fds_def)
qed (simp add: queued_fds_def)

lemma fleet_inv_Nil:
  assumes "fleet_inv fs [] w"
  shows "open_fds (wd_os w) = set fs" "closes_ok (wd_os w)" "i < length (bp_backends (wd_pool w)) \<Longrightarrow> active (wd_pool w) i = 0"
    "mt_active (wd_metrics w) = 0"
  using assms by (auto simp: fleet_inv_def fleet_defs fds_ok_def unat_eq_0)

lemma destroy_listener:
  assumes "fleet_inv (UniqueFd_get u # fs) [] w"
  shows "open_fds (UniqueFd_destroy u (wd_os w)) = set fs" "closes_ok (UniqueFd_destroy u (wd_os w))"
proof -
  have f: "fds_ok {} (UniqueFd_get u # fs) (wd_os w)" using assms by (simp add: fleet_inv_def fleet_fds_def)
  then have "UniqueFd_destroy u (wd_os w) = wd_os w @ [Close (UniqueFd_get u)]" by (simp add: UniqueFd_destroy_open fds_ok_def)
  with fds_ok_close [OF f] show "open_fds (UniqueFd_destroy u (wd_os w)) = set fs" "closes_ok (UniqueFd_destroy u (wd_os w))"
    by (simp_all add: fds_ok_def)
qed

section \<open>Start-up\<close>

text \<open>A worker no client has reached yet.\<close>

definition untouched :: "Worker \<Rightarrow> bool" where
  "untouched wk \<longleftrightarrow> wk_sessions wk = [] \<and> wk_queue wk = [] \<and> wk_nextSessionId wk = 1"

lemma untouched_load: "\<forall>wk\<in>set ws. untouched wk \<Longrightarrow> fleet_load ws = length ws"
  unfolding fleet_load_def by (induction ws) (auto simp: untouched_def)

lemma Worker_new_frame: "Worker_new K i config w = (r, w') \<Longrightarrow> wd_pool w' = wd_pool w \<and> wd_metrics w' = wd_metrics w"
  by (auto simp: Worker_new_def Let_def registerFd_def w_epoll_ctl_def split: prod.split_asm sysret.split_asm if_split_asm)

lemma add_worker:
  assumes K: "fresh_fds K" and inv: "fleet_inv fs ws w" and eq: "Worker_new K i config w = (Inr wk, w')"
  shows "fleet_inv fs (ws @ [snd (Worker_start wk)]) w' \<and> untouched (snd (Worker_start wk))"
proof -
  have fds: "open_fds (wd_os w) = rest_fds fs (ws @ [])" "closes_ok (wd_os w)" using inv by (simp_all add: fleet_inv_def fds_ok_def rest_fds_def)
  have m: "actives (wd_pool w) = rest_base (ws @ []) w" "unat (mt_active (wd_metrics w)) = fleet_sessions (ws @ [])"
    using inv by (simp_all add: fleet_inv_def actives_def rest_base_def)
  note new = Worker_new_spec [OF K fds(2) eq, unfolded fds(1) m, simplified]
  have len: "length (bp_backends (wd_pool w')) = length (bp_backends (wd_pool w))"
    using new by (simp add: worker_inv_def counts_ok_def rest_base_def)
  have "rest_ok fs (ws @ []) (wd_pool w')"
    using inv by (auto simp: rest_ok_def fleet_inv_def fds_ok_def local_ok_length [OF len])
  moreover have "rest_base (ws @ []) w' = rest_base (ws @ []) w" by (simp add: rest_base_def len)
  ultimately have "fleet_inv ([] @ fs) (ws @ snd (Worker_start wk) # []) w'"
    unfolding fleet_focus using new by (simp add: Worker_start_def)
  then show ?thesis using new by (simp add: untouched_def Worker_start_def)
qed

lemma unwindWorkers_inv:
  assumes K: "fresh_fds K" and inv: "fleet_inv fs ws w" "\<forall>wk\<in>set ws. untouched wk" "length ws < 2 ^ 64"
  shows "fleet_inv fs [] (unwindWorkers K ws w)"
  using inv
proof (induction ws arbitrary: w)
  case (Cons wk ws)
  obtain t w0 where en: "runStart K w = (t, w0)" by fastforce
  obtain wk1 w1 where st: "Worker_stop K (wk, w0) = (wk1, w1)" by fastforce
  obtain wk2 w2 where ex: "runExit K (wk1, w1) = (wk2, w2)" by fastforce
  have "fleet_inv fs (wk # ws) w0" using fleet_neutral [OF Cons.prems(1) neutral_calm [OF runStart_calm [OF en]]] .
  then have ok: "fleet_ok fs ([] @ wk # ws) w0" using Cons.prems untouched_load [of "wk # ws"] by (simp add: fleet_ok_def)
  have step: "worker_ok X base m0 n wk2 [] w2 \<and> wk_sessions wk2 = [] \<and> wk_queue wk2 = []" if "worker_ok X base m0 n wk [] w0" for X base m0 n
    using runExit_ok [OF K Worker_stop_ok(1) [OF st that] ex] by blast
  have "fleet_ok fs ([] @ wk2 # ws) w2" by (rule fleet_ok_worker [OF ok]) (use step in blast)
  then have "fleet_inv fs (wk2 # ws) w2" by (simp add: fleet_ok_def)
  moreover obtain X base m0 where "worker_ok X base m0 0 wk [] w0" using fleet_worker [OF ok, of 0] by auto
  then have "wk_sessions wk2 = []" "wk_queue wk2 = []" using step by blast+
  ultimately have "fleet_inv fs ws (Worker_destroy K wk2 w2)" using destroy_worker_inv by fastforce
  then show ?case using Cons en st ex by simp
qed simp

lemma startWorkers_ok:
  assumes K: "fresh_fds K" and inv: "fleet_inv fs ws w" "\<forall>wk\<in>set ws. untouched wk" "length ws + length is < 2 ^ 64"
    and eq: "startWorkers K config is ws w = (r, w')"
  shows "case r of Inl e \<Rightarrow> fleet_inv fs [] w'
    | Inr ws' \<Rightarrow> fleet_inv fs ws' w' \<and> (\<forall>wk\<in>set ws'. untouched wk) \<and> length ws' = length ws + length is"
  using inv eq
proof (induction "is" arbitrary: ws w)
  case (Cons i "is")
  obtain r1 w1 where new: "Worker_new K (of_nat i) config w = (r1, w1)" by fastforce
  show ?case
  proof (cases r1)
    case (Inl e)
    have "closes_ok (wd_os w)" using Cons.prems(1) by (simp add: fleet_inv_def fds_ok_def)
    note sp = Worker_new_spec [OF K this new, unfolded Inl, simplified]
    have "neutral w w1" using sp Worker_new_frame [OF new] by (simp add: neutral_def)
    then show ?thesis using unwindWorkers_inv [OF K fleet_neutral] Cons.prems new Inl by auto
  next
    case (Inr wk)
    then show ?thesis using Cons.IH [of "ws @ [snd (Worker_start wk)]" w1] add_worker [OF K Cons.prems(1), of "of_nat i" config wk w1] Cons.prems new
      by (cases r) auto
  qed
qed auto

lemma BackendPool_new_fresh:
  assumes "BackendPool_new K configs h = (r, h')"
  shows "open_fds h' = open_fds h \<and> (closes_ok h \<longrightarrow> closes_ok h') \<and>
    (case r of Inl e \<Rightarrow> True | Inr p \<Rightarrow> \<forall>i<length (bp_backends p). active p i = 0)"
proof -
  have ret: "fd_neutral (io_return x)" "fd_neutral (io_throw e)" for x :: 'b and e by (simp_all add: fd_neutral_def io_simps)
  have nb: "fd_neutral (Backend_new K c)" for c unfolding Backend_new_def by (intro fd_neutral_bind) (simp_all add: ret)
  have n: "fd_neutral (backends_new K cs)" for cs
    by (induction cs) (auto intro!: fd_neutral_bind nb ret)
  have "fd_neutral (BackendPool_new K configs)"
    unfolding BackendPool_new_def by (auto intro!: fd_neutral_bind n ret)
  moreover have zero: "b \<in> set bs \<Longrightarrow> be_activeConnections b = 0" if "backends_new K cs h = (Inr bs, h')" for cs bs b h h'
    using that by (induction cs arbitrary: bs h h') (auto simp: io_bind_Inr Backend_new_def io_simps)
  have "active p i = 0" if r: "r = Inr p" and i: "i < length (bp_backends p)" for p i
  proof -
    obtain bs h1 where "backends_new K configs h = (Inr bs, h1)" "bp_backends p = bs"
      using assms [unfolded r] by (auto simp: BackendPool_new_def io_bind_Inr io_simps split: if_split_asm)
    then show ?thesis using zero i by (simp add: active_def)
  qed
  ultimately show ?thesis using assms by (auto simp: fd_neutral_def split: sum.splits) (metis snd_conv)+
qed

lemma installSignals_neutral: "fd_neutral (installSignals K)"
  by (auto simp: fd_neutral_def installSignals_def os_simps io_simps split: sysret.splits)

text \<open>The server as it is handed to the accept loop.\<close>

lemma serving_inv:
  assumes K: "fresh_fds K" and listen: "fds_ok {} [f] h" and pool: "\<forall>i<length (bp_backends p). active p i = 0"
    and workers: "config_valid config"
    and start: "startWorkers K config [0..<unat (cfg_workers config)] [] \<lparr> wd_os = h, wd_metrics = Metrics_new, wd_pool = p \<rparr> = (r, w)"
  shows "case r of Inl e \<Rightarrow> fleet_inv [f] [] w
    | Inr ws \<Rightarrow> fleet_ok [f] ws w \<and> ws \<noteq> [] \<and> length ws = unat (cfg_workers config) \<and> (\<forall>wk\<in>set ws. untouched wk)"
proof -
  let ?n = "unat (cfg_workers config)"
  have "uint (cfg_workers config) \<in> {1..128}" using workers unfolding config_valid_def ranges_ok_def by blast
  moreover have "uint (cfg_workers config) = int ?n" by simp
  ultimately have n: "1 \<le> ?n" "?n \<le> 128" by (simp_all only: atLeastAtMost_iff) linarith+
  have "fleet_inv [f] [] \<lparr> wd_os = h, wd_metrics = Metrics_new, wd_pool = p \<rparr>"
    using listen pool by (simp add: fleet_inv_def fleet_defs Metrics_new_def)
  from startWorkers_ok [OF K this _ _ start] n show ?thesis
    using untouched_load by (auto simp: fleet_ok_def split: sum.splits)
qed

definition startup_ok :: "outcome \<Rightarrow> world \<Rightarrow> bool" where
  "startup_ok out w \<longleftrightarrow> (case out of
      Serving sv \<Rightarrow> config_valid (sv_config sv) \<and> length (sv_workers sv) = unat (cfg_workers (sv_config sv)) \<and> system_inv (system_of sv w)
    | _ \<Rightarrow> open_fds (wd_os w) = {} \<and> closes_ok (wd_os w))"

lemma startServer_spec:
  assumes K: "fresh_fds K" and h: "open_fds h = {}" "closes_ok h" and pool: "\<forall>i<length (bp_backends p). active p i = 0"
    and config: "config_valid config" and eq: "startServer K config lvl p h = (out, w)"
  shows "startup_ok out w"
proof -
  obtain r2 h2 where sig: "installSignals K h = (r2, h2)" by fastforce
  have h2: "open_fds h2 = {}" "closes_ok h2"
    using installSignals_neutral [unfolded fd_neutral_def, THEN spec, of K h] sig h by simp_all
  obtain r3 h3 where ls: "createListenSocket K (cfg_listenHost config) (cfg_listenPort config) (cfg_backlog config) h2 = (r3, h3)" by fastforce
  note la = createListenSocket_accounting [OF K ls]
  show ?thesis
  proof (cases "\<exists>u f. r2 = Inr u \<and> r3 = Inr f")
    case False
    then show ?thesis using eq sig h2 ls la by (cases r2; cases r3) (auto simp: startServer_def startup_ok_def)
  next
    case True
    then obtain u f where r: "r2 = Inr u" "r3 = Inr f" by blast
    then have lf: "fds_ok {} [f] h3" using la h2 by (simp add: fds_ok_def)
    obtain r4 w4 where st: "startWorkers K config [0..<unat (cfg_workers config)] [] \<lparr> wd_os = h3, wd_metrics = Metrics_new, wd_pool = p \<rparr> = (r4, w4)"
      by fastforce
    note inv = serving_inv [OF K lf pool config st]
    show ?thesis
    proof (cases r4)
      case (Inl e)
      have "fleet_inv [UniqueFd_get (UniqueFd_new f)] [] w4" using inv Inl by (simp add: UniqueFd_new_def UniqueFd_get_def)
      from destroy_listener [OF this] show ?thesis using eq sig ls r st Inl by (auto simp: startServer_def startup_ok_def)
    next
      case (Inr ws)
      have "neutral w4 w" using eq sig ls r st Inr neutral_calm [OF calm_prims(1)] by (auto simp: startServer_def)
      then have "fleet_ok [f] ws w" using inv Inr fleet_neutral by (auto simp: fleet_ok_def)
      then show ?thesis using eq sig ls r st Inr inv config
        by (auto simp: startServer_def startup_ok_def system_inv_def system_of_def UniqueFd_new_def UniqueFd_get_def list_all2_conv_all_nth phase_ok_def)
    qed
  qed
qed

lemma startup_ok_early [simp]:
  "startup_ok (Fatal e) w = (open_fds (wd_os w) = {} \<and> closes_ok (wd_os w))"
  "startup_ok (Finished t) w = (open_fds (wd_os w) = {} \<and> closes_ok (wd_os w))"
  by (simp_all add: startup_ok_def)

lemma main_start_spec:
  assumes K: "fresh_fds K" and h: "open_fds h = {}" "closes_ok h" and eq: "main_start K files argv h = (out, w)"
  shows "startup_ok out w"
proof -
  have serve: "startup_ok out w"
    if "load path input = Inr config" "BackendPool_new K (cfg_backends config) h = (Inr p, h1)" "startServer K config lvl p h1 = (out, w)"
    for path input config p h1 lvl
    using BackendPool_new_fresh [OF that(2)] h load_config_valid [OF that(1)] by (intro startServer_spec [OF K _ _ _ _ that(3)]) auto
  show ?thesis
    using eq h serve BackendPool_new_fresh
    by (auto simp: main_start_def Let_def split: sum.split_asm parsed.split_asm if_split_asm prod.split_asm)
qed

section \<open>A sample server\<close>

definition sample_files :: "string \<Rightarrow> string option" where
  "sample_files path =
     (if path = ''config/fluxgate.conf''
      then Some (concat (map (\<lambda>l. l @ [char_of (10 :: nat)])
        [''[server]'', ''listen_port = 81'', ''workers = 2'', ''[backend a]'', ''host = h'', ''port = 80'']))
      else None)"

lemma sample_system_kernel: "system_kernel sample_kernel 0"
  using sample_contracts
  by (simp add: system_kernel_def kernel_ok_def wake_bounded_def eventfd_writable_def) (simp add: sample_kernel_def)

lemma sample_serves: "\<exists>sv w. main_start sample_kernel sample_files [''fluxgate''] [] = (Serving sv, w) \<and> length (sv_workers sv) = 2"
proof -
  have "case main_start sample_kernel sample_files [''fluxgate''] [] of (Serving sv, w) \<Rightarrow> length (sv_workers sv) = 2 | _ \<Rightarrow> False"
    by code_simp
  then show ?thesis by (auto split: prod.splits outcome.splits)
qed

section \<open>Properties\<close>

text \<open>C3. The whole process stays consistent. From a successful start, after any interleaving of worker iterations, accepted
  clients, health checks, reports, signals and stops, every open descriptor has exactly one owner, each backend's
  connection count is the number of live sessions over all workers that hold a lease on it, the session gauge is the
  number of live sessions, the tables of every worker agree, and nothing was closed twice.\<close>

theorem system_invariant:
  assumes "system_kernel K B" "main_start K files argv [] = (Serving sv, w)" "(system_step K)\<^sup>*\<^sup>* (system_of sv w) sy"
  shows "fds_ok {} (UniqueFd_get (sy_listenFd sy) # fleet_fds (sy_workers sy)) (wd_os (sy_world sy)) \<and>
    (\<forall>i<length (bp_backends (wd_pool (sy_world sy))). active (wd_pool (sy_world sy)) i = fleet_holders (sy_workers sy) i) \<and>
    unat (mt_active (wd_metrics (sy_world sy))) = fleet_sessions (sy_workers sy) \<and> (\<forall>wk\<in>set (sy_workers sy). tables_ok wk)"
proof -
  have "fresh_fds K" using assms(1) by (simp add: system_kernel_def kernel_ok_def)
  from main_start_spec [OF this _ _ assms(2)] have "system_inv (system_of sv w)" by (simp add: startup_ok_def)
  from system_inv_reachable [OF assms(3,1) this] show ?thesis
    by (auto simp: system_inv_def fleet_ok_def fleet_inv_def local_ok_def)
qed

theorem system_invariant_witness:
  "\<exists>sv w sy. main_start sample_kernel sample_files [''fluxgate''] [] = (Serving sv, w) \<and> (system_step sample_kernel)\<^sup>*\<^sup>* (system_of sv w) sy \<and>
     sy_stopRequested sy \<and> fds_ok {} (UniqueFd_get (sy_listenFd sy) # fleet_fds (sy_workers sy)) (wd_os (sy_world sy))"
proof -
  obtain sv w where m: "main_start sample_kernel sample_files [''fluxgate''] [] = (Serving sv, w)" using sample_serves by blast
  let ?sy = "signalHandler (system_of sv w)"
  have "(system_step sample_kernel)\<^sup>*\<^sup>* (system_of sv w) ?sy" by (intro r_into_rtranclp system_step.signal)
  moreover from system_invariant [OF sample_system_kernel m this]
  have "fds_ok {} (UniqueFd_get (sy_listenFd ?sy) # fleet_fds (sy_workers ?sy)) (wd_os (sy_world ?sy))" by simp
  moreover have "sy_stopRequested ?sy" by (simp add: signalHandler_def)
  ultimately show ?thesis using m by blast
qed

text \<open>C19. Start-up is all or nothing: either the server runs with a valid configuration and as many well-formed workers as
  configured, or the program ends (help, version, check, or an error at any point, also half way through the workers) with
  every descriptor it opened closed again exactly once.\<close>

theorem startup_all_or_nothing:
  assumes "fresh_fds K" "main_start K files argv [] = (out, w)"
  shows "case out of
      Serving sv \<Rightarrow> config_valid (sv_config sv) \<and> length (sv_workers sv) = unat (cfg_workers (sv_config sv)) \<and> system_inv (system_of sv w)
    | _ \<Rightarrow> open_fds (wd_os w) = {} \<and> closes_ok (wd_os w)"
  using main_start_spec [OF assms(1) _ _ assms(2)] by (simp add: startup_ok_def)

text \<open>The second worker cannot be created.\<close>

definition starved_kernel :: kernel where
  "starved_kernel = sample_kernel\<lparr> k_epoll_create1 := \<lambda>h. if 5 < next_fd h then Err 24 else Ok (next_fd h) \<rparr>"

theorem startup_all_or_nothing_witness:
  "\<exists>e w. main_start starved_kernel sample_files [''fluxgate''] [] = (Fatal e, w) \<and> open_fds (wd_os w) = {} \<and> wd_os w \<noteq> []"
proof -
  have K: "fresh_fds starved_kernel" using sample_contracts(3) by (simp add: fresh_fds_def starved_kernel_def next_fd_fresh)
  have "case main_start starved_kernel sample_files [''fluxgate''] [] of (Fatal e, w) \<Rightarrow> wd_os w \<noteq> [] | _ \<Rightarrow> False" by code_simp
  then obtain e w where "main_start starved_kernel sample_files [''fluxgate''] [] = (Fatal e, w)" "wd_os w \<noteq> []"
    by (auto split: prod.splits outcome.splits)
  with startup_all_or_nothing [OF K this(1)] show ?thesis by auto
qed

end
