(* ===== verification/Frame.thy ===== *)
theory Frame
  imports SessionFlow
begin

text \<open>
  What one operation leaves alone in the history of the others. The number of a descriptor is used again after it was
  closed, so the bytes of a socket are those since it was last opened; the interest list of an epoll descriptor is what
  the control calls on it have left. An operation has a footprint: descriptors outside it that are open keep their streams
  and their registrations, which is what lets the theorems on one session hold in the whole process.
\<close>

section \<open>Streams since a descriptor was opened\<close>

fun opens :: "fd \<Rightarrow> sysevent \<Rightarrow> bool" where
  "opens f (Socket _ (Ok g)) = (g = f)"
| "opens f (Accept4 _ (Ok (g, _))) = (g = f)"
| "opens f (EpollCreate (Ok g)) = (g = f)"
| "opens f (EventFd (Ok g)) = (g = f)"
| "opens f _ = False"

definition incarnation :: "fd \<Rightarrow> os \<Rightarrow> os" where
  "incarnation f h = rev (takeWhile (\<lambda>e. \<not> opens f e) (rev h))"

definition stream_in :: "fd \<Rightarrow> os \<Rightarrow> byte list" where
  "stream_in f h = received f (incarnation f h)"

definition stream_out :: "fd \<Rightarrow> os \<Rightarrow> byte list" where
  "stream_out f h = sent f (incarnation f h)"

text \<open>How often the sending side was shut down.\<close>

definition half_closes :: "fd \<Rightarrow> os \<Rightarrow> nat" where
  "half_closes f h = count_list (incarnation f h) (ShutdownWr f)"

lemma incarnation_append: "\<forall>e\<in>set tr. \<not> opens f e \<Longrightarrow> incarnation f (h @ tr) = incarnation f h @ tr"
  using takeWhile_append2 [of "rev tr" "\<lambda>e. \<not> opens f e" "rev h"] by (simp add: incarnation_def)

lemma incarnation_open: "opens f e \<Longrightarrow> incarnation f (h @ [e]) = []"
  by (simp add: incarnation_def)

section \<open>The interest list of an epoll descriptor\<close>

text \<open>epoll(7): closing a descriptor removes it from every interest list.\<close>

fun reg_step :: "fd \<Rightarrow> sysevent \<Rightarrow> (fd \<rightharpoonup> u32) \<Rightarrow> (fd \<rightharpoonup> u32)" where
  "reg_step ep (EpollCtl ep' op f ev (Ok _)) m =
     (if ep' \<noteq> ep then m else if op = EPOLL_CTL_DEL then m(f := None) else m(f \<mapsto> ev))"
| "reg_step ep (Close f) m = (if f = ep then Map.empty else m(f := None))"
| "reg_step ep (EpollCreate (Ok f)) m = (if f = ep then Map.empty else m)"
| "reg_step ep _ m = m"

definition registry :: "fd \<Rightarrow> os \<Rightarrow> (fd \<rightharpoonup> u32)" where
  "registry ep h = fold (reg_step ep) h Map.empty"

lemma registry_append [simp]: "registry ep (h @ tr) = fold (reg_step ep) tr (registry ep h)"
  by (simp add: registry_def)

section \<open>Footprints\<close>

fun touched :: "sysevent \<Rightarrow> fd set" where
  "touched (ShutdownWr f) = {f}"
| "touched (Close f) = {f}"
| "touched (Socket _ (Ok f)) = {f}"
| "touched (Accept4 _ (Ok (f, _))) = {f}"
| "touched (EpollCreate (Ok f)) = {f}"
| "touched (EventFd (Ok f)) = {f}"
| "touched _ = {}"

definition leaves :: "fd \<Rightarrow> os \<Rightarrow> bool" where
  "leaves f tr \<longleftrightarrow> received f tr = [] \<and> sent f tr = [] \<and> (\<forall>e\<in>set tr. f \<notin> touched e)"

lemma leaves_simps [simp]: "leaves f []" "leaves f (tr @ tr') \<longleftrightarrow> leaves f tr \<and> leaves f tr'"
  by (auto simp: leaves_def)

lemma opens_touched: "opens f e \<Longrightarrow> f \<in> touched e"
  by (induction f e rule: opens.induct) auto

lemma leaves_streams:
  assumes "leaves f tr"
  shows "stream_in f (h @ tr) = stream_in f h" "stream_out f (h @ tr) = stream_out f h" "half_closes f (h @ tr) = half_closes f h"
proof -
  have i: "incarnation f (h @ tr) = incarnation f h @ tr"
    using assms opens_touched by (intro incarnation_append) (auto simp: leaves_def)
  have "ShutdownWr f \<notin> set tr" using assms unfolding leaves_def by (metis insertI1 touched.simps(1))
  then show "stream_in f (h @ tr) = stream_in f h" "stream_out f (h @ tr) = stream_out f h" "half_closes f (h @ tr) = half_closes f h"
    using assms by (simp_all add: stream_in_def stream_out_def half_closes_def i leaves_def)
qed

lemma fold_fd_step_untouched: "\<forall>e\<in>set tr. f \<notin> touched e \<Longrightarrow> f \<in> fold fd_step tr A \<longleftrightarrow> f \<in> A"
proof (induction tr arbitrary: A)
  case (Cons e tr)
  have "f \<notin> touched e \<Longrightarrow> f \<in> fd_step e A \<longleftrightarrow> f \<in> A" by (induction e A rule: fd_step.induct) auto
  then show ?case using Cons by simp
qed simp

text \<open>Interest lists change by control calls and by closing.\<close>

fun controlled :: "sysevent \<Rightarrow> (fd \<times> fd) set" where
  "controlled (EpollCtl ep _ f _ _) = {(ep, f)}"
| "controlled _ = {}"

lemma reg_step_untouched:
  assumes "ep \<notin> touched e"
  shows "dom (reg_step ep e m) \<subseteq> dom m \<union> {f. (ep, f) \<in> controlled e}"
    "f \<notin> touched e \<Longrightarrow> (ep, f) \<notin> controlled e \<Longrightarrow> reg_step ep e m f = m f"
  using assms by (induction ep e m rule: reg_step.induct) auto

lemma fold_reg_untouched:
  assumes "\<forall>e\<in>set tr. ep \<notin> touched e"
  shows "dom (fold (reg_step ep) tr m) \<subseteq> dom m \<union> {f. \<exists>e\<in>set tr. (ep, f) \<in> controlled e}"
    "\<forall>e\<in>set tr. f \<notin> touched e \<and> (ep, f) \<notin> controlled e \<Longrightarrow> fold (reg_step ep) tr m f = m f"
  using assms
proof (induction tr arbitrary: m)
  case (Cons e tr)
  { case 1
    have "dom (fold (reg_step ep) tr (reg_step ep e m)) \<subseteq> dom (reg_step ep e m) \<union> {f. \<exists>e\<in>set tr. (ep, f) \<in> controlled e}"
      using 1 Cons.IH(1) by simp
    moreover have "dom (reg_step ep e m) \<subseteq> dom m \<union> {f. (ep, f) \<in> controlled e}" using 1 by (intro reg_step_untouched) simp
    ultimately show ?case unfolding fold.simps comp_apply by (simp only: set_simps) blast
  next case 2 with Cons.IH(2) [of "reg_step ep e m"] reg_step_untouched(2) [of ep e f m] show ?case by simp }
qed simp_all

text \<open>
  The footprint of the calls from \<open>h\<close> to \<open>h'\<close> is within \<open>F\<close> and descriptors that were not open; control calls are made only
  on the pairs of an epoll descriptor and a target in \<open>C\<close>.
\<close>

definition frame :: "(fd \<times> fd) set \<Rightarrow> fd set \<Rightarrow> os \<Rightarrow> os \<Rightarrow> bool" where
  "frame C F h h' \<longleftrightarrow> (\<exists>tr. h' = h @ tr \<and> (\<forall>f\<in>open_fds h - F. leaves f tr) \<and> (\<forall>e\<in>set tr. controlled e \<subseteq> C))"

lemma frame_refl [simp]: "frame C F h h"
  by (simp add: frame_def)

lemma frame_mono: "frame C F h h' \<Longrightarrow> C \<subseteq> D \<Longrightarrow> F \<subseteq> G \<Longrightarrow> frame D G h h'"
  unfolding frame_def by blast

lemma frame_open: "frame C F h h' \<Longrightarrow> f \<in> open_fds h \<Longrightarrow> f \<notin> F \<Longrightarrow> f \<in> open_fds h'"
  unfolding frame_def leaves_def using fold_fd_step_untouched by fastforce

text \<open>Descriptors opened on the way are not part of the footprint.\<close>

lemma frame_fresh:
  assumes "frame C F h h1" "frame C G h1 h2" "(G - F) \<inter> open_fds h = {}"
  shows "frame C F h h2"
proof -
  obtain tr tr' where h1: "h1 = h @ tr" and h2: "h2 = h1 @ tr'"
    and l: "\<forall>f\<in>open_fds h - F. leaves f tr" "\<forall>f\<in>open_fds h1 - G. leaves f tr'"
    and c: "\<forall>e\<in>set tr. controlled e \<subseteq> C" "\<forall>e\<in>set tr'. controlled e \<subseteq> C" using assms by (auto simp: frame_def)
  have "leaves f (tr @ tr')" if "f \<in> open_fds h - F" for f
    using l that frame_open [OF assms(1), of f] assms(3) by auto
  then show ?thesis using c unfolding frame_def h2 h1 by (intro exI [of _ "tr @ tr'"]) auto
qed

lemma frame_trans: "frame C F h h1 \<Longrightarrow> frame C F h1 h2 \<Longrightarrow> frame C F h h2"
  by (erule (1) frame_fresh) simp

lemma frame_registry:
  assumes "frame C F h h'" "ep \<in> open_fds h - F"
  shows "f \<in> open_fds h - F \<Longrightarrow> (ep, f) \<notin> C \<Longrightarrow> registry ep h' f = registry ep h f"
    "dom (registry ep h') \<subseteq> dom (registry ep h) \<union> {f. (ep, f) \<in> C}"
proof -
  obtain tr where tr: "h' = h @ tr" "\<forall>f\<in>open_fds h - F. leaves f tr" "\<forall>e\<in>set tr. controlled e \<subseteq> C"
    using assms(1) by (auto simp: frame_def)
  then have ep: "\<forall>e\<in>set tr. ep \<notin> touched e" using assms(2) by (auto simp: leaves_def)
  have "{f. \<exists>e\<in>set tr. (ep, f) \<in> controlled e} \<subseteq> {f. (ep, f) \<in> C}" using tr(3) by blast
  then show "dom (registry ep h') \<subseteq> dom (registry ep h) \<union> {f. (ep, f) \<in> C}"
    using fold_reg_untouched(1) [OF ep, of "registry ep h"] unfolding tr(1) registry_append by blast
  show "registry ep h' f = registry ep h f" if "f \<in> open_fds h - F" "(ep, f) \<notin> C"
    unfolding tr(1) registry_append using tr(2,3) that by (intro fold_reg_untouched(2) [OF ep]) (auto simp: leaves_def)
qed

text \<open>Calls that have no footprint.\<close>

fun inert :: "sysevent \<Rightarrow> bool" where
  "inert (Recv _ _ (Ok _)) = False"
| "inert (Send _ _ (Ok _)) = False"
| "inert e = (touched e = {} \<and> controlled e = {})"

lemma inert_leaves: "list_all inert tr \<Longrightarrow> leaves f tr \<and> (\<forall>e\<in>set tr. controlled e = {})"
proof (induction tr)
  case (Cons e tr)
  have "inert e \<Longrightarrow> touched e = {} \<and> controlled e = {} \<and> recv_bytes f e = [] \<and> sent_bytes f e = []" by (induction e rule: inert.induct) auto
  then show ?case using Cons by (simp add: leaves_def)
qed simp

lemma frame_inert: "list_all inert tr \<Longrightarrow> frame C F h (h @ tr)"
  unfolding frame_def using inert_leaves by (intro exI [of _ tr]) auto

lemma frame_touch: "controlled e \<subseteq> C \<Longrightarrow> touched e \<subseteq> F \<Longrightarrow> (\<And>f. f \<notin> F \<Longrightarrow> recv_bytes f e = [] \<and> sent_bytes f e = []) \<Longrightarrow> frame C F h (h @ [e])"
  by (auto simp: frame_def leaves_def)

lemma frame_socket: "fresh_fds K \<Longrightarrow> frame {} {} h (h @ [Socket fam (k_socket K h fam)])"
  by (cases "k_socket K h fam") (auto simp: frame_def leaves_def fresh_fds_def)

lemma frame_close: "frame C {f} h (h @ [Close f])"
  by (rule frame_touch) auto

lemma frame_destroy: "frame C {UniqueFd_get u} h (UniqueFd_destroy u h)"
  using frame_close by (auto simp: UniqueFd_destroy_def UniqueFd_reset_def UniqueFd_get_def os_simps split: if_splits)

section \<open>Sockets and probes\<close>

definition framed :: "'a io \<Rightarrow> bool" where
  "framed m \<longleftrightarrow> (\<forall>h. frame {} {} h (snd (m h)))"

lemma framed_bind: "framed m \<Longrightarrow> (\<And>x. framed (f x)) \<Longrightarrow> framed (io_bind m f)"
  unfolding framed_def io_bind_def by (auto split: prod.splits sum.splits) (metis frame_trans snd_conv)+

lemma frame_inert2: "inert e \<Longrightarrow> inert e' \<Longrightarrow> frame C F h (h @ [e, e'])" "inert e \<Longrightarrow> frame C F h (h @ [e])"
  using frame_inert [of "[e, e']"] frame_inert [of "[e]"] by simp_all

lemma framed_prims [intro, simp]:
  "framed (setReuseAddress K fd)" "framed (setNonBlocking K fd)" "framed (setCloseOnExec K fd)" "framed (setTcpNoDelay K fd)"
  "framed (resolveTcpEndpoint K host port)" "framed (io_return x)" "framed (io_throw e)"
  by (auto simp: framed_def setReuseAddress_def setNonBlocking_def setCloseOnExec_def setTcpNoDelay_def resolveTcpEndpoint_def
      os_simps io_simps Let_def frame_inert2 split: sysret.splits option.splits)

text \<open>A fresh socket, a guarded computation: nothing that was open before is in the footprint.\<close>

lemma guard_frame:
  assumes "framed m" "releases val f m" "guard_fd (UniqueFd_new f) m h1 = (r, h')"
  shows "frame C {f} h1 h'" "r = Inr x \<Longrightarrow> frame {} {} h1 h'"
proof -
  obtain r1 h2 where m: "m h1 = (r1, h2)" by fastforce
  then have f: "frame {} {} h1 h2" using assms(1) unfolding framed_def by (metis snd_conv)
  have same: "h' = h2" if "r = Inr x" for x using guard_fd_value [OF _ assms(2)] assms(3) m that by fastforce
  then show "r = Inr x \<Longrightarrow> frame {} {} h1 h'" using f by blast
  show "frame C {f} h1 h'"
  proof (cases r)
    case (Inl e)
    then have "h' = UniqueFd_destroy (UniqueFd_new f) h2" using assms(3) m by (auto simp: guard_fd_def split: sum.split_asm prod.split_asm)
    then show ?thesis using frame_trans [OF frame_mono [OF f] frame_destroy [where u = "UniqueFd_new f"]] by (auto simp: UniqueFd_new_def UniqueFd_get_def)
  next
    case (Inr x)
    then show ?thesis using same frame_mono [OF f] by blast
  qed
qed

text \<open>An accepted or connected socket nobody has used yet.\<close>

definition unused :: "fd \<Rightarrow> os \<Rightarrow> bool" where
  "unused f h \<longleftrightarrow> stream_in f h = [] \<and> stream_out f h = [] \<and> half_closes f h = 0"

lemma unused_open: "opens f e \<Longrightarrow> unused f (h @ [e])"
  by (simp add: unused_def stream_in_def stream_out_def half_closes_def incarnation_open)

lemma unused_frame: "unused f h \<Longrightarrow> frame C F h h' \<Longrightarrow> f \<in> open_fds h \<Longrightarrow> f \<notin> F \<Longrightarrow> unused f h'"
  using leaves_streams [of f] by (auto simp: unused_def frame_def)

lemma connectNonBlocking_frame:
  assumes K: "fresh_fds K" and eq: "connectNonBlocking K ep h = (r, h')"
  shows "frame {} {} h h'" "r = Inr c \<Longrightarrow> unused (cr_fd c) h'"
proof -
  have *: "frame {} {} h h' \<and> (\<forall>c. r = Inr c \<longrightarrow> unused (cr_fd c) h')"
  proof (cases "k_socket K h (ss_family (ep_address ep))")
    case (Err e)
    then show ?thesis using eq frame_inert2(2) [of "Socket (ss_family (ep_address ep)) (Err e)"]
      by (auto simp: connectNonBlocking_def os_simps io_simps)
  next
    case (Ok f)
    define h1 where "h1 = h @ [Socket (ss_family (ep_address ep)) (Ok f)]"
    define m where "m = io_bind (setCloseOnExec K f) (\<lambda>_. io_bind (setNonBlocking K f) (\<lambda>_.
        io_bind (setTcpNoDelay K f) (\<lambda>_ h.
          case sys_connect K f (ep_address ep) (ep_length ep) h of
            (Ok _, h) \<Rightarrow> (let (fd, u) = UniqueFd_release (UniqueFd_new f) in io_return (\<lparr> cr_fd = fd, cr_connecting = False \<rparr>, u) h)
          | (Err e, h) \<Rightarrow> if e = EINPROGRESS
              then (let (fd, u) = UniqueFd_release (UniqueFd_new f) in io_return (\<lparr> cr_fd = fd, cr_connecting = True \<rparr>, u) h)
              else io_throw (systemError (''connect to '' @ ep_text ep @ '' failed'') e) h)))"
    have g: "guard_fd (UniqueFd_new f) m h1 = (r, h')"
      using eq Ok by (simp add: connectNonBlocking_def sys_socket_def m_def h1_def Let_def)
    have fm: "framed m" unfolding m_def
      by (intro framed_bind framed_prims) (auto simp: framed_def os_simps io_simps frame_inert2 UniqueFd_release_def split: sysret.splits)
    have h1: "frame {} {} h h1" "f \<notin> open_fds h" "unused f h1" "f \<in> open_fds h1"
      using frame_socket [OF K, of h "ss_family (ep_address ep)"] K Ok by (auto simp: h1_def fresh_fds_def intro: unused_open)
    have val: "releases cr_fd f m"
      unfolding releases_def m_def io_bind_Inr
      by (intro allI impI, elim exE conjE) (auto simp: os_simps io_simps UniqueFd_release_def UniqueFd_new_def split: sysret.split_asm if_split_asm)
    have "unused (cr_fd c) h'" if "r = Inr c" for c
      using guard_fd_value [OF _ val] g that unused_frame [OF h1(3) guard_frame(2) [OF fm val g that] h1(4)] by fastforce
    then show ?thesis using frame_fresh [OF h1(1) guard_frame(1) [OF fm val g]] h1(2) by fastforce
  qed
  then show "frame {} {} h h'" "r = Inr c \<Longrightarrow> unused (cr_fd c) h'" by auto
qed

lemma poll_loop_frame:
  assumes "poll_loop K fd t h = Some (r, h')"
  shows "frame {} {} h h'"
proof -
  have "frame {} {} h (snd (r, h'))"
  proof (rule poll_loop.raw_induct [where P = "\<lambda>K fd t h x. frame {} {} h (snd x)", OF _ assms])
    fix pl :: "kernel \<Rightarrow> fd \<Rightarrow> int \<Rightarrow> os \<Rightarrow> ((int \<times> int) sysret \<times> os) option"
    fix K fd t h x
    assume IH: "\<And>K fd t h x. pl K fd t h = Some x \<Longrightarrow> frame {} {} h (snd x)"
      and eq: "(let r = k_poll K h fd POLLOUT t; h' = h @ [Poll fd POLLOUT t r] in
        if r = Err EINTR then pl K fd t h' else Some (r, h')) = Some x"
    have "frame {} {} h (h @ [Poll fd POLLOUT t a])" for a by (rule frame_inert2) simp
    then show "frame {} {} h (snd x)" using eq frame_trans [OF _ IH [of K fd t _ x]] by (auto simp: Let_def split: if_splits)
  qed
  then show ?thesis by simp
qed

lemma waitForConnect_frame:
  assumes K: "fresh_fds K" and eq: "waitForConnect K ep t h = Some (ok, h')"
  shows "frame {} {} h h'"
proof -
  obtain r h1 where c: "connectNonBlocking K ep h = (r, h1)" by fastforce
  note f1 = connectNonBlocking_frame(1) [OF K c] and acc = connectNonBlocking_accounting [OF K c]
  show ?thesis
  proof (cases r)
    case (Inl e)
    then show ?thesis using eq c f1 by (simp add: waitForConnect_def)
  next
    case (Inr cr)
    let ?u = "UniqueFd_new (cr_fd cr)"
    have fd: "UniqueFd_get ?u = cr_fd cr" by (simp add: UniqueFd_new_def UniqueFd_get_def)
    obtain h2 where h2: "frame {} {} h1 h2" "h' = UniqueFd_destroy ?u h2"
    proof (cases "cr_connecting cr")
      case False
      then show ?thesis using that [of h1] eq c Inr by (simp add: waitForConnect_def Let_def)
    next
      case True
      then obtain pr h2 where p: "poll_loop K (cr_fd cr) t h1 = Some (pr, h2)"
        using eq c Inr by (auto simp: waitForConnect_def Let_def fd split: option.splits bind_splits)
      have "h' = UniqueFd_destroy ?u h2 \<or> h' = UniqueFd_destroy ?u (h2 @ [GetSoError (cr_fd cr) (k_so_error K h2 (cr_fd cr))])"
        using eq c Inr True p by (auto simp: waitForConnect_def Let_def fd os_simps split: sysret.splits if_splits)
      moreover have "frame {} {} h2 (h2 @ [GetSoError (cr_fd cr) a])" for a by (rule frame_inert2) simp
      ultimately show ?thesis using that poll_loop_frame [OF p] frame_trans by metis
    qed
    have "frame {} {cr_fd cr} h2 h'" using frame_destroy [where C = "{}" and u = ?u and h = h2] by (simp add: h2(2) fd)
    then show ?thesis using frame_fresh [OF frame_trans [OF f1 h2(1)]] acc Inr by simp
  qed
qed

lemma checkBackend_frame:
  assumes "fresh_fds K" "checkBackend K i (hc, p, h) = Some (hc', p', h')"
  shows "frame {} {} h h'"
proof -
  obtain r h1 where w: "waitForConnect K (be_endpoint (bp_backends p ! i)) (hc_timeoutMs hc) h = Some (r, h1)"
    using assms(2) by (auto simp: checkBackend_def Let_def bind_eq_Some_conv)
  then have "h' = h1 \<or> (\<exists>l m. h' = h1 @ [Log l m])"
    using assms(2) by (auto simp: checkBackend_def Let_def os_simps split: if_splits prod.splits)
  then show ?thesis using waitForConnect_frame [OF assms(1) w] frame_trans frame_inert2(2) by fastforce
qed

lemma checkLoop_frame:
  "fresh_fds K \<Longrightarrow> checkLoop K is (hc, p, h) = Some (hc', p', h') \<Longrightarrow> frame {} {} h h'"
  by (induction "is" arbitrary: hc p h) (auto simp: bind_eq_Some_conv intro: frame_trans dest!: checkBackend_frame)

lemma checkOnce_frame:
  "fresh_fds K \<Longrightarrow> checkOnce K (hc, p, h) = Some (hc', p', h') \<Longrightarrow> frame {} {} h h'"
  using checkLoop_frame by (auto simp: checkOnce_def)

section \<open>Sessions\<close>

text \<open>
  Everything received from one peer since its socket was opened is everything sent to the other since that was opened,
  followed by what is buffered; and the sink was half-closed exactly once if the session says so, never otherwise.
\<close>

definition tracked :: "ProxySession \<Rightarrow> os \<Rightarrow> bool" where
  "tracked s h \<longleftrightarrow> (\<forall>d. stream_in (source_fd d s) h = stream_out (sink_fd d s) h @ readData (buffer d s) \<and>
     half_closes (sink_fd d s) h = of_bool (writeShutdown d s))"

lemma tracked_frame:
  assumes "tracked s h" "frame C F h h'" "clientFd s \<in> open_fds h - F" "upstreamFd s \<in> open_fds h - F"
  shows "tracked s h'"
proof -
  obtain tr where h': "h' = h @ tr" and l: "\<forall>f\<in>open_fds h - F. leaves f tr" using assms(2) by (auto simp: frame_def)
  have "leaves (source_fd d s) tr" for d using assms(3,4) l by (cases d) auto
  then show ?thesis using assms(1) leaves_streams unfolding tracked_def h' by simp
qed

lemma session_event_opens: "session_event e \<Longrightarrow> \<not> opens f e"
  by (cases e) auto

lemma session_trace:
  assumes "list_all session_event tr"
  shows "incarnation f (h @ tr) = incarnation f h @ tr" "registry ep (h @ tr) = registry ep h"
proof -
  show "incarnation f (h @ tr) = incarnation f h @ tr"
    using assms session_event_opens by (intro incarnation_append) (auto simp: list_all_iff)
  have "session_event e \<Longrightarrow> reg_step ep e m = m" for e m by (cases e) auto
  then have "fold (reg_step ep) tr m = m" for m using assms by (induction tr) auto
  then show "registry ep (h @ tr) = registry ep h" by simp
qed

lemma evolves_tracked:
  assumes "evolves (s, w) tr (s', w')" "tracked s (wd_os w)"
  shows "tracked s' (wd_os w')"
proof -
  have ev: "list_all session_event tr" "wd_os w' = wd_os w @ tr" "same_session s s'" "forwards s tr s'"
    using assms(1) by (simp_all add: evolves_def)
  have fd: "source_fd d s' = source_fd d s" for d by (rule same_session_fd [OF ev(3)])
  have "stream_in (source_fd d s') (wd_os w') = stream_out (sink_fd d s') (wd_os w') @ readData (buffer d s')" for d
  proof -
    have "stream_in (source_fd d s) (wd_os w) = stream_out (sink_fd d s) (wd_os w) @ readData (buffer d s)"
      "readData (buffer d s) @ received (source_fd d s) tr = sent (sink_fd d s) tr @ readData (buffer d s')"
      using assms(2) ev(4) by (simp_all add: tracked_def forwards_def)
    then show ?thesis by (simp add: fd ev(2) stream_in_def stream_out_def session_trace [OF ev(1)])
  qed
  moreover have "half_closes (sink_fd d s') (wd_os w') = of_bool (writeShutdown d s')" for d
  proof -
    have "half_closes (sink_fd d s) (wd_os w) = of_bool (writeShutdown d s)"
      "count_list tr (ShutdownWr (sink_fd d s)) + of_bool (writeShutdown d s) = (of_bool (writeShutdown d s') :: nat)"
      using assms(2) ev(4) by (simp_all add: tracked_def forwards_def)
    then show ?thesis by (simp add: fd ev(2) half_closes_def session_trace [OF ev(1)])
  qed
  ultimately show ?thesis by (simp add: tracked_def)
qed

lemma evolves_frame_fds:
  assumes "evolves (s, w) tr (s', w')"
  shows "frame {} {clientFd s, upstreamFd s} (wd_os w) (wd_os w')"
proof -
  have ev: "list_all session_event tr" "wd_os w' = wd_os w @ tr" "forwards s tr s'" using assms by (simp_all add: evolves_def)
  have "leaves f tr" if f: "f \<noteq> clientFd s" "f \<noteq> upstreamFd s" for f
  proof -
    have c: "received f tr = []" "sent f tr = []" "ShutdownWr f \<notin> set tr"
      using ev(3) f by (simp_all add: forwards_def count_list_0_iff)
    have "f \<notin> touched e" if "e \<in> set tr" for e using ev(1) that c(3) by (cases e) (auto simp: list_all_iff)
    then show ?thesis using c by (simp add: leaves_def)
  qed
  moreover have "session_event e \<Longrightarrow> controlled e = {}" for e by (cases e) auto
  ultimately show ?thesis unfolding frame_def ev(2) using ev(1) by (intro exI [of _ tr]) (auto simp: list_all_iff)
qed

text \<open>A new session on two sockets nobody has used yet.\<close>

lemma tracked_new:
  assumes "ProxySession_new K ident c u con l sz addr w = (s, w')" "unused c (wd_os w)" "unused u (wd_os w)" "c \<noteq> u"
  shows "tracked s (wd_os w')"
proof -
  have "wd_os w' = wd_os w @ [SteadyNow (k_now K (wd_os w))]"
    using assms(1) by (auto simp: ProxySession_new_def w_now_def os_simps Let_def record_kept split: if_split_asm)
  then have un: "unused c (wd_os w')" "unused u (wd_os w')"
    using assms(2,3) leaves_streams inert_leaves [of "[SteadyNow (k_now K (wd_os w))]"] by (simp_all add: unused_def)
  have s: "clientFd s = c" "upstreamFd s = u" "px_clientToUpstream s = ByteBuffer_new sz" "px_upstreamToClient s = ByteBuffer_new sz"
    "\<not> px_clientWriteShutdown s" "\<not> px_upstreamWriteShutdown s"
    using assms(1) by (auto simp: ProxySession_new_def Let_def UniqueFd_new_def UniqueFd_get_def split: prod.splits)
  have "readData (ByteBuffer_new sz) = []" by (simp add: ByteBuffer_new_def readData_def readableBytes_def)
  then show ?thesis using un s by (simp add: tracked_def all_directions [where d = ClientToUpstream] unused_def)
qed

end
