(* ===== verification/WorkerFlow.thy ===== *)
theory WorkerFlow
  imports WorkerLife Frame
begin

text \<open>
  What the reactor does with the streams of its sessions and with its interest list. The invariant says of every session
  that its bytes are accounted for (\<open>tracked\<close>), that its two sockets are registered with exactly the events it asks for
  unless it is being closed, and that nothing else but the eventfd is registered. It is kept by every operation of a
  worker, and by operations of the rest of the process that stay away from the worker's descriptors.
\<close>

section \<open>Sessions, registrations and unused sockets\<close>

definition watched :: "fd \<Rightarrow> ProxySession \<Rightarrow> os \<Rightarrow> bool" where
  "watched ep s h \<longleftrightarrow> registry ep h (clientFd s) = Some (clientEvents s) \<and> registry ep h (upstreamFd s) = Some (upstreamEvents s)"

abbreviation fds_of :: "ProxySession set \<Rightarrow> fd set" where
  "fds_of S \<equiv> (\<Union>s\<in>S. set (session_fds s))"

text \<open>\<open>S\<close>: sessions; \<open>W\<close>: those whose registration is up to date; \<open>U\<close>: accepted sockets without a session.\<close>

definition flow_ok :: "fd \<Rightarrow> fd \<Rightarrow> ProxySession set \<Rightarrow> ProxySession set \<Rightarrow> fd set \<Rightarrow> os \<Rightarrow> bool" where
  "flow_ok ep wake S W U h \<longleftrightarrow> (\<forall>s\<in>S. tracked s h) \<and> (\<forall>f\<in>U. unused f h) \<and> registry ep h wake = Some EPOLLIN \<and>
     dom (registry ep h) \<subseteq> insert wake (fds_of S) \<and> (\<forall>s\<in>W. watched ep s h)"

lemma flow_ok_mono: "flow_ok ep wake S W U h \<Longrightarrow> W' \<subseteq> W \<Longrightarrow> U' \<subseteq> U \<Longrightarrow> flow_ok ep wake S W' U' h"
  unfolding flow_ok_def by blast

lemma flow_ok_insert: "flow_ok ep wake S W U h \<Longrightarrow> tracked s h \<Longrightarrow> flow_ok ep wake (insert s S) W U h"
  unfolding flow_ok_def by blast

lemma flow_ok_watch: "flow_ok ep wake S W U h \<Longrightarrow> watched ep s h \<Longrightarrow> flow_ok ep wake S (insert s W) U h"
  unfolding flow_ok_def by blast

lemma fds_of_mem: "s \<in> S \<Longrightarrow> clientFd s \<in> fds_of S" "s \<in> S \<Longrightarrow> upstreamFd s \<in> fds_of S"
  by auto

text \<open>What a footprint elsewhere keeps of the streams, and of the registrations it does not control.\<close>

lemma flow_ok_streams:
  assumes flow: "flow_ok ep wake S W U h" and fr: "frame C F h h'" and fds: "U \<union> fds_of S' \<subseteq> open_fds h - F" "S' \<subseteq> S"
  shows "\<forall>s\<in>S'. tracked s h'" "\<forall>f\<in>U. unused f h'"
proof -
  have "tracked s h'" if s: "s \<in> S'" for s
    using flow fds s subsetD [OF fds(1), of "clientFd s"] subsetD [OF fds(1), of "upstreamFd s"] fds_of_mem [OF s]
    by (intro tracked_frame [OF _ fr]) (auto simp: flow_ok_def)
  then show "\<forall>s\<in>S'. tracked s h'" by blast
  have "unused f h'" if f: "f \<in> U" for f
    using unused_frame [OF _ fr, of f] flow f subsetD [OF fds(1), of f] by (simp add: flow_ok_def)
  then show "\<forall>f\<in>U. unused f h'" by blast
qed

lemma flow_ok_watches:
  assumes flow: "flow_ok ep wake S W U h" and fr: "frame C F h h'"
    and fds: "insert ep (insert wake (fds_of W)) \<subseteq> open_fds h - F" and ctl: "\<And>f. (ep, f) \<in> C \<Longrightarrow> f \<noteq> wake \<and> f \<notin> fds_of W"
  shows "registry ep h' wake = Some EPOLLIN" "\<forall>s\<in>W. watched ep s h'"
proof -
  have reg: "registry ep h' f = registry ep h f" if f: "f \<in> insert wake (fds_of W)" for f
  proof (rule frame_registry(1) [OF fr])
    show "ep \<in> open_fds h - F" "f \<in> open_fds h - F" using fds f by blast+
    show "(ep, f) \<notin> C" using ctl [of f] f by blast
  qed
  then show "registry ep h' wake = Some EPOLLIN" using flow by (simp add: flow_ok_def)
  have "watched ep s h'" if s: "s \<in> W" for s
  proof -
    have "watched ep s h" using s flow by (simp add: flow_ok_def)
    then show ?thesis using reg [OF insertI2 [OF fds_of_mem(1) [OF s]]] reg [OF insertI2 [OF fds_of_mem(2) [OF s]]] by (simp add: watched_def)
  qed
  then show "\<forall>s\<in>W. watched ep s h'" by blast
qed

lemma flow_ok_frame:
  assumes flow: "flow_ok ep wake S W U h" and fr: "frame C F h h'"
    and fds: "insert ep (insert wake (U \<union> fds_of S)) \<subseteq> open_fds h - F" and ws: "W \<subseteq> S"
    and ctl: "\<And>f. (ep, f) \<in> C \<Longrightarrow> f \<in> fds_of S \<and> f \<noteq> wake \<and> f \<notin> fds_of W"
  shows "flow_ok ep wake S W U h'"
proof -
  have sub: "fds_of W \<subseteq> fds_of S" using ws by blast
  have "U \<union> fds_of S \<subseteq> open_fds h - F" "insert ep (insert wake (fds_of W)) \<subseteq> open_fds h - F" using fds sub by blast+
  note parts = flow_ok_streams [OF flow fr this(1) subset_refl] flow_ok_watches [OF flow fr this(2)]
  have "dom (registry ep h') \<subseteq> insert wake (fds_of S)"
  proof
    fix f assume "f \<in> dom (registry ep h')"
    then have "f \<in> dom (registry ep h) \<or> (ep, f) \<in> C" using frame_registry(2) [OF fr, of ep] fds by blast
    then show "f \<in> insert wake (fds_of S)" using flow ctl unfolding flow_ok_def by blast
  qed
  then show ?thesis unfolding flow_ok_def using parts ctl by blast
qed

text \<open>Closing the two sockets of a session takes them out of the interest list.\<close>

lemma frame_close_session: "frame {} (set (session_fds s)) h ((h @ [Close (upstreamFd s)]) @ [Close (clientFd s)])"
  by (rule frame_trans; rule frame_mono [OF frame_close]; simp)

lemma flow_ok_close:
  assumes flow: "flow_ok ep wake (insert s S) W U h" and fds: "insert ep (insert wake (U \<union> fds_of S)) \<subseteq> open_fds h - set (session_fds s)"
    and ws: "W \<subseteq> S"
  shows "flow_ok ep wake S W U ((h @ [Close (upstreamFd s)]) @ [Close (clientFd s)])" (is "flow_ok _ _ _ _ _ ?h")
proof -
  have fr: "frame {} (set (session_fds s)) h ?h" by (rule frame_close_session)
  have sub: "fds_of W \<subseteq> fds_of S" using ws by blast
  have sets: "U \<union> fds_of S \<subseteq> open_fds h - set (session_fds s)" "insert ep (insert wake (fds_of W)) \<subseteq> open_fds h - set (session_fds s)"
    using fds sub by blast+
  note parts = flow_ok_streams [OF flow fr sets(1) subset_insertI] flow_ok_watches [OF flow fr sets(2)]
  have ep: "ep \<in> open_fds h - set (session_fds s)" using fds by blast
  have "dom (registry ep ?h) \<subseteq> insert wake (fds_of S)"
  proof
    fix f assume f: "f \<in> dom (registry ep ?h)"
    have "ep \<noteq> clientFd s" "ep \<noteq> upstreamFd s" using ep by simp_all
    then have "registry ep ?h g = None" if "g \<in> set (session_fds s)" for g
      using that by (simp only: registry_append fold.simps comp_apply id_apply reg_step.simps if_False) auto
    then have "f \<notin> set (session_fds s)" using f by (metis domIff)
    moreover have "f \<in> dom (registry ep h)" using subsetD [OF frame_registry(2) [OF fr ep] f] by simp
    then have "f \<in> insert wake (fds_of (insert s S))" using flow unfolding flow_ok_def by blast
    ultimately show "f \<in> insert wake (fds_of S)" by blast
  qed
  then show ?thesis unfolding flow_ok_def using parts by blast
qed

section \<open>The invariant of a worker\<close>

definition open_sessions :: "Worker \<Rightarrow> ProxySession set" where
  "open_sessions wk = {s \<in> snd ` set (wk_sessions wk). \<not> px_closing s}"

text \<open>\<open>X\<close>: the descriptors of the rest of the process, which nothing since \<open>h0\<close> has touched; the worker controls its own epoll only.\<close>

definition flow_inv :: "fd set \<Rightarrow> os \<Rightarrow> Worker \<Rightarrow> ProxySession list \<Rightarrow> fd list \<Rightarrow> os \<Rightarrow> bool" where
  "flow_inv X h0 wk held extra h \<longleftrightarrow> flow_ok (epoll_fd wk) (wake_fd wk) (set (live_sessions wk held)) (open_sessions wk)
     (set (map ac_fd (wk_queue wk) @ extra)) h \<and> frame ({epoll_fd wk} \<times> UNIV) (- X) h0 h"

lemma flow_invD:
  "flow_inv X h0 wk held extra h \<Longrightarrow> flow_ok (epoll_fd wk) (wake_fd wk) (set (live_sessions wk held)) (open_sessions wk)
     (set (map ac_fd (wk_queue wk) @ extra)) h"
  "flow_inv X h0 wk held extra h \<Longrightarrow> frame ({epoll_fd wk} \<times> UNIV) (- X) h0 h"
  by (simp_all add: flow_inv_def)

text \<open>The worker may change with the calls, except for its epoll descriptor.\<close>

lemma flow_invI:
  assumes "flow_inv X h0 wk held extra h" "frame C F h h'" "C \<subseteq> {epoll_fd wk} \<times> UNIV" "F \<inter> X = {}" "wk_epollFd wk' = wk_epollFd wk"
    "flow_ok (epoll_fd wk) (wake_fd wk') (set (live_sessions wk' held')) (open_sessions wk') (set (map ac_fd (wk_queue wk') @ extra')) h'"
  shows "flow_inv X h0 wk' held' extra' h'"
proof -
  have "frame ({epoll_fd wk} \<times> UNIV) (- X) h h'" using assms(4) by (intro frame_mono [OF assms(2,3)]) blast
  with flow_invD(2) [OF assms(1)] have "frame ({epoll_fd wk} \<times> UNIV) (- X) h0 h'" by (rule frame_trans)
  then show ?thesis using assms(5,6) by (simp add: flow_inv_def)
qed

lemma owned_set:
  "set (owned wk held extra) = insert (epoll_fd wk) (insert (wake_fd wk)
     (set (map ac_fd (wk_queue wk) @ extra) \<union> fds_of (set (live_sessions wk held))))"
  by (auto simp: owned_def)

lemma owned_open: "worker_inv X base m0 wk held extra w \<Longrightarrow> set (owned wk held extra) \<subseteq> open_fds (wd_os w)"
  by (simp add: worker_inv_def fds_ok_def)

lemma owned_rest: "worker_inv X base m0 wk held extra w \<Longrightarrow> set (owned wk held extra) \<inter> X = {}"
  by (auto simp: worker_inv_def fds_ok_def)

lemma open_sessions_live: "open_sessions wk \<subseteq> set (live_sessions wk held)"
  by (auto simp: open_sessions_def)

text \<open>Calls whose footprint is elsewhere, by the worker itself or by the rest of the process.\<close>

lemma flow_ok_elsewhere:
  assumes "worker_inv X base m0 wk held extra w"
    "flow_ok (epoll_fd wk) (wake_fd wk) (set (live_sessions wk held)) (open_sessions wk) (set (map ac_fd (wk_queue wk) @ extra)) (wd_os w)"
    "frame C F (wd_os w) h'" "F \<inter> set (owned wk held extra) = {}" "\<And>f. (epoll_fd wk, f) \<notin> C"
  shows "flow_ok (epoll_fd wk) (wake_fd wk) (set (live_sessions wk held)) (open_sessions wk) (set (map ac_fd (wk_queue wk) @ extra)) h'"
  using assms(2)
  by (rule flow_ok_frame [OF _ assms(3)]) (use owned_open [OF assms(1)] assms(4,5) open_sessions_live in \<open>auto simp: owned_set\<close>)

lemma flow_inv_frame:
  assumes "worker_inv X base m0 wk held extra w" "flow_inv X h0 wk held extra (wd_os w)" "frame {} {} (wd_os w) h'"
  shows "flow_inv X h0 wk held extra h'"
  using flow_ok_elsewhere [OF assms(1) flow_invD(1) [OF assms(2)] assms(3)] by (intro flow_invI [OF assms(2,3)]) simp_all

text \<open>Footprints of the calls of a worker.\<close>

lemma frame_prims [simp]:
  "frame C F (wd_os w) (wd_os (w_log l m w))" "frame C F (wd_os w) (wd_os (snd (w_now K w)))"
  "frame C F (wd_os w) (wd_os (snd (w_epoll_wait K ep n t w)))" "frame C F (wd_os w) (wd_os (snd (w_eventfd_read K fd w)))"
  "frame C F (wd_os w) (wd_os (snd (w_eventfd_write K fd w)))" "frame C F (wd_os w) (wd_os (on_metrics f w))"
  "frame C F (wd_os w) (wd_os (on_lease lease g w))"
  by (auto simp: w_log_def w_now_def os_simps on_metrics_def on_lease_def frame_inert2 split: option.split)

lemma frame_ctl: "frame {(ep, fd)} F (wd_os w) (wd_os (snd (w_epoll_ctl K ep op fd ev w)))"
  by (auto simp: os_simps intro!: frame_touch)

lemma frame_registration:
  "frame {(ep, fd)} F (wd_os w) (wd_os (unregisterFd K ep fd w))" "frame {(ep, fd)} F (wd_os w) (wd_os (snd (registerFd K ep fd ev w)))"
  "frame {(ep, fd)} F (wd_os w) (wd_os (snd (modifyFd K ep fd ev w)))"
  using frame_ctl [of ep fd F w K] by (auto simp: unregisterFd_def registerFd_def modifyFd_def split: prod.splits sysret.splits) (metis snd_conv)+

lemma frame_seq_result:
  assumes "\<And>w. frame C F (wd_os w) (wd_os (snd (f w)))" "\<And>w. frame C F (wd_os w) (wd_os (snd (g w)))"
  shows "frame C F (wd_os w) (wd_os (snd (seq_result f g w)))"
  unfolding seq_result_def using assms frame_trans by (auto split: prod.splits sum.splits) (metis snd_conv)+

text \<open>Control calls on both sockets of one session.\<close>

abbreviation ctl_of :: "fd \<Rightarrow> ProxySession \<Rightarrow> (fd \<times> fd) set" where
  "ctl_of ep s \<equiv> {(ep, clientFd s), (ep, upstreamFd s)}"

lemma frame_ctl_session:
  "frame (ctl_of ep s) F (wd_os w) (wd_os (unregisterFd K ep (clientFd s) w))"
  "frame (ctl_of ep s) F (wd_os w) (wd_os (unregisterFd K ep (upstreamFd s) w))"
  by (rule frame_mono [OF frame_registration(1) _ subset_refl]; simp)+

lemma frame_register_session:
  "frame (ctl_of ep s) F (wd_os w) (wd_os (snd (seq_result (registerFd K ep (clientFd s) ev) (registerFd K ep (upstreamFd s) ev') w)))"
  by (rule frame_seq_result; rule frame_mono [OF frame_registration(2) _ subset_refl]; simp)

lemma frame_updateInterests: "frame (ctl_of ep s) F (wd_os w) (wd_os (snd (updateInterests K ep s w)))"
  unfolding updateInterests_def by (rule frame_seq_result; rule frame_mono [OF frame_registration(3) _ subset_refl]; simp)

text \<open>
  Control calls on the sockets of a live session keep the invariant of all but that session: \<open>W\<close> leaves it out.
\<close>

lemma flow_inv_ctl:
  assumes inv: "worker_inv X base m0 wk held extra w" and flow: "flow_ok (epoll_fd wk) (wake_fd wk) (set (live_sessions wk held)) W
      (set (map ac_fd (wk_queue wk) @ extra)) (wd_os w)"
    and fr: "frame (ctl_of (epoll_fd wk) s) {} (wd_os w) h'" and s: "s \<in> set (live_sessions wk held)"
    and W: "W \<subseteq> set (live_sessions wk held)" "fds_of W \<inter> set (session_fds s) = {}"
  shows "flow_ok (epoll_fd wk) (wake_fd wk) (set (live_sessions wk held)) W (set (map ac_fd (wk_queue wk) @ extra)) h'"
  using flow
proof (rule flow_ok_frame [OF _ fr])
  have "distinct (owned wk held extra)" using inv by (simp add: worker_inv_def fds_ok_def)
  then have "wake_fd wk \<notin> fds_of (set (live_sessions wk held))" by (auto simp: owned_def)
  then show "f \<in> fds_of (set (live_sessions wk held)) \<and> f \<noteq> wake_fd wk \<and> f \<notin> fds_of W" if "(epoll_fd wk, f) \<in> ctl_of (epoll_fd wk) s" for f
    using that s W by auto
qed (use owned_open [OF inv] W in \<open>auto simp: owned_set\<close>)

section \<open>Closing and destroying sessions\<close>

lemma owned_held:
  assumes "worker_inv X base m0 wk (s # held) extra w"
  shows "set (owned wk held extra) \<subseteq> open_fds (wd_os w) - set (session_fds s)"
  using held_fds [OF assms] by (auto simp: fds_ok_def)

lemma destroy_flow:
  assumes inv: "worker_inv X base m0 wk (s # held) extra w" and flow: "flow_inv X h0 wk (s # held) extra (wd_os w)"
  shows "flow_inv X h0 wk held extra (wd_os (ProxySession_destroy s w))"
proof (rule flow_invI [OF flow _ _ _ refl])
  show "frame {} (set (session_fds s)) (wd_os w) (wd_os (ProxySession_destroy s w))"
    unfolding destroy_os [OF inv] by (rule frame_close_session)
  have "set (session_fds s) \<subseteq> set (owned wk (s # held) extra)" unfolding owned_set by auto
  then show "set (session_fds s) \<inter> X = {}" using owned_rest [OF inv] by blast
  show "flow_ok (epoll_fd wk) (wake_fd wk) (set (live_sessions wk held)) (open_sessions wk) (set (map ac_fd (wk_queue wk) @ extra))
      (wd_os (ProxySession_destroy s w))"
    unfolding destroy_os [OF inv]
  proof (rule flow_ok_close)
    show "flow_ok (epoll_fd wk) (wake_fd wk) (insert s (set (live_sessions wk held))) (open_sessions wk)
        (set (map ac_fd (wk_queue wk) @ extra)) (wd_os w)" using flow_invD(1) [OF flow] by simp
    show "insert (epoll_fd wk) (insert (wake_fd wk) (set (map ac_fd (wk_queue wk) @ extra) \<union> fds_of (set (live_sessions wk held))))
        \<subseteq> open_fds (wd_os w) - set (session_fds s)" using owned_held [OF inv] unfolding owned_set .
  qed (rule open_sessions_live)
qed simp

lemma destroySessions_flow:
  "worker_inv X base m0 wk (ss @ held) extra w \<Longrightarrow> flow_inv X h0 wk (ss @ held) extra (wd_os w) \<Longrightarrow>
     flow_inv X h0 wk held extra (wd_os (destroySessions ss w))"
  by (induction ss arbitrary: w) (auto dest: destroy_inv destroy_flow)

text \<open>A session leaves the table: its control calls touch no other session.\<close>

lemma table_disjoint:
  assumes "worker_inv X base m0 wk held extra w" "(px_id s, s) \<in> set (wk_sessions wk)"
  shows "fds_of {t \<in> snd ` set (wk_sessions wk). px_id t \<noteq> px_id s} \<inter> set (session_fds s) = {}"
proof -
  have "tables_ok wk" using assms(1) by (simp add: worker_inv_def)
  have "set (session_fds t) \<inter> set (session_fds s) = {}" if "(i, t) \<in> set (wk_sessions wk)" "px_id t \<noteq> px_id s" for i t
    using distinct_fds_disjoint [OF sessions_distinct [OF assms(1)] that(1) assms(2)] that(2) by blast
  then show ?thesis by fastforce
qed

lemma closeSession_flow:
  assumes inv: "worker_inv X base m0 wk held extra w" and flow: "flow_inv X h0 wk held extra (wd_os w)"
    and s: "(px_id s, s) \<in> set (wk_sessions wk)" and eq: "closeSession K s (wk, w) = (wk', w')"
  shows "flow_inv X h0 wk' (s # held) extra (wd_os w')"
proof -
  note c = closeSession_inv [OF inv s eq]
  have tb: "tables_ok wk" using inv by (simp add: worker_inv_def)
  let ?w = "unregisterFd K (epoll_fd wk) (upstreamFd s) (unregisterFd K (epoll_fd wk) (clientFd s) w)"
  have "wd_os w' = wd_os (w_log Debug ''worker=%zu session=%llu closed: %s'' (on_metrics onClosed ?w))"
    using eq session_in_table [OF tb s] by (auto simp: closeSession_def Let_def)
  then have fr: "frame (ctl_of (epoll_fd wk) s) {} (wd_os w) (wd_os w')"
    using frame_trans [OF frame_trans [OF frame_ctl_session(1) frame_ctl_session(2)] frame_trans [OF frame_prims(6) frame_prims(1)]] by simp
  have sub: "open_sessions wk' \<subseteq> open_sessions wk" "open_sessions wk' \<subseteq> {t \<in> snd ` set (wk_sessions wk). px_id t \<noteq> px_id s}"
    using session_in_table [OF tb] unfolding open_sessions_def c(2) by (auto simp: alist_delete_set)
  have "mset (wk_sessions wk) = add_mset (px_id s, s) (mset (wk_sessions wk'))"
    using alist_delete_mset [OF s] tb unfolding c(2) by (simp add: tables_ok_def)
  then have "set (wk_sessions wk) = insert (px_id s, s) (set (wk_sessions wk'))" by (metis set_mset_mset set_mset_add_mset_insert)
  then have live: "set (live_sessions wk' (s # held)) = set (live_sessions wk held)" by simp
  have "flow_ok (epoll_fd wk) (wake_fd wk) (set (live_sessions wk held)) (open_sessions wk') (set (map ac_fd (wk_queue wk) @ extra)) (wd_os w')"
  proof (rule flow_inv_ctl [OF inv _ fr])
    show "flow_ok (epoll_fd wk) (wake_fd wk) (set (live_sessions wk held)) (open_sessions wk') (set (map ac_fd (wk_queue wk) @ extra)) (wd_os w)"
      using flow_ok_mono [OF flow_invD(1) [OF flow] sub(1) subset_refl] .
    show "s \<in> set (live_sessions wk held)" using s by force
    show "open_sessions wk' \<subseteq> set (live_sessions wk held)" using sub(1) open_sessions_live by blast
    show "fds_of (open_sessions wk') \<inter> set (session_fds s) = {}" using table_disjoint [OF inv s] sub(2) by blast
  qed
  then have "flow_ok (epoll_fd wk) (wake_fd wk) (set (live_sessions wk' (s # held))) (open_sessions wk') (set (map ac_fd (wk_queue wk) @ extra)) (wd_os w')"
    unfolding live .
  then show ?thesis using c(3,4) by (intro flow_invI [OF flow fr]) (simp_all add: same_worker_def)
qed

lemma closeSessions_flow:
  assumes "worker_inv X base m0 wk held extra w" "flow_inv X h0 wk held extra (wd_os w)" "distinct (map px_id ss)"
    "\<forall>s\<in>set ss. (px_id s, s) \<in> set (wk_sessions wk)" "closeSessions K ss (wk, w) = (wk', w')"
  shows "flow_inv X h0 wk' (ss @ held) extra (wd_os w')"
  using assms
proof (induction ss arbitrary: wk w held)
  case (Cons s ss)
  obtain wk1 w1 where c: "closeSession K s (wk, w) = (wk1, w1)" by fastforce
  have ins: "(px_id s, s) \<in> set (wk_sessions wk)" using Cons.prems(4) by simp
  note i1 = closeSession_inv [OF Cons.prems(1) ins c]
  have "\<forall>t\<in>set ss. (px_id t, t) \<in> set (wk_sessions wk1)"
    using Cons.prems(3,4) by (auto simp: i1(2) alist_delete_set rev_image_eqI)
  then have "flow_inv X h0 wk' (ss @ s # held) extra (wd_os w')"
    using Cons.IH [OF i1(1) closeSession_flow [OF Cons.prems(1,2) ins c]] Cons.prems(3,5) c by simp
  then show ?case by (simp add: flow_inv_def insert_commute)
qed simp

section \<open>Creating sessions\<close>

lemma register_watched:
  assumes "seq_result (registerFd K ep (clientFd s) (clientEvents s)) (registerFd K ep (upstreamFd s) (upstreamEvents s)) w = (Inr u, w')"
    "clientFd s \<noteq> upstreamFd s"
  shows "watched ep s (wd_os w')"
  using assms by (auto simp: seq_result_def registerFd_def os_simps watched_def split: sysret.split_asm)

lemma update_watched:
  assumes "updateInterests K ep s w = (Inr u, w')" "clientFd s \<noteq> upstreamFd s"
  shows "watched ep s (wd_os w')"
  using assms by (auto simp: updateInterests_def seq_result_def modifyFd_def os_simps watched_def split: sysret.split_asm)

lemma register_session_flow:
  assumes inv: "worker_inv X base m0 wk (s # held) extra w" and flow: "flow_inv X h0 wk (s # held) extra (wd_os w)"
    and fresh: "px_id s \<notin> fst ` set (wk_sessions wk)" and eq: "register_session K wk s w = (wk', w')"
  shows "flow_inv X h0 wk' held extra (wd_os w')"
proof -
  let ?ep = "epoll_fd wk"
  obtain reg w3 where reg: "seq_result (registerFd K ?ep (clientFd s) (clientEvents s)) (registerFd K ?ep (upstreamFd s) (upstreamEvents s)) w
      = (reg, w3)" by fastforce
  have fr3: "frame (ctl_of ?ep s) {} (wd_os w) (wd_os w3)" using frame_register_session [of ?ep s "{}" w K] reg by (metis snd_conv)
  have dis: "fds_of (open_sessions wk) \<inter> set (session_fds s) = {}"
  proof -
    have "fds_of (open_sessions wk) \<subseteq> set (owned wk held extra)" by (auto simp: owned_set open_sessions_def)
    then show ?thesis using owned_held [OF inv] by blast
  qed
  have keep: "flow_inv X h0 wk (s # held) extra h'" if fr: "frame (ctl_of ?ep s) {} (wd_os w) h'" for h'
    using flow_inv_ctl [OF inv flow_invD(1) [OF flow] fr _ open_sessions_live dis] by (intro flow_invI [OF flow fr]) simp_all
  show ?thesis
  proof (cases reg)
    case (Inl e)
    define w4 where "w4 = w_log Error ''worker=%zu cannot register session=%llu: %s'' (on_metrics onRejected
      (unregisterFd K ?ep (upstreamFd s) (unregisterFd K ?ep (clientFd s) w3)))"
    have "calm w w4" unfolding w4_def using seq_register_calm [OF reg] by (meson calm_trans calm_prims)
    note i4 = calm_inv [OF inv this]
    have "frame (ctl_of ?ep s) {} (wd_os w) (wd_os w4)" unfolding w4_def
      using frame_trans [OF fr3 frame_trans [OF frame_trans [OF frame_ctl_session] frame_trans [OF frame_prims(6) frame_prims(1)]]] .
    from destroy_flow [OF i4 keep [OF this]] show ?thesis using eq reg Inl by (auto simp: register_session_def w4_def)
  next
    case (Inr u)
    have "clientFd s \<noteq> upstreamFd s" using inv by (simp add: worker_inv_def session_ok_def px_inv_def)
    note seen = register_watched [OF reg [unfolded Inr] this]
    have res: "wk_sessions wk' = AList.update (px_id s) s (wk_sessions wk)" "wk_epollFd wk' = wk_epollFd wk" "wk_wakeFd wk' = wk_wakeFd wk"
      "wk_queue wk' = wk_queue wk" "wd_os w' = wd_os (w_log Debug ''worker=%zu session=%llu client=%s backend=%s(%s)'' w3)"
      using eq reg Inr by (auto simp: register_session_def w_log_def on_metrics_def)
    have "open_sessions wk' \<subseteq> insert s (open_sessions wk)" using res(1) alist_update_fresh [OF fresh, of s] by (auto simp: open_sessions_def)
    then have "flow_ok ?ep (wake_fd wk) (set (live_sessions wk (s # held))) (open_sessions wk') (set (map ac_fd (wk_queue wk) @ extra)) (wd_os w3)"
      using flow_ok_mono [OF flow_ok_watch [OF flow_invD(1) [OF keep [OF fr3]] seen] _ subset_refl] by blast
    moreover have live: "set (live_sessions wk (s # held)) = set (live_sessions wk' held)" using alist_update_fresh [OF fresh, of s] by (simp add: res(1))
    ultimately have f: "flow_ok ?ep (wake_fd wk) (set (live_sessions wk' held)) (open_sessions wk') (set (map ac_fd (wk_queue wk) @ extra)) (wd_os w3)"
      by simp
    have "set (owned wk (s # held) extra) \<subseteq> open_fds (wd_os w3)" using owned_open [OF calm_inv [OF inv seq_register_calm [OF reg]]] .
    then have "insert ?ep (insert (wake_fd wk) (set (map ac_fd (wk_queue wk) @ extra) \<union> fds_of (set (live_sessions wk' held)))) \<subseteq> open_fds (wd_os w3) - {}"
      unfolding owned_set live by simp
    from flow_ok_frame [OF f frame_prims(1) [where C = "{}"] this open_sessions_live] frame_trans [OF fr3 frame_prims(1)]
    show ?thesis by (intro flow_invI [OF flow, where C = "ctl_of ?ep s" and F = "{}"]) (simp_all add: res)
  qed
qed

lemma frame_w_close: "frame C {f} (wd_os w) (wd_os (w_close f w))"
  by (simp add: w_close_def sys_close_def frame_close)

text \<open>An accepted client is closed without ever becoming a session.\<close>

lemma flow_inv_reject:
  assumes inv: "worker_inv X base m0 wk held (f # extra) w" and flow: "flow_inv X h0 wk held (f # extra) (wd_os w)"
    and fr: "frame {} {f} (wd_os w) h'"
  shows "flow_inv X h0 wk held extra h'"
proof (rule flow_invI [OF flow fr _ _ refl flow_ok_frame [OF _ fr]])
  show "flow_ok (epoll_fd wk) (wake_fd wk) (set (live_sessions wk held)) (open_sessions wk) (set (map ac_fd (wk_queue wk) @ extra)) (wd_os w)"
    using flow_invD(1) [OF flow] by (rule flow_ok_mono) auto
  show "{f} \<inter> X = {}" using owned_rest [OF inv] by (simp add: owned_set)
  have "fds_ok X (f # owned wk held extra) (wd_os w)" using inv by (simp add: worker_inv_def owned_def)
  then have "set (owned wk held extra) \<subseteq> open_fds (wd_os w) - {f}" by (auto simp: fds_ok_def)
  then show "insert (epoll_fd wk) (insert (wake_fd wk) (set (map ac_fd (wk_queue wk) @ extra) \<union> fds_of (set (live_sessions wk held))))
      \<subseteq> open_fds (wd_os w) - {f}" unfolding owned_set .
qed (use open_sessions_live in simp_all)

lemma createSession_refused:
  assumes K: "fresh_fds K" and acq: "acquire (wd_pool w) = (l, p)" and eq: "createSession K c (wk, w) = (wk', w')"
    and ref: "bl_backend l = None \<or> (\<exists>b e h. l = \<lparr> bl_backend = Some b \<rparr> \<and> connectNonBlocking K (be_endpoint (bp_backends p ! b)) (wd_os w) = (Inl e, h))"
  shows "wk' = wk \<and> frame {} {ac_fd c} (wd_os w) (wd_os w')"
proof (cases "bl_backend l")
  case None
  let ?w = "on_metrics onRejected (w_log Warn ''worker=%zu rejected client=%s because no backend is healthy'' (w\<lparr> wd_pool := p \<rparr>))"
  have "wk' = wk" "w' = w_close (ac_fd c) ?w" using eq acq None by (auto simp: createSession_def Let_def)
  moreover have "frame {} {ac_fd c} (wd_os w) (wd_os ?w)" 
    using frame_trans [OF frame_prims(1) [where w = "w\<lparr> wd_pool := p \<rparr>"] frame_prims(6)] by simp
  ultimately show ?thesis using frame_trans [OF _ frame_w_close] by blast
next
  case (Some b)
  then obtain e h where l: "l = \<lparr> bl_backend = Some b \<rparr>" and con: "connectNonBlocking K (be_endpoint (bp_backends p ! b)) (wd_os w) = (Inl e, h)"
    using ref by auto
  let ?w1 = "w\<lparr> wd_pool := p, wd_os := h \<rparr>"
  let ?w = "w_log Warn ''worker=%zu backend=%s connect failed: %s'' (on_metrics onRejected (on_metrics onConnectFailure
      (on_lease \<lparr> bl_backend = Some b \<rparr> recordConnectFailure ?w1)))"
  have res: "wk' = wk" "wd_os w' = wd_os (w_close (ac_fd c) ?w)" using eq acq con l by (auto simp: createSession_def Let_def w_close_def)
  have "frame {} {ac_fd c} (wd_os w) (wd_os ?w1)" using frame_mono [OF connectNonBlocking_frame(1) [OF K con]] by simp
  moreover have "frame {} {ac_fd c} (wd_os ?w1) (wd_os ?w)"
    by (rule frame_trans [OF frame_prims(7) frame_trans [OF frame_prims(6) frame_trans [OF frame_prims(6) frame_prims(1)]]])
  ultimately have "frame {} {ac_fd c} (wd_os w) (wd_os ?w)" by (rule frame_trans)
  from frame_trans [OF this frame_w_close] show ?thesis using res by simp
qed

lemma createSession_flow:
  assumes K: "fresh_fds K" and inv: "worker_inv X base m0 wk held (ac_fd c # extra) w" and bud: "budget base m0 (Suc n) wk"
    and flow: "flow_inv X h0 wk held (ac_fd c # extra) (wd_os w)" and eq: "createSession K c (wk, w) = (wk', w')"
  shows "flow_inv X h0 wk' held extra (wd_os w')"
proof -
  obtain l p where acq: "acquire (wd_pool w) = (l, p)" by fastforce
  show ?thesis
  proof (cases "\<exists>b res h. l = \<lparr> bl_backend = Some b \<rparr> \<and> connectNonBlocking K (be_endpoint (bp_backends p ! b)) (wd_os w) = (Inr res, h)")
    case False
    then have "bl_backend l = None \<or> (\<exists>b e h. l = \<lparr> bl_backend = Some b \<rparr> \<and> connectNonBlocking K (be_endpoint (bp_backends p ! b)) (wd_os w) = (Inl e, h))"
      by (cases l; cases "bl_backend l") (auto, metis old.prod.exhaust sum.exhaust)
    from createSession_refused [OF K acq eq this] flow_inv_reject [OF inv flow] show ?thesis by blast
  next
    case True
    then obtain b res h where l: "l = \<lparr> bl_backend = Some b \<rparr>" and con: "connectNonBlocking K (be_endpoint (bp_backends p ! b)) (wd_os w) = (Inr res, h)"
      by blast
    note acq = acq [unfolded l]
    let ?wk = "wk\<lparr> wk_nextSessionId := wk_nextSessionId wk + 1 \<rparr>" and ?w1 = "w\<lparr> wd_pool := p, wd_os := h \<rparr>"
    obtain s w2 where new: "ProxySession_new K (wk_nextSessionId wk) (ac_fd c) (cr_fd res) (cr_connecting res) \<lparr> bl_backend = Some b \<rparr>
        (cfg_bufferSize (wk_config wk)) (ac_address c) ?w1 = (s, w2)" by fastforce
    note cs = connected_session [OF K inv bud acq con new refl]
    note fr1 = connectNonBlocking_frame [OF K con] and acc = connectNonBlocking_accounting [OF K con]
    have c: "ac_fd c \<in> open_fds (wd_os w)" "unused (ac_fd c) (wd_os w)" using owned_open [OF inv] flow by (auto simp: owned_set flow_inv_def flow_ok_def)
    then have "unused (ac_fd c) h" using unused_frame [OF _ fr1(1)] by simp
    moreover have "ac_fd c \<noteq> cr_fd res" using c(1) acc by auto
    ultimately have tr: "tracked s (wd_os w2)" using tracked_new [OF new, simplified] fr1(2) by simp
    have "wd_os w2 = wd_os (snd (w_now K ?w1))"
      using new by (auto simp: ProxySession_new_def Let_def record_kept split: prod.split_asm if_split_asm)
    then have fr: "frame {} {} (wd_os w) (wd_os w2)" using frame_trans [OF fr1(1), of "wd_os w2"] frame_prims(2) [of "{}" "{}" ?w1 K] by simp
    from flow_invD(1) [OF flow_inv_frame [OF inv flow fr]]
    have "flow_ok (epoll_fd wk) (wake_fd wk) (set (live_sessions wk held)) (open_sessions wk) (set (map ac_fd (wk_queue wk) @ extra)) (wd_os w2)"
      by (rule flow_ok_mono) auto
    from flow_ok_insert [OF this tr] have "flow_inv X h0 ?wk (s # held) extra (wd_os w2)"
      by (intro flow_invI [OF flow fr]) (simp_all add: open_sessions_def)
    moreover have "register_session K ?wk s w2 = (wk', w')" using createSession_connected [OF acq con new] eq by (rule trans [OF sym])
    ultimately show ?thesis using register_session_flow [OF cs(1) _ cs(3)] by blast
  qed
qed

section \<open>The accept queue\<close>

lemma drainLoop_flow:
  assumes "fresh_fds K" "worker_inv X base m0 wk held (map ac_fd local @ extra) w" "budget base m0 (length local + n) wk"
    "flow_inv X h0 wk held (map ac_fd local @ extra) (wd_os w)" "drainLoop K local (wk, w) = (wk', w')"
  shows "flow_inv X h0 wk' held extra (wd_os w')"
  using assms(2-)
proof (induction local arbitrary: wk w)
  case (Cons c local)
  obtain wk1 w1 where step: "(if \<not> wk_running wk then (wk, w_close (ac_fd c) w) else createSession K c (wk, w)) = (wk1, w1)"
    by (metis surj_pair)
  note inv = Cons.prems(1) [simplified] and flow = Cons.prems(3) [simplified]
  have "worker_inv X base m0 wk1 held (map ac_fd local @ extra) w1 \<and> budget base m0 (length local + n) wk1 \<and>
      flow_inv X h0 wk1 held (map ac_fd local @ extra) (wd_os w1)"
  proof (cases "wk_running wk")
    case True
    then have cr: "createSession K c (wk, w) = (wk1, w1)" using step by simp
    have bud: "budget base m0 (Suc (length local + n)) wk" using Cons.prems(2) by simp
    show ?thesis using createSession_inv [OF assms(1) inv bud cr] createSession_flow [OF assms(1) inv bud flow cr] by blast
  next
    case False
    then show ?thesis
      using close_inv [OF inv] budget_mono [OF Cons.prems(2)] flow_inv_reject [OF inv flow frame_w_close] step by auto
  qed
  moreover have "drainLoop K local (wk1, w1) = (wk', w')" using Cons.prems(4) by (simp only: drainLoop.simps fst_conv snd_conv step)
  ultimately show ?case using Cons.IH by blast
qed simp

lemma drainQueue_flow:
  assumes "fresh_fds K" "worker_inv X base m0 wk held extra w" "budget base m0 (length (wk_queue wk) + n) wk"
    "flow_inv X h0 wk held extra (wd_os w)" "drainQueue K (wk, w) = (wk', w')"
  shows "flow_inv X h0 wk' held extra (wd_os w')"
proof -
  let ?wk = "wk\<lparr> wk_queue := [] \<rparr>"
  have "flow_inv X h0 ?wk held (map ac_fd (wk_queue wk) @ extra) (wd_os w)" using assms(4) by (simp add: flow_inv_def open_sessions_def)
  moreover have "budget base m0 (length (wk_queue wk) + n) ?wk" using assms(3) by (simp add: budget_def)
  ultimately show ?thesis using drainLoop_flow [OF assms(1) take_queue_inv [OF assms(2)]] assms(5) by (simp add: drainQueue_def)
qed

end
