(* ===== verification/WorkerEvents.thy ===== *)
theory WorkerEvents
  imports WorkerFlow
begin

text \<open>
  The loop of a worker keeps the streams of its sessions and its interest list in order: handler calls, batches, the sweep,
  whole iterations, the end of the loop, construction and the hand-over of a client.
\<close>

section \<open>Events\<close>

lemma read_frame: "w_eventfd_read K fd w = (r, w') \<Longrightarrow> frame {} {} (wd_os w) (wd_os w')"
  by (metis frame_prims(4) snd_conv)

lemma drainWake_frame:
  assumes "drainWake K fd w = Some w'"
  shows "frame {} {} (wd_os w) (wd_os w')"
proof (rule forever_rule [where I = "\<lambda>_. True" and R = "\<lambda>w w'. frame {} {} (wd_os w) (wd_os w')", OF assms [unfolded drainWake_def]])
  let ?body = "\<lambda>w. case w_eventfd_read K fd w of (Ok _, w) \<Rightarrow> Inr w | (Err _, w) \<Rightarrow> Inl w"
  have rd: "frame {} {} (wd_os w) (wd_os w1)" if "?body w = Inl w1 \<or> ?body w = Inr w1" for w w1
    using that read_frame by (auto split: prod.splits sysret.splits)
  show "frame {} {} (wd_os w) (wd_os x)" if "?body w = Inl x" for w x using rd that by blast
  show "frame {} {} (wd_os w) (wd_os x)" if "?body w = Inr w1" "frame {} {} (wd_os w1) (wd_os x)" for w w1 x
    using rd that frame_trans by blast
qed simp_all

text \<open>A handler call on one session: the others keep streams and registrations, its own stream moves on.\<close>

lemma flow_ok_evolves:
  assumes flow: "flow_ok ep wake (insert s S) W U (wd_os w)" and ev: "evolves (s, w) tr (s1, w1)"
    and fds: "insert ep (insert wake (U \<union> fds_of S)) \<subseteq> open_fds (wd_os w) - set (session_fds s)" and ws: "W \<subseteq> S"
  shows "flow_ok ep wake (insert s1 S) W U (wd_os w1)"
proof -
  have fr: "frame {} (set (session_fds s)) (wd_os w) (wd_os w1)" using evolves_frame_fds [OF ev] by simp
  have "U \<union> fds_of S \<subseteq> open_fds (wd_os w) - set (session_fds s)" using fds by blast
  note st = flow_ok_streams [OF flow fr this subset_insertI]
  have "tracked s1 (wd_os w1)" using evolves_tracked [OF ev] flow by (simp add: flow_ok_def)
  moreover have "registry ep (wd_os w1) = registry ep (wd_os w)" using ev session_trace(2) by (auto simp: evolves_def)
  moreover have "session_fds s1 = session_fds s" using ev by (simp add: evolves_def same_session_def)
  ultimately show ?thesis using st flow by (simp add: flow_ok_def watched_def)
qed

text \<open>The sessions other than the one in the table entry \<open>i\<close>.\<close>

definition others :: "Worker \<Rightarrow> ProxySession list \<Rightarrow> u64 \<Rightarrow> ProxySession set" where
  "others wk held i = snd ` {x \<in> set (wk_sessions wk). fst x \<noteq> i} \<union> set held"

lemma entry_values: "A = insert (i, s) B \<Longrightarrow> snd ` A = insert s (snd ` B)"
  by simp

lemma others_live:
  assumes inv: "worker_inv X base m0 wk held extra w" and s: "map_of (wk_sessions wk) i = Some s"
  shows "set (live_sessions wk held) = insert s (others wk held i)"
    "insert (epoll_fd wk) (insert (wake_fd wk) (set (map ac_fd (wk_queue wk) @ extra) \<union> fds_of (others wk held i)))
       \<subseteq> open_fds (wd_os w) - set (session_fds s)"
proof -
  let ?wk = "wk\<lparr> wk_sessions := AList.delete i (wk_sessions wk) \<rparr>"
  have mem: "(i, s) \<in> set (wk_sessions wk)" using s by (rule map_of_SomeD)
  have keys: "distinct (map fst (wk_sessions wk))" using inv by (simp add: worker_inv_def tables_ok_def)
  have ms: "mset (wk_sessions wk) = add_mset (i, s) (mset (AList.delete i (wk_sessions wk)))" using alist_delete_mset [OF mem keys] .
  then have "set (wk_sessions wk) = insert (i, s) (set (AList.delete i (wk_sessions wk)))" by (metis set_mset_mset set_mset_add_mset_insert)
  from entry_values [OF this] have "snd ` set (wk_sessions wk) = insert s (snd ` {x \<in> set (wk_sessions wk). fst x \<noteq> i})"
    unfolding alist_delete_set .
  then show "set (live_sessions wk held) = insert s (others wk held i)" by (simp add: others_def)
  have "mset (owned wk held extra) = mset (session_fds s @ owned ?wk held extra)" by (simp add: owned_mset ms)
  moreover have "fds_ok X (owned wk held extra) (wd_os w)" using inv by (simp add: worker_inv_def)
  ultimately have "fds_ok X (session_fds s @ owned ?wk held extra) (wd_os w)" using fds_ok_perm by blast
  then have sub: "set (owned ?wk held extra) \<subseteq> open_fds (wd_os w) - set (session_fds s)" by (auto simp: fds_ok_def)
  have live: "set (live_sessions ?wk held) = others wk held i" by (simp add: others_def alist_delete_set)
  show "insert (epoll_fd wk) (insert (wake_fd wk) (set (map ac_fd (wk_queue wk) @ extra) \<union> fds_of (others wk held i)))
      \<subseteq> open_fds (wd_os w) - set (session_fds s)" using sub unfolding owned_set live by simp
qed

lemma others_update:
  assumes inv: "worker_inv X base m0 wk held extra w" and s: "map_of (wk_sessions wk) i = Some s"
    and wk': "wk' = wk\<lparr> wk_sessions := AList.update i s' (wk_sessions wk) \<rparr>"
  shows "set (live_sessions wk' held) = insert s' (others wk held i)"
    "open_sessions wk' \<subseteq> (open_sessions wk \<inter> others wk held i) \<union> (if px_closing s' then {} else {s'})"
proof -
  have keys: "distinct (map fst (wk_sessions wk))" using inv by (simp add: worker_inv_def tables_ok_def)
  have sel: "wk_sessions wk' = AList.update i s' (wk_sessions wk)" by (simp add: wk')
  have upd: "set (wk_sessions wk') = insert (i, s') {x \<in> set (wk_sessions wk). fst x \<noteq> i}"
    unfolding sel using alist_update_set [OF keys, of i s'] domI [of "map_of (wk_sessions wk)", OF s] by (simp add: dom_map_of_conv_image_fst)
  show "set (live_sessions wk' held) = insert s' (others wk held i)" using entry_values [OF upd] by (simp add: others_def)
  show "open_sessions wk' \<subseteq> (open_sessions wk \<inter> others wk held i) \<union> (if px_closing s' then {} else {s'})"
    unfolding open_sessions_def entry_values [OF upd] others_def by auto
qed

lemma tracked_markClosing [simp]: "tracked (markClosing s) h = tracked s h"
proof -
  have "source_fd d (markClosing s) = source_fd d s" "buffer d (markClosing s) = buffer d s" "writeShutdown d (markClosing s) = writeShutdown d s" for d
    by (cases d; simp add: markClosing_def)+
  then show ?thesis by (simp add: tracked_def)
qed

lemma flow_ok_markClosing: "flow_ok ep wake (insert s S) W U h \<Longrightarrow> flow_ok ep wake (insert (markClosing s) S) W U h"
  by (simp add: flow_ok_def) (simp add: markClosing_def)

lemma add_footprint:
  "insert e (insert k (U \<union> B)) \<subseteq> O' - A \<Longrightarrow> A \<subseteq> O' \<Longrightarrow> insert e (insert k (U \<union> (A \<union> B))) \<subseteq> O' - {}"
  by blast

text \<open>One handler call and the update of the registration that follows it: \<open>W\<close> is the sessions other than the one handled.\<close>

lemma handled_flow:
  assumes inv: "worker_inv X base m0 wk held extra w" and flow: "flow_inv X h0 wk held extra (wd_os w)"
    and s: "map_of (wk_sessions wk) i = Some s" and ev: "evolves (s, w) tr (s1, w1)"
    and u: "updateInterests K (epoll_fd wk) s1 w1 = (r, w2)" and W: "W = open_sessions wk \<inter> others wk held i"
  shows "flow_ok (epoll_fd wk) (wake_fd wk) (insert s1 (others wk held i)) W (set (map ac_fd (wk_queue wk) @ extra)) (wd_os w1)"
    "flow_ok (epoll_fd wk) (wake_fd wk) (insert s1 (others wk held i)) W (set (map ac_fd (wk_queue wk) @ extra)) (wd_os w2)"
    "frame {} (set (session_fds s)) (wd_os w) (wd_os w1)" "frame (ctl_of (epoll_fd wk) s1) (set (session_fds s)) (wd_os w) (wd_os w2)"
proof -
  let ?ep = "epoll_fd wk" and ?wake = "wake_fd wk" and ?U = "set (map ac_fd (wk_queue wk) @ extra)" and ?S = "others wk held i"
  have same: "session_fds s1 = session_fds s" using ev by (simp add: evolves_def same_session_def)
  have opn: "open_fds (wd_os w1) = open_fds (wd_os w)" using evolves_calm [OF ev] by (auto simp: calm_def quiet_def)
  note ol = others_live [OF inv s]
  have f0: "flow_ok ?ep ?wake (insert s ?S) W ?U (wd_os w)"
    using flow_invD(1) [OF flow] unfolding ol(1) W by (rule flow_ok_mono) simp_all
  show f1: "flow_ok ?ep ?wake (insert s1 ?S) W ?U (wd_os w1)" by (rule flow_ok_evolves [OF f0 ev ol(2)]) (simp add: W)
  show fr1: "frame {} (set (session_fds s)) (wd_os w) (wd_os w1)" using evolves_frame_fds [OF ev] by simp
  have fr: "frame (ctl_of ?ep s1) F (wd_os w1) (wd_os w2)" for F using frame_updateInterests [of ?ep s1 F w1 K] u by (metis snd_conv)
  show "frame (ctl_of ?ep s1) (set (session_fds s)) (wd_os w) (wd_os w2)"
    by (rule frame_trans [OF frame_mono [OF fr1] fr]) simp_all
  have own: "set (session_fds s) \<subseteq> open_fds (wd_os w)"
    using owned_open [OF inv] unfolding owned_set ol(1) UN_insert by simp
  have sub: "fds_of W \<subseteq> fds_of ?S" unfolding W by (rule UN_mono) simp_all
  have dis: "fds_of ?S \<inter> set (session_fds s) = {}" "?wake \<notin> set (session_fds s)" using ol(2) by blast+
  show "flow_ok ?ep ?wake (insert s1 ?S) W ?U (wd_os w2)"
  proof (rule flow_ok_frame [OF f1 fr])
    show "insert ?ep (insert ?wake (?U \<union> fds_of (insert s1 ?S))) \<subseteq> open_fds (wd_os w1) - {}"
      unfolding opn UN_insert same by (rule add_footprint [OF ol(2) own])
    show "f \<in> fds_of (insert s1 ?S) \<and> f \<noteq> ?wake \<and> f \<notin> fds_of W" if "(?ep, f) \<in> ctl_of ?ep s1" for f
    proof -
      have "f \<in> set (session_fds s1)" using that by auto
      then show ?thesis using dis sub unfolding UN_insert same by blast
    qed
  qed (auto simp: W)
qed

lemma handleSession_flow:
  assumes inv: "worker_inv X base m0 wk held extra w" and flow: "flow_inv X h0 wk held extra (wd_os w)"
    and s: "map_of (wk_sessions wk) i = Some s" and ev: "evolves (s, w) tr (s1, w1)"
    and u: "updateInterests K (epoll_fd wk) s1 w1 = (r, w2)"
    and s': "s' = (if good \<and> r = Inr () then s1 else markClosing s1)" and w': "w' = (if good then w2 else w1)"
    and wk': "wk' = wk\<lparr> wk_sessions := AList.update i s' (wk_sessions wk) \<rparr>"
  shows "flow_inv X h0 wk' held extra (wd_os w')"
proof -
  let ?ep = "epoll_fd wk" and ?U = "set (map ac_fd (wk_queue wk) @ extra)" and ?S = "others wk held i"
  let ?W = "open_sessions wk \<inter> ?S"
  note hf = handled_flow [OF inv flow s ev u refl] and ou = others_update [OF inv s wk']
  have fields: "wk_epollFd wk' = wk_epollFd wk" "wk_wakeFd wk' = wk_wakeFd wk" "wk_queue wk' = wk_queue wk" by (simp_all add: wk')
  have "flow_ok ?ep (wake_fd wk) (insert s' ?S) (open_sessions wk') ?U (wd_os w')"
  proof (cases "good \<and> r = Inr ()")
    case True
    have "px_inv s1" using ev by (simp add: evolves_def)
    then have "clientFd s1 \<noteq> upstreamFd s1" by (simp add: px_inv_def)
    with u True have "watched ?ep s1 (wd_os w2)" by (intro update_watched [of K ?ep s1 w1 "()"]) simp_all
    note f = flow_ok_watch [OF hf(2) this]
    have "s' = s1" "w' = w2" using True by (simp_all add: s' w')
    moreover from this have "open_sessions wk' \<subseteq> insert s1 ?W" using ou(2) by (auto split: if_splits)
    ultimately show ?thesis using flow_ok_mono [OF f _ subset_refl] by simp
  next
    case False
    then have "px_closing s'" "s' = markClosing s1" by (auto simp: s' markClosing_def)
    moreover have "flow_ok ?ep (wake_fd wk) (insert s1 ?S) ?W ?U (wd_os w')" using hf(1,2) by (simp add: w')
    ultimately show ?thesis using ou(2) flow_ok_mono [OF flow_ok_markClosing _ subset_refl] by simp
  qed
  then have "flow_ok ?ep (wake_fd wk') (set (live_sessions wk' held)) (open_sessions wk') (set (map ac_fd (wk_queue wk') @ extra)) (wd_os w')"
    unfolding ou(1) fields .
  moreover have "frame (ctl_of ?ep s1) (set (session_fds s)) (wd_os w) (wd_os w')"
    using hf(4) frame_mono [OF hf(3), of "ctl_of ?ep s1"] by (simp add: w')
  moreover have "set (session_fds s) \<subseteq> set (owned wk held extra)" unfolding owned_set others_live(1) [OF inv s] UN_insert by blast
  then have "set (session_fds s) \<inter> X = {}" using owned_rest [OF inv] by blast
  ultimately show ?thesis
    by (intro flow_invI [OF flow, of "ctl_of ?ep s1" "set (session_fds s)"]) (assumption | simp add: fields)+
qed

text \<open>A ready descriptor: the eventfd, a session, or nothing the worker knows.\<close>

lemma handleReady_flow:
  assumes K: "kernel_ok K B" and ok: "worker_ok X base m0 n wk held w" and flow: "flow_inv X h0 wk held [] (wd_os w)"
    and eq: "handleReady K (fd, events) (wk, w) = Some (wk', w')"
  shows "flow_inv X h0 wk' held [] (wd_os w')"
proof -
  note inv = conjunct1 [OF ok]
  consider (wake) "fd = wake_fd wk"
    | (skip) "fd \<noteq> wake_fd wk" "\<forall>i s. wk_fdToSession wk fd = Some i \<and> map_of (wk_sessions wk) i = Some s \<longrightarrow> px_closing s"
    | (session) i s where "fd \<noteq> wake_fd wk" "wk_fdToSession wk fd = Some i" "map_of (wk_sessions wk) i = Some s" "\<not> px_closing s"
    by blast
  then show ?thesis
  proof cases
    case wake
    then obtain w1 where w1: "drainWake K fd w = Some w1" "drainQueue K (wk, w1) = (wk', w')" using eq by (auto simp: handleReady_def bind_eq_Some_conv)
    have "worker_ok X base m0 n wk held w1" using ok calm_inv drainWake_calm [OF w1(1)] by blast
    then show ?thesis
      using drainQueue_flow [OF _ _ _ flow_inv_frame [OF inv flow drainWake_frame [OF w1(1)]] w1(2)] K by (auto simp: kernel_ok_def)
  next
    case skip
    then have "handleReady K (fd, events) (wk, w) = Some (wk, w)" by (auto simp: handleReady_def bind_eq_Some_conv split: option.splits)
    then show ?thesis using flow eq by simp
  next
    case (session i s)
    have ps: "px_inv s" using inv map_of_SomeD [OF session(3)] by (force simp: worker_inv_def session_ok_def)
    obtain good s1 w1 where h: "handleEvent K fd events (s, w) = Some (good, s1, w1)"
      using handleReady_session [OF K inv session(3)] by blast
    obtain tr where ev: "evolves (s, w) tr (s1, w1)" using handleEvent_leads [OF _ _ ps h] K by (auto simp: kernel_ok_def)
    obtain r w2 where u: "updateInterests K (epoll_fd wk) s1 w1 = (r, w2)" by fastforce
    define s' where "s' = (if good \<and> r = Inr () then s1 else markClosing s1)"
    define wu where "wu = (if good then w2 else w1)"
    have "px_id s = i" using session_in_table map_of_SomeD [OF session(3)] inv by (auto simp: worker_inv_def)
    then have ident: "px_id s1 = i" "px_id s' = i" using ev by (simp_all add: s'_def evolves_def same_session_def markClosing_def)
    have res: "wk' = wk\<lparr> wk_sessions := AList.update i s' (wk_sessions wk) \<rparr>" "frame {} {} (wd_os wu) (wd_os w')"
      using eq handleReady_handled [OF session h u] unfolding ident(1) by (auto simp: s'_def wu_def)
    have "calm w1 w2" using calm_updateInterests [of w1 K "epoll_fd wk" s1] u by (metis snd_conv)
    then have "calm w wu" unfolding wu_def using evolves_calm [OF ev] by (auto intro: calm_trans)
    moreover have "same_session s s'" "px_inv s'" using ev by (auto simp: s'_def evolves_def)
    ultimately have "worker_inv X base m0 wk' held [] wu"
      using calm_inv [OF update_session_inv [OF inv session(3) _ _ res(1) [folded ident(2)]]] by blast
    from flow_inv_frame [OF this handleSession_flow [OF inv flow session(3) ev u s'_def wu_def res(1)] res(2)] show ?thesis .
  qed
qed

lemma handleBatch_flow:
  assumes K: "kernel_ok K B" and "worker_ok X base m0 n wk held w" "flow_inv X h0 wk held [] (wd_os w)"
    "handleBatch K es (wk, w) = Some (wk', w')"
  shows "flow_inv X h0 wk' held [] (wd_os w')"
  using assms(2-)
proof (induction es arbitrary: wk w)
  case (Cons e es)
  obtain wk1 w1 where s: "handleReady K (fst e, snd e) (wk, w) = Some (wk1, w1)" "worker_ok X base m0 n wk1 held w1"
    using handleReady_ok [OF K Cons.prems(1)] by blast
  then show ?case using Cons.IH [OF s(2) handleReady_flow [OF K Cons.prems(1,2) s(1)]] Cons.prems(3) by simp
qed simp

section \<open>Iterations\<close>

lemma now_frame: "w_now K w = (t, w') \<Longrightarrow> frame C F (wd_os w) (wd_os w')"
  by (metis frame_prims(2) snd_conv)

lemma timeouts_frame:
  "idleFor K seconds s w = (b, w') \<Longrightarrow> frame C F (wd_os w) (wd_os w')"
  "connectTimedOut K ms s w = (b, w') \<Longrightarrow> frame C F (wd_os w) (wd_os w')"
  by (auto simp: idleFor_def connectTimedOut_def dest: now_frame split: prod.splits if_split_asm)

lemma expiredSessions_frame:
  assumes "expiredSessions K config ss w = (expired, w')"
  shows "frame {} {} (wd_os w) (wd_os w')"
  using assms
proof (induction ss arbitrary: w expired)
  case (Cons s ss)
  obtain t w1 where t: "connectTimedOut K (cfg_connectTimeoutMs config) s w = (t, w1)" by fastforce
  obtain idle w2 where i: "idleFor K (cfg_idleTimeoutSeconds config) s w1 = (idle, w2)" by fastforce
  define w3 where "w3 = (if t then on_metrics onConnectFailure (on_lease (px_backend s) recordConnectFailure w1) else w2)"
  obtain ex where r: "expiredSessions K config ss w3 = (ex, w')"
    using Cons.prems t i by (auto simp: w3_def split: prod.splits if_split_asm)
  have "frame {} {} (wd_os w1) (wd_os w3)" unfolding w3_def
    using frame_trans [OF frame_prims(7) frame_prims(6)] timeouts_frame(1) [OF i] by simp
  from frame_trans [OF frame_trans [OF timeouts_frame(2) [OF t] this] Cons.IH [OF r]] show ?case .
qed simp

lemma sweep_flow:
  assumes ok: "worker_ok X base m0 n wk held w" and flow: "flow_inv X h0 wk held [] (wd_os w)"
    and eq: "sweepIdleSessions K (wk, w) = (wk', w')"
  shows "flow_inv X h0 wk' held [] (wd_os w')"
proof -
  obtain expired w1 where e: "expiredSessions K (wk_config wk) (map snd (wk_sessions wk)) w = (expired, w1)" by fastforce
  note sp = expiredSessions_spec [OF e]
  obtain wk2 w2 where c: "closeSessions K expired (wk, w1) = (wk2, w2)" by fastforce
  have tb: "tables_ok wk" using ok by (simp add: worker_inv_def)
  have i1: "worker_inv X base m0 wk held [] w1" using ok sp calm_inv by blast
  have ss: "distinct (map px_id expired)" "\<forall>s\<in>set expired. (px_id s, s) \<in> set (wk_sessions wk)" using sp table_ids [OF tb] by auto
  note f1 = flow_inv_frame [OF conjunct1 [OF ok] flow expiredSessions_frame [OF e]]
  note cl = closeSessions_inv [OF i1 ss c, THEN conjunct1] closeSessions_flow [OF i1 f1 ss c]
  show ?thesis using destroySessions_flow [OF cl] eq e c by (simp add: sweepIdleSessions_def)
qed

text \<open>The sessions that asked to be closed are taken out of the tables, then destroyed at the end of the iteration.\<close>

lemma closing_flow:
  assumes ok: "worker_ok X base m0 n wk held w" and flow: "flow_inv X h0 wk held [] (wd_os w)"
    and eq: "closeSessions K (closingSessions wk) (wk, w) = (wk', w')"
  shows "flow_inv X h0 wk' (closingSessions wk @ held) [] (wd_os w')"
proof -
  have tb: "tables_ok wk" using ok by (simp add: worker_inv_def)
  have "distinct (map px_id (closingSessions wk))" "\<forall>s\<in>set (closingSessions wk). (px_id s, s) \<in> set (wk_sessions wk)"
    using table_ids [OF tb] distinct_map_filter unfolding closingSessions_def by (blast, auto)
  from closeSessions_flow [OF conjunct1 [OF ok] flow this eq] show ?thesis .
qed

lemma runIteration_flow:
  assumes K: "kernel_ok K B" and ok: "worker_ok X base m0 n wk [] w" and flow: "flow_inv X h0 wk [] [] (wd_os w)"
    and eq: "runIteration K (lastSweep, wk, w) = Some (go, t, wk', w')"
  shows "flow_inv X h0 wk' [] [] (wd_os w')"
proof -
  obtain r w1 where ew: "w_epoll_wait K (epoll_fd wk) (cfg_maxEvents (wk_config wk)) 1000 w = (r, w1)" by fastforce
  have ok1: "worker_ok X base m0 n wk [] w1" using ok calm_inv calm_epoll_wait [OF ew] by blast
  have fr: "frame {} {} (wd_os w) (wd_os w1)" using frame_prims(3) [of "{}" "{}" w K "epoll_fd wk" "cfg_maxEvents (wk_config wk)" 1000] ew by simp
  note f1 = flow_inv_frame [OF conjunct1 [OF ok] flow fr]
  show ?thesis
  proof (cases r)
    case (Err e)
    then have "wk' = wk" "w' = w1 \<or> w' = w_log Error ''worker=%zu epoll_wait failed: %s'' w1"
      using eq ew by (auto simp: runIteration_def split: if_split_asm)
    then show ?thesis using f1 flow_inv_frame [OF conjunct1 [OF ok1] f1 frame_prims(1)] by auto
  next
    case (Ok events)
    obtain wk2 w2 where b: "handleBatch K events (wk, w1) = Some (wk2, w2)" "worker_ok X base m0 n wk2 [] w2"
      using handleBatch_ok [OF K ok1] by blast
    note f2 = handleBatch_flow [OF K ok1 f1 b(1)]
    obtain wk3 w3 where c: "closeSessions K (closingSessions wk2) (wk2, w2) = (wk3, w3)" by fastforce
    note ok3 = closing_ok [OF b(2) c, THEN conjunct1] and f3 = closing_flow [OF b(2) f2 c]
    obtain now w4 where now: "w_now K w3 = (now, w4)" by fastforce
    have ok4: "worker_ok X base m0 n wk3 (closingSessions wk2 @ []) w4" using ok3 calm_inv calm_now [OF now] by blast
    note f4 = flow_inv_frame [OF conjunct1 [OF ok3] f3 now_frame [OF now]]
    obtain wk5 w5 where sw: "sweepIdleSessions K (wk3, w4) = (wk5, w5)" by fastforce
    have ok5: "worker_inv X base m0 wk5 (closingSessions wk2 @ []) [] w5" using sweep_ok [OF ok4 sw] by blast
    have "(wk', w') = (if now - lastSweep \<ge> 1000000000 then (wk5, destroySessions (closingSessions wk2) w5)
        else (wk3, destroySessions (closingSessions wk2) w4))"
      using eq ew Ok b(1) c now sw by (auto simp: runIteration_def Let_def)
    then show ?thesis using destroySessions_flow [OF ok5 sweep_flow [OF ok4 f4 sw]] destroySessions_flow [OF conjunct1 [OF ok4] f4]
      by (simp split: if_split_asm)
  qed
qed

lemma runExit_flow:
  assumes K: "fresh_fds K" and ok: "worker_ok X base m0 n wk [] w" and flow: "flow_inv X h0 wk [] [] (wd_os w)"
    and eq: "runExit K (wk, w) = (wk', w')"
  shows "flow_inv X h0 wk' [] [] (wd_os w')"
proof -
  obtain wk1 w1 where d: "drainQueue K (wk, w) = (wk1, w1)" by fastforce
  note dq = drainQueue_inv [OF K conjunct1 [OF ok] conjunct2 [OF ok] d] and f1 = drainQueue_flow [OF K conjunct1 [OF ok] conjunct2 [OF ok] flow d]
  obtain wk2 w2 where c: "closeSessions K (map snd (wk_sessions wk1)) (wk1, w1) = (wk2, w2)" by fastforce
  have tb: "tables_ok wk1" using dq by (simp add: worker_inv_def)
  note cl = closeSessions_inv [OF conjunct1 [OF dq] table_ids [OF tb] c, THEN conjunct1]
    and f2 = closeSessions_flow [OF conjunct1 [OF dq] f1 table_ids [OF tb] c]
  have "wk1\<lparr> wk_queue := [] \<rparr> = wk1" "wk_queue wk1 = []" using dq by simp_all
  note wk1 = this
  have "wk' = wk2" "w' = destroySessions (map snd (wk_sessions wk1)) (w_log Info ''worker=%zu stopped'' w2)"
    using eq d c by (simp_all add: runExit_def Let_def wk1)
  then show ?thesis
    using destroySessions_flow [OF calm_inv [OF cl calm_prims(1)] flow_inv_frame [OF cl f2 frame_prims(1)]] by simp
qed

section \<open>Hand-over, stop and construction\<close>

lemma flow_inv_running [simp]: "flow_inv X h0 (wk\<lparr> wk_running := b \<rparr>) held extra h = flow_inv X h0 wk held extra h"
  by (simp add: flow_inv_def open_sessions_def)

lemma stop_flow:
  assumes "worker_inv X base m0 wk held extra w" "flow_inv X h0 wk held extra (wd_os w)" "Worker_stop K (wk, w) = (wk', w')"
  shows "flow_inv X h0 wk' held extra (wd_os w')"
  using assms(2,3) flow_inv_frame [OF assms(1,2) frame_prims(5)] by (auto simp: Worker_stop_def split: if_split_asm)

lemma enqueue_flow:
  assumes inv: "worker_inv X base m0 wk held (c # extra) w" and flow: "flow_inv X h0 wk held (c # extra) (wd_os w)"
    and q: "wk_running wk" "\<not> of_nat (length (wk_queue wk)) \<ge> queueLimit wk" and eq: "enqueue K c a (wk, w) = (taken, wk', w')"
  shows "flow_inv X h0 wk' held extra (wd_os w')"
proof -
  have wk': "wk' = wk\<lparr> wk_queue := wk_queue wk @ [\<lparr> ac_fd = c, ac_address = a \<rparr>] \<rparr>" and w': "w' = snd (w_eventfd_write K (wake_fd wk) w)"
    using eq enqueue_queued [OF q] by (simp_all add: Let_def w_eventfd_write_def)
  have "flow_inv X h0 wk held (c # extra) (wd_os w')" unfolding w' by (rule flow_inv_frame [OF inv flow frame_prims(5)])
  then show ?thesis by (simp add: flow_inv_def wk' open_sessions_def)
qed

text \<open>A new worker watches its eventfd and nothing else; nothing that was open before is touched.\<close>

definition newborn :: "(fd \<times> fd) set \<Rightarrow> os \<Rightarrow> sysevent \<Rightarrow> bool" where
  "newborn C h e \<longleftrightarrow> touched e \<inter> open_fds h = {} \<and> controlled e \<subseteq> C \<and> (\<forall>f. recv_bytes f e = [] \<and> sent_bytes f e = [])"

lemma frame_new:
  assumes "h' = h @ tr" "\<forall>e\<in>set tr. newborn C h e"
  shows "frame C {} h h'"
proof -
  have "received f tr = [] \<and> sent f tr = []" for f using assms(2) by (induction tr) (simp_all add: newborn_def)
  then show ?thesis using assms by (auto simp: frame_def leaves_def newborn_def)
qed

definition elsewhere :: "os \<Rightarrow> os \<Rightarrow> bool" where
  "elsewhere h h' \<longleftrightarrow> (\<exists>C. frame C {} h h' \<and> fst ` C \<inter> open_fds h = {})"

lemma Worker_new_flow:
  assumes K: "fresh_fds K" and eq: "Worker_new K idx config w = (r, w')"
  shows "elsewhere (wd_os w) (wd_os w')" "r = Inr wk \<Longrightarrow> flow_inv (open_fds (wd_os w)) (wd_os w) wk [] [] (wd_os w')"
proof -
  let ?h = "wd_os w"
  define r1 where "r1 = k_epoll_create1 K ?h"
  define h1 where "h1 = ?h @ [EpollCreate r1]"
  define r2 where "r2 = k_eventfd K h1"
  define h2 where "h2 = h1 @ [EventFd r2]"
  define C :: "(fd \<times> fd) set" where "C = {f. r1 = Ok f} \<times> UNIV"
  note eq' = eq [unfolded Worker_new_def sys_epoll_create1_def sys_eventfd_def Let_def prod.case, folded r1_def, folded h1_def,
    folded r2_def, folded h2_def]
  note defs = registerFd_def w_epoll_ctl_def fd_or_minus1_def UniqueFd_new_def UniqueFd_get_def UniqueFd_valid_def UniqueFd_destroy_def
    UniqueFd_reset_def sys_close_def
  have f1: "r1 = Ok e \<Longrightarrow> 0 \<le> e \<and> e \<notin> open_fds ?h" for e using K by (auto simp: fresh_fds_def r1_def)
  have f2: "0 \<le> f \<and> f \<notin> open_fds ?h" if "r2 = Ok f" for f
  proof -
    have "0 \<le> f \<and> f \<notin> open_fds h1" using K that by (auto simp: fresh_fds_def r2_def)
    then show ?thesis by (cases r1) (auto simp: h1_def)
  qed
  have nb: "newborn C ?h (EpollCreate r1)" "newborn C ?h (EventFd r2)" "r1 = Ok f \<Longrightarrow> newborn C ?h (Close f)" "r2 = Ok f \<Longrightarrow> newborn C ?h (Close f)"
    "r1 = Ok f \<Longrightarrow> newborn C ?h (EpollCtl f op g ev x)" for f op g ev x
    using f1 f2 by (cases r1; cases r2; auto simp: newborn_def C_def)+
  obtain tr where tr: "wd_os w' = ?h @ tr" "\<forall>e\<in>set tr. newborn C ?h e"
    using eq' nb f1 f2 by (cases r1; cases r2) (auto simp: defs h2_def h1_def split: sysret.split_asm if_split_asm)
  have fr: "frame C {} ?h (wd_os w')" by (rule frame_new [OF tr])
  then show "elsewhere ?h (wd_os w')" using f1 unfolding elsewhere_def C_def by fastforce
  assume wk: "r = Inr wk"
  obtain ep f x where new: "r1 = Ok ep" "r2 = Ok f" "epoll_fd wk = ep" "wake_fd wk = f" "wd_os w' = h2 @ [EpollCtl ep EPOLL_CTL_ADD f EPOLLIN (Ok x)]"
    "wk_sessions wk = []" "wk_queue wk = []"
    using eq' wk by (cases r1; cases r2) (auto simp: defs split: sysret.split_asm if_split_asm)
  then have "registry ep (wd_os w') = [f \<mapsto> EPOLLIN]" by (simp add: h2_def h1_def)
  moreover have "frame ({ep} \<times> UNIV) (- open_fds ?h) ?h (wd_os w')" using new(1) by (intro frame_mono [OF fr]) (auto simp: C_def)
  ultimately show "flow_inv (open_fds ?h) ?h wk [] [] (wd_os w')" using new by (simp add: flow_inv_def flow_ok_def open_sessions_def)
qed

section \<open>When nothing fails\<close>

text \<open>socket(2), fcntl(2), setsockopt(2), connect(2) and epoll_ctl(2) succeed; a connect may still be in progress.\<close>

definition network_up :: "kernel \<Rightarrow> bool" where
  "network_up K \<longleftrightarrow> (\<forall>h fam e. k_socket K h fam \<noteq> Err e) \<and> (\<forall>h fd c e. k_fcntl K h fd c \<noteq> Err e) \<and>
     (\<forall>h fd c e. k_setsockopt K h fd c \<noteq> Err e) \<and> (\<forall>h fd a l e. k_connect K h fd a l = Err e \<longrightarrow> e = EINPROGRESS) \<and>
     (\<forall>h ep op fd ev e. k_epoll_ctl K h ep op fd ev \<noteq> Err e)"

definition succeeds :: "'a io \<Rightarrow> bool" where
  "succeeds m \<longleftrightarrow> (\<forall>h e h'. m h \<noteq> (Inl e, h'))"

lemma succeeds_bind: "succeeds m \<Longrightarrow> (\<And>x. succeeds (f x)) \<Longrightarrow> succeeds (io_bind m f)"
  by (auto simp: succeeds_def io_bind_def split: prod.split sum.split)

lemma succeeds_result: "succeeds m \<Longrightarrow> \<exists>x h'. m h = (Inr x, h')"
  unfolding succeeds_def by (metis old.prod.exhaust sum.exhaust)

lemma network_up_connects:
  assumes up: "network_up K"
  shows "succeeds (connectNonBlocking K ep)"
proof -
  have opt: "succeeds (setCloseOnExec K fd)" "succeeds (setNonBlocking K fd)" "succeeds (setTcpNoDelay K fd)" for fd
    using up by (auto simp: succeeds_def network_up_def setCloseOnExec_def setNonBlocking_def setTcpNoDelay_def os_simps io_simps split: sysret.split)
  have guard: "succeeds m \<Longrightarrow> succeeds (guard_fd u m)" for u and m :: "('b \<times> UniqueFd) io"
    by (auto simp: succeeds_def guard_fd_def split: prod.split sum.split)
  have con: "succeeds (\<lambda>h. case sys_connect K fd a l h of (Ok x, h) \<Rightarrow> io_return r h
      | (Err e, h) \<Rightarrow> if e = EINPROGRESS then io_return r' h else io_throw (g e) h)" for fd a l r g and r' :: "ConnectResult \<times> UniqueFd"
    using up by (auto simp: succeeds_def network_up_def os_simps io_simps split: sysret.split)
  have body: "succeeds (guard_fd u (io_bind (setCloseOnExec K fd) (\<lambda>_. io_bind (setNonBlocking K fd) (\<lambda>_. io_bind (setTcpNoDelay K fd)
      (\<lambda>_ h. case sys_connect K fd a l h of (Ok x, h) \<Rightarrow> io_return r h
        | (Err e, h) \<Rightarrow> if e = EINPROGRESS then io_return r' h else io_throw (g e) h)))))" for u fd a l r g and r' :: "ConnectResult \<times> UniqueFd"
    by (intro guard succeeds_bind opt con)
  show ?thesis unfolding succeeds_def
  proof (intro allI)
    fix h e h'
    obtain f where f: "k_socket K h (ss_family (ep_address ep)) = Ok f" using up unfolding network_up_def by (metis sysret.exhaust)
    show "connectNonBlocking K ep h \<noteq> (Inl e, h')"
      using body unfolding succeeds_def connectNonBlocking_def sys_socket_def f Let_def prod.case sysret.case UniqueFd_release_def by blast
  qed
qed

text \<open>The health of the pool is not changed by taking a lease or recording a connect.\<close>

lemma healthy_on_backend: "(\<And>b. be_healthy (f b) = be_healthy b) \<Longrightarrow> hasHealthyBackend (on_backend i f p) = hasHealthyBackend p"
proof -
  assume f: "\<And>b. be_healthy (f b) = be_healthy b"
  have "map be_healthy (bp_backends (on_backend i f p)) = map be_healthy (bp_backends p)"
    by (cases "i < length (bp_backends p)") (auto simp: on_backend_def f nth_list_update intro!: nth_equalityI split: if_split_asm)
  then have "set (map be_healthy (bp_backends (on_backend i f p))) = set (map be_healthy (bp_backends p))" by (rule arg_cong)
  then show ?thesis unfolding hasHealthyBackend_iff by (auto simp: image_iff set_eq_iff)
qed

lemma healthy_acquire: "hasHealthyBackend (snd (acquire p)) = hasHealthyBackend p"
  by (simp add: acquire_def BackendLease_new_def Let_def healthy_on_backend Backend_acquire_def split: option.split) (simp add: hasHealthyBackend_def)

lemma healthy_on_lease: "(\<And>b. be_healthy (f b) = be_healthy b) \<Longrightarrow> hasHealthyBackend (wd_pool (on_lease l f w)) = hasHealthyBackend (wd_pool w)"
  by (simp add: on_lease_def healthy_on_backend split: option.split)

text \<open>One client becomes one session.\<close>

lemma createSession_serves:
  assumes K: "fresh_fds K" "network_up K" and inv: "worker_inv X base m0 wk held (ac_fd c # extra) w" and bud: "budget base m0 (Suc n) wk"
    and healthy: "hasHealthyBackend (wd_pool w)" and eq: "createSession K c (wk, w) = (wk', w')"
  shows "\<exists>s. wk_sessions wk' = wk_sessions wk @ [(wk_nextSessionId wk, s)] \<and> clientFd s = ac_fd c \<and> px_clientAddress s = ac_address c \<and>
    \<not> px_closing s \<and> hasHealthyBackend (wd_pool w')"
proof -
  obtain l p where l: "acquire (wd_pool w) = (l, p)" by fastforce
  then have "bl_backend l \<noteq> None" using acquire_valid_iff_healthy [of "wd_pool w"] healthy by (simp add: BackendLease_valid_def)
  then obtain b where acq: "acquire (wd_pool w) = (\<lparr> bl_backend = Some b \<rparr>, p)" using l by (cases l) auto
  obtain res h where con: "connectNonBlocking K (be_endpoint (bp_backends p ! b)) (wd_os w) = (Inr res, h)"
    using succeeds_result [OF network_up_connects [OF K(2)]] by blast
  obtain s w2 where new: "ProxySession_new K (wk_nextSessionId wk) (ac_fd c) (cr_fd res) (cr_connecting res) \<lparr> bl_backend = Some b \<rparr>
      (cfg_bufferSize (wk_config wk)) (ac_address c) (w\<lparr> wd_pool := p, wd_os := h \<rparr>) = (s, w2)" by fastforce
  note cs = connected_session [OF K(1) inv bud acq con new refl]
  have s: "px_id s = wk_nextSessionId wk" "clientFd s = ac_fd c" "px_clientAddress s = ac_address c" "\<not> px_closing s"
    using new by (auto simp: ProxySession_new_def Let_def UniqueFd_new_def UniqueFd_get_def split: prod.splits)
  have p: "hasHealthyBackend p" using healthy_acquire [of "wd_pool w"] healthy acq by simp
  have "wd_pool w2 = p \<or> wd_pool w2 = on_backend b recordConnectSuccess p"
    using new by (auto simp: ProxySession_new_def Let_def w_now_def on_lease_def split: if_split_asm prod.split_asm)
  then have p2: "hasHealthyBackend (wd_pool w2)" using p healthy_on_backend [of recordConnectSuccess] by (auto simp: recordConnectSuccess_def)
  let ?wk = "wk\<lparr> wk_nextSessionId := wk_nextSessionId wk + 1 \<rparr>"
  have reg: "register_session K ?wk s w2 = (wk', w')" using createSession_connected [OF acq con new] eq by simp
  have "wk_sessions wk' = AList.update (px_id s) s (wk_sessions wk) \<and> wd_pool w' = wd_pool w2"
    using reg K(2) by (auto simp: register_session_def seq_result_def registerFd_def os_simps network_up_def w_log_def on_metrics_def split: sysret.split_asm)
  then show ?thesis using alist_update_fresh [OF cs(3), of s] s p2 by simp
qed

lemma drainLoop_serves:
  assumes K: "fresh_fds K" "network_up K" and "worker_inv X base m0 wk held (map ac_fd local @ extra) w" "budget base m0 (length local + n) wk"
    "wk_running wk" "hasHealthyBackend (wd_pool w)" "drainLoop K local (wk, w) = (wk', w')"
  shows "\<exists>new. wk_sessions wk' = wk_sessions wk @ new \<and> map (\<lambda>(i, s). (clientFd s, px_clientAddress s, px_closing s)) new =
    map (\<lambda>c. (ac_fd c, ac_address c, False)) local"
  using assms(3-)
proof (induction local arbitrary: wk w)
  case (Cons c local)
  note inv = Cons.prems(1) [simplified]
  have bud: "budget base m0 (Suc (length local + n)) wk" using Cons.prems(2) by simp
  obtain wk1 w1 where cr: "createSession K c (wk, w) = (wk1, w1)" by fastforce
  have i1: "worker_inv X base m0 wk1 held (map ac_fd local @ extra) w1" "budget base m0 (length local + n) wk1" "wk_running wk1"
    using createSession_inv [OF K(1) inv bud cr] Cons.prems(3) by (simp_all add: same_worker_def)
  obtain s where s: "wk_sessions wk1 = wk_sessions wk @ [(wk_nextSessionId wk, s)]" "clientFd s = ac_fd c" "px_clientAddress s = ac_address c"
    "\<not> px_closing s" "hasHealthyBackend (wd_pool w1)"
    using createSession_serves [OF K inv bud Cons.prems(4) cr] by blast
  have "drainLoop K local (wk1, w1) = (wk', w')" using Cons.prems(3,5) cr by simp
  from Cons.IH [OF i1 s(5) this] obtain new where "wk_sessions wk' = wk_sessions wk1 @ new"
    "map (\<lambda>(i, s). (clientFd s, px_clientAddress s, px_closing s)) new = map (\<lambda>c. (ac_fd c, ac_address c, False)) local" by blast
  then show ?case using s by (intro exI [of _ "(wk_nextSessionId wk, s) # new"]) simp
qed simp

lemma drainWake_pool:
  assumes "drainWake K fd w = Some w'"
  shows "wd_pool w' = wd_pool w"
  by (rule forever_rule [where I = "\<lambda>_. True" and R = "\<lambda>w w'. wd_pool w' = wd_pool w", OF assms [unfolded drainWake_def]])
    (auto simp: w_eventfd_read_def split: sysret.splits)

lemma handleReady_serves:
  assumes "kernel_ok K B" "network_up K" "worker_inv X base m0 wk [] [] w" "budget base m0 (length (wk_queue wk)) wk"
    "wk_running wk" "hasHealthyBackend (wd_pool w)"
  shows "\<exists>wk' w' new. handleReady K (wake_fd wk, events) (wk, w) = Some (wk', w') \<and> wk_queue wk' = [] \<and>
    wk_sessions wk' = wk_sessions wk @ new \<and>
    map (\<lambda>(i, s). (clientFd s, px_clientAddress s, px_closing s)) new = map (\<lambda>c. (ac_fd c, ac_address c, False)) (wk_queue wk)"
proof -
  have K: "fresh_fds K" "wake_bounded K B" using assms(1) by (simp_all add: kernel_ok_def)
  obtain w1 where w1: "drainWake K (wake_fd wk) w = Some w1" using drainWake_returns [OF K(2)] by blast
  have calm: "calm w w1" by (rule drainWake_calm [OF w1])
  obtain wk' w' where q: "drainQueue K (wk, w1) = (wk', w')" by fastforce
  have "handleReady K (wake_fd wk, events) (wk, w) = Some (wk', w')" using w1 q by (simp add: handleReady_def)
  moreover have i1: "worker_inv X base m0 wk [] [] w1" by (rule calm_inv [OF assms(3) calm])
  then have "wk_queue wk' = []" using drainQueue_inv [OF K(1) i1 _ q, of 0] assms(4) by simp
  moreover have "hasHealthyBackend (wd_pool w1)" using assms(6) drainWake_pool [OF w1] by simp
  ultimately show ?thesis
    using drainLoop_serves [OF K(1) assms(2) take_queue_inv [OF i1], of 0] assms(4,5) q by (auto simp: drainQueue_def budget_def)
qed

section \<open>Properties\<close>

text \<open>C21. A woken worker serves its whole queue: when a backend is healthy and sockets, connects and registrations succeed,
  handling the event of the eventfd returns with an empty queue and one new session per queued client, in the order of
  the queue, on the client's descriptor and address, none of them marked for closing; the sessions that were there
  stay as they were.\<close>

theorem woken_worker_serves_queue:
  assumes "kernel_ok K B" "network_up K" "worker_inv X base m0 wk [] [] w" "budget base m0 (length (wk_queue wk)) wk"
    "wk_running wk" "hasHealthyBackend (wd_pool w)"
  shows "\<exists>wk' w' new. handleReady K (wake_fd wk, events) (wk, w) = Some (wk', w') \<and> wk_queue wk' = [] \<and>
    wk_sessions wk' = wk_sessions wk @ new \<and>
    map (\<lambda>(i, s). (clientFd s, px_clientAddress s, px_closing s)) new = map (\<lambda>c. (ac_fd c, ac_address c, False)) (wk_queue wk)"
  using assms by (rule handleReady_serves)

lemma sample_network_up: "network_up sample_kernel" "network_up wake_kernel"
  by (simp_all add: network_up_def wake_kernel_def sample_kernel_def)

theorem woken_worker_serves_queue_witness:
  "\<exists>wk w s. handleReady wake_kernel (wake_fd (fst sample_queued), EPOLLIN) sample_queued = Some (wk, w) \<and> wk_queue wk = [] \<and>
     map snd (wk_sessions wk) = [s] \<and> clientFd s = 5 \<and> px_clientAddress s = ''10.0.0.1:5000''"
proof -
  have run: "wk_running (fst sample_queued)" "hasHealthyBackend (wd_pool (snd sample_queued))" "wk_sessions (fst sample_queued) = []"
    "wk_queue (fst sample_queued) = [\<lparr> ac_fd = 5, ac_address = ''10.0.0.1:5000'' \<rparr>]" by code_simp+
  show ?thesis
    using woken_worker_serves_queue [OF wake_contracts sample_network_up(2) sample_queued_inv sample_budget run(1,2), of EPOLLIN] run(3,4)
    by fastforce
qed

end
