(* ===== verification/SystemFlow.thy ===== *)
theory SystemFlow
  imports System WorkerEvents
begin

text \<open>
  The streams and the interest lists of the whole process. A step of one worker has its footprint on descriptors of its own and
  controls its own epoll descriptor only; the main thread, the checker and the reports stay away from the descriptors of
  all workers. So what theory \<open>WorkerEvents\<close> shows of one worker holds of all of them in every reachable state.
\<close>

section \<open>All workers\<close>

definition worker_flow :: "Worker \<Rightarrow> os \<Rightarrow> bool" where
  "worker_flow wk h \<longleftrightarrow> flow_ok (epoll_fd wk) (wake_fd wk) (set (live_sessions wk [])) (open_sessions wk) (set (map ac_fd (wk_queue wk) @ [])) h"

definition fleet_flow :: "Worker list \<Rightarrow> os \<Rightarrow> bool" where
  "fleet_flow ws h \<longleftrightarrow> (\<forall>wk\<in>set ws. worker_flow wk h)"

lemma flow_inv_start: "worker_flow wk h \<Longrightarrow> \<forall>f\<in>set extra. unused f h \<Longrightarrow> flow_inv X h wk [] extra h"
  by (auto simp: worker_flow_def flow_inv_def flow_ok_def)

lemma flow_inv_worker: "flow_inv X h0 wk [] extra h \<Longrightarrow> worker_flow wk h"
  unfolding worker_flow_def by (erule flow_ok_mono [OF flow_invD(1)]) auto

lemma fleet_member:
  assumes "fleet_inv fs ws w" "wk \<in> set ws"
  shows "\<exists>X base m0. worker_inv X base m0 wk [] [] w"
proof -
  obtain as bs where "ws = as @ wk # bs" using assms(2) by (meson split_list)
  then show ?thesis using assms(1) fleet_focus [of "[]" fs as wk bs w] by auto
qed

lemma fleet_fds_member: "wk \<in> set ws \<Longrightarrow> set (owned wk [] []) \<subseteq> set (fleet_fds ws)"
  unfolding fleet_fds_def by (simp only: set_concat set_map) blast

lemma fleet_flow_elsewhere:
  assumes inv: "fleet_inv fs ws w" and flow: "fleet_flow ws (wd_os w)" and fr: "frame C F (wd_os w) h'"
    and fp: "F \<inter> set (fleet_fds ws) = {}" "fst ` C \<inter> set (fleet_fds ws) = {}"
  shows "fleet_flow ws h'"
  unfolding fleet_flow_def
proof
  fix wk assume wk: "wk \<in> set ws"
  obtain X base m0 where i: "worker_inv X base m0 wk [] [] w" using fleet_member [OF inv wk] by blast
  note own = fleet_fds_member [OF wk]
  have "epoll_fd wk \<in> set (owned wk [] [])" unfolding owned_set by simp
  then have "(epoll_fd wk, f) \<notin> C" for f using fp(2) own by force
  moreover have "F \<inter> set (owned wk [] []) = {}" using fp(1) own by blast
  moreover have "worker_flow wk (wd_os w)" using flow wk by (simp add: fleet_flow_def)
  ultimately show "worker_flow wk h'" unfolding worker_flow_def using flow_ok_elsewhere [OF i _ fr] by blast
qed

lemma fleet_flow_frame: "fleet_inv fs ws w \<Longrightarrow> fleet_flow ws (wd_os w) \<Longrightarrow> frame {} {} (wd_os w) h' \<Longrightarrow> fleet_flow ws h'"
  by (erule (2) fleet_flow_elsewhere) simp_all

text \<open>One worker moves.\<close>

lemma fleet_flow_step:
  assumes inv: "fleet_inv (extra @ fs) (as @ wk # bs) w" and flow: "fleet_flow (as @ wk # bs) (wd_os w)"
    and step: "flow_inv (rest_fds fs (as @ bs)) (wd_os w) wk' [] extra' h'" and ep: "wk_epollFd wk' = wk_epollFd wk"
  shows "fleet_flow (as @ wk' # bs) h'"
proof -
  have foc: "rest_ok fs (as @ bs) (wd_pool w)"
    "worker_inv (rest_fds fs (as @ bs)) (rest_base (as @ bs) w) (fleet_sessions (as @ bs)) wk [] extra w" using inv by (simp_all add: fleet_focus)
  have "fleet_flow (as @ bs) h'"
    unfolding fleet_flow_def
  proof
    fix v assume v: "v \<in> set (as @ bs)"
    then obtain X base m0 where i: "worker_inv X base m0 v [] [] w" using fleet_member [OF inv, of v] by auto
    have own: "set (owned v [] []) \<subseteq> rest_fds fs (as @ bs)" unfolding rest_fds_def set_append by (rule le_supI2 [OF fleet_fds_member [OF v]])
    have "epoll_fd v \<in> set (owned v [] [])" "epoll_fd wk \<in> set (owned wk [] extra)" unfolding owned_set by simp_all
    then have "epoll_fd v \<in> rest_fds fs (as @ bs)" "epoll_fd wk \<notin> rest_fds fs (as @ bs)"
      using subsetD [OF own] disjoint_iff [THEN iffD1, OF owned_rest [OF foc(2)], rule_format] by simp_all
    then have "epoll_fd v \<noteq> epoll_fd wk" by metis
    then have "(epoll_fd v, f) \<notin> {epoll_fd wk'} \<times> UNIV" for f using ep by simp
    moreover have "- rest_fds fs (as @ bs) \<inter> set (owned v [] []) = {}" using own by blast
    moreover have "worker_flow v (wd_os w)" using flow v by (auto simp: fleet_flow_def)
    ultimately show "worker_flow v h'" unfolding worker_flow_def using flow_ok_elsewhere [OF i _ flow_invD(2) [OF step]] by blast
  qed
  then show ?thesis using flow_inv_worker [OF step] by (auto simp: fleet_flow_def)
qed

lemma fleet_flow_worker:
  assumes ok: "fleet_ok fs ws w" and flow: "fleet_flow ws (wd_os w)" and j: "j < length ws"
    and op: "\<And>X base m0 n. worker_ok X base m0 n (ws ! j) [] w \<Longrightarrow> flow_inv X (wd_os w) (ws ! j) [] [] (wd_os w) \<Longrightarrow>
      flow_inv X (wd_os w) wk' [] [] (wd_os w') \<and> wk_epollFd wk' = wk_epollFd (ws ! j)"
  shows "fleet_flow (ws[j := wk']) (wd_os w')"
proof -
  define as bs where "as = take j ws" and "bs = drop (Suc j) ws"
  have ws: "ws = as @ ws ! j # bs" using j by (simp add: as_def bs_def id_take_nth_drop)
  have upd: "ws[j := wk'] = as @ wk' # bs" using j by (simp add: as_def bs_def upd_conv_take_nth_drop)
  have inv: "fleet_inv ([] @ fs) (as @ ws ! j # bs) w" and load: "fleet_load (as @ ws ! j # bs) + 0 < 2 ^ 64"
    using ok ws by (simp_all add: fleet_ok_def)
  have "worker_ok (rest_fds fs (as @ bs)) (rest_base (as @ bs) w) (fleet_sessions (as @ bs)) 0 (ws ! j) [] w"
    using inv [unfolded fleet_focus] fleet_budget [OF inv load] by blast
  moreover have "worker_flow (ws ! j) (wd_os w)" using flow j by (simp add: fleet_flow_def)
  then have "flow_inv (rest_fds fs (as @ bs)) (wd_os w) (ws ! j) [] [] (wd_os w)" by (rule flow_inv_start) simp
  ultimately have "flow_inv (rest_fds fs (as @ bs)) (wd_os w) wk' [] [] (wd_os w') \<and> wk_epollFd wk' = wk_epollFd (ws ! j)" by (rule op)
  from fleet_flow_step [OF inv _ conjunct1 [OF this] conjunct2 [OF this]] flow ws show ?thesis unfolding upd by simp
qed

section \<open>Accepting clients\<close>

lemma fleet_hand: "fleet_inv (c # fs) ws w \<Longrightarrow> c \<in> open_fds (wd_os w) \<and> c \<notin> set (fleet_fds ws)"
  by (auto simp: fleet_inv_def fds_ok_def)

lemma enqueue_fleet_flow:
  assumes inv: "fleet_inv (c # fs) ws w" and flow: "fleet_flow ws (wd_os w)" "unused c (wd_os w)" and j: "j < length ws"
    and eq: "enqueue K c a (ws ! j, w) = (taken, wk', w')"
  shows "fleet_flow (ws[j := wk']) (wd_os w')"
proof (cases "wk_running (ws ! j) \<and> \<not> of_nat (length (wk_queue (ws ! j))) \<ge> queueLimit (ws ! j)")
  case False
  then have "enqueue K c a (ws ! j, w) = (False, ws ! j, w)" by (intro enqueue_refused) auto
  then show ?thesis using eq flow by simp
next
  case True
  then have q: "wk_running (ws ! j)" "\<not> of_nat (length (wk_queue (ws ! j))) \<ge> queueLimit (ws ! j)" by auto
  define as bs where "as = take j ws" and "bs = drop (Suc j) ws"
  have ws: "ws = as @ ws ! j # bs" using j by (simp add: as_def bs_def id_take_nth_drop)
  have upd: "ws[j := wk'] = as @ wk' # bs" using j by (simp add: as_def bs_def upd_conv_take_nth_drop)
  have f: "fleet_inv ([c] @ fs) (as @ ws ! j # bs) w" using inv ws by simp
  have "worker_flow (ws ! j) (wd_os w)" using flow(1) j by (simp add: fleet_flow_def)
  then have s: "flow_inv (rest_fds fs (as @ bs)) (wd_os w) (ws ! j) [] [c] (wd_os w)" using flow(2) by (intro flow_inv_start) simp_all
  have ep: "wk_epollFd wk' = wk_epollFd (ws ! j)" using eq enqueue_queued [OF q, of K c a w] by (auto simp: Let_def)
  have "fleet_flow (as @ ws ! j # bs) (wd_os w)" using flow(1) ws by simp
  from fleet_flow_step [OF f this enqueue_flow [OF conjunct2 [OF f [unfolded fleet_focus]] s q eq] ep] show ?thesis unfolding upd .
qed

text \<open>The main thread closes a client it could not hand over.\<close>

lemma close_fleet_flow:
  assumes "fleet_inv (c # fs) ws w" "fleet_flow ws (wd_os w)"
  shows "fleet_flow ws (wd_os (on_metrics onRejected (w_close c w)))"
proof -
  have "frame {} {c} (wd_os w) (wd_os (on_metrics onRejected (w_close c w)))" by (rule frame_trans [OF frame_w_close frame_prims(6)])
  from fleet_flow_elsewhere [OF assms this] fleet_hand [OF assms(1)] show ?thesis by simp
qed

lemma nodelay_frame: "setTcpNoDelay K c h = (r, h') \<Longrightarrow> frame {} {} h h'"
  using framed_prims(4) [of K c] unfolding framed_def by (metis snd_conv)

lemma dispatchClient_flow:
  assumes inv: "fleet_inv (c # fs) ws w" and flow: "fleet_flow ws (wd_os w)" "unused c (wd_os w)" and load: "fleet_load ws + 1 < 2 ^ 64"
    and ws: "ws \<noteq> []" "length ws < 2 ^ 64" and K: "eventfd_writable K"
    and eq: "dispatchClient K c address (ws, cursor, w) = (ws', cursor', w')"
  shows "fleet_flow ws' (wd_os w')"
proof -
  let ?w1 = "on_metrics onAccepted w"
  obtain r h where nd: "setTcpNoDelay K c (wd_os ?w1) = (r, h)" by fastforce
  have i1: "fleet_inv (c # fs) ws (?w1\<lparr> wd_os := h \<rparr>)"
    using fleet_neutral [OF fleet_neutral [OF inv neutral_calm [OF calm_prims(9)]] neutral_nodelay [OF nd]] .
  have fr: "frame {} {} (wd_os w) h" by (rule frame_trans [OF frame_prims(6) nodelay_frame [OF nd]])
  have f1: "fleet_flow ws h" "unused c h"
    using fleet_flow_frame [OF inv flow(1) fr] unused_frame [OF flow(2) fr] fleet_hand [OF inv] by simp_all
  show ?thesis
  proof (cases r)
    case (Inl e)
    define w2 where "w2 = w_log Warn ''cannot configure client socket: %s'' (?w1\<lparr> wd_os := h \<rparr>)"
    have i2: "fleet_inv (c # fs) ws w2" unfolding w2_def using fleet_neutral [OF i1 neutral_calm [OF calm_prims(1)]] .
    have "fleet_flow ws (wd_os w2)" unfolding w2_def by (rule fleet_flow_frame [OF i1 _ frame_prims(1)]) (simp add: f1)
    moreover have "ws' = ws" "w' = on_metrics onRejected (w_close c w2)" using eq nd Inl by (simp_all add: dispatchClient_def Let_def w2_def)
    ultimately show ?thesis using close_fleet_flow [OF i2] by simp
  next
    case (Inr u)
    let ?j = "selectWorker ws cursor" and ?w2 = "?w1\<lparr> wd_os := h \<rparr>"
    obtain taken wk' w2 where en: "enqueue K c (peerAddress K address) (ws ! ?j, ?w2) = (taken, wk', w2)" by (metis prod_cases3)
    have j: "?j < length ws" by (rule selectWorker_bound [OF ws])
    have f2: "fleet_flow (ws[?j := wk']) (wd_os w2)" using enqueue_fleet_flow [OF i1 _ _ j en] f1 by simp
    note e = enqueue_fleet [OF i1 load j K en]
    have res: "ws' = ws[?j := wk']" "w' = (if taken then w2 else on_metrics onRejected (w_close c w2))"
      using eq nd Inr en by (auto simp: dispatchClient_def Let_def)
    show ?thesis using res f2 e close_fleet_flow [of c fs "ws[?j := wk']" w2] by (cases taken) (simp_all add: fleet_ok_def)
  qed
qed

lemma acceptOne_flow:
  assumes ok: "fleet_ok fs ws w" and flow: "fleet_flow ws (wd_os w)" and load: "fleet_load ws + 1 < 2 ^ 64"
    and ws: "ws \<noteq> []" "length ws < 2 ^ 64" and K: "eventfd_writable K" "fresh_fds K"
    and eq: "acceptOne K l (ws, cursor, w) = Inl (ws', cursor', w') \<or> acceptOne K l (ws, cursor, w) = Inr (ws', cursor', w')"
  shows "fleet_flow ws' (wd_os w')"
proof (cases "k_accept4 K (wd_os w) l")
  case (Err e)
  let ?w = "w\<lparr> wd_os := wd_os w @ [Accept4 l (Err e)] \<rparr>"
  have "frame {} {} (wd_os w) (wd_os ?w)" by (simp add: frame_inert2)
  moreover have "ws' = ws" "w' = ?w \<or> w' = w_log Warn ''accept4 failed: %s'' ?w"
    using eq Err by (auto simp: acceptOne_def w_accept4_def split: if_split_asm)
  ultimately show ?thesis using ok flow fleet_flow_frame [of fs ws w] frame_trans [OF _ frame_prims(1)] by (auto simp: fleet_ok_def)
next
  case (Ok ca)
  obtain c a where ca: "ca = (c, a)" by (cases ca)
  let ?e = "Accept4 l (Ok (c, a))" and ?w = "w\<lparr> wd_os := wd_os w @ [Accept4 l (Ok (c, a))] \<rparr>"
  have c: "0 \<le> c" "c \<notin> open_fds (wd_os w)" using K(2) Ok unfolding ca fresh_fds_def by blast+
  have i: "fleet_inv (c # fs) ws ?w" using c ok by (intro fleet_open) (simp_all add: fleet_ok_def)
  have "frame {} {} (wd_os w) (wd_os w @ [?e])" using c(2) by (intro frame_new [OF refl]) (simp add: newborn_def)
  then have "fleet_flow ws (wd_os ?w)" using ok flow fleet_flow_frame [of fs ws w] by (simp add: fleet_ok_def)
  moreover have "unused c (wd_os ?w)" by (simp add: unused_open)
  ultimately show ?thesis using eq Ok ca dispatchClient_flow [OF i _ _ load ws K(1)] by (auto simp: acceptOne_def w_accept4_def)
qed

section \<open>Every step\<close>

definition system_flow :: "System \<Rightarrow> bool" where
  "system_flow sy \<longleftrightarrow> fleet_flow (sy_workers sy) (wd_os (sy_world sy))"

lemma system_flow_frame:
  assumes "system_inv sy" "system_flow sy" "frame {} {} (wd_os (sy_world sy)) (wd_os w)" "sy_workers sy' = sy_workers sy" "sy_world sy' = w"
  shows "system_flow sy'"
  using assms fleet_flow_frame [of "[UniqueFd_get (sy_listenFd sy)]" "sy_workers sy" "sy_world sy" "wd_os w"]
  by (simp add: system_flow_def system_inv_def fleet_ok_def)

lemma system_flow_worker:
  assumes "system_inv sy" "system_flow sy" "j < length (sy_workers sy)"
    "\<And>X base m0 n. worker_ok X base m0 n (sy_workers sy ! j) [] (sy_world sy) \<Longrightarrow>
      flow_inv X (wd_os (sy_world sy)) (sy_workers sy ! j) [] [] (wd_os (sy_world sy)) \<Longrightarrow>
      flow_inv X (wd_os (sy_world sy)) wk [] [] (wd_os w) \<and> wk_epollFd wk = wk_epollFd (sy_workers sy ! j)"
  shows "system_flow (set_worker j wk pc w sy)"
proof -
  have "fleet_flow ((sy_workers sy)[j := wk]) (wd_os w)"
    using assms(1,2) by (intro fleet_flow_worker [OF _ _ assms(3,4), of "[UniqueFd_get (sy_listenFd sy)]"]) (simp_all add: system_inv_def system_flow_def)
  then show ?thesis by (simp add: system_flow_def set_worker_def)
qed

lemma runStart_frame: "runStart K w = (t, w') \<Longrightarrow> frame {} {} (wd_os w) (wd_os w')"
  unfolding runStart_def using frame_trans [OF frame_prims(1) now_frame] by blast

lemma statsReport_frame: "frame {} {} (wd_os w) (wd_os (statsReport w))"
proof -
  have "frame {} {} (wd_os w) (wd_os (reportBackends bs w))" for bs w
    by (induction bs arbitrary: w) (auto intro: frame_trans [OF frame_prims(1)])
  then show ?thesis unfolding statsReport_def by (rule frame_trans [OF frame_prims(1)])
qed

lemma waitListener_frame: "waitListener K l w = (r, w') \<Longrightarrow> frame {} {} (wd_os w) (wd_os w')"
  by (auto simp: waitListener_def sys_poll_def os_simps Let_def frame_inert2 split: sysret.split_asm if_split_asm prod.split_asm)

text \<open>Between iterations no session is marked as closing.\<close>

definition settled :: "Worker \<Rightarrow> bool" where
  "settled wk \<longleftrightarrow> (\<forall>(i, s)\<in>set (wk_sessions wk). \<not> px_closing s)"

lemma runIteration_settled:
  assumes "kernel_ok K B" "worker_ok X base m0 n wk [] w" "runIteration K (t, wk, w) = Some (go, t', wk', w')" "settled wk"
  shows "settled wk'"
proof (cases "k_epoll_wait K (wd_os w) (epoll_fd wk) (cfg_maxEvents (wk_config wk)) 1000")
  case (Ok es)
  then show ?thesis using runIteration_ok [OF assms(1,2), where lastSweep = t] assms(3) by (auto simp: settled_def)
next
  case (Err e)
  then show ?thesis using assms(3,4) by (auto simp: runIteration_def w_epoll_wait_def split: if_split_asm)
qed

text \<open>What a step can do: move a worker, by its thread or by stopping it, take one client, or stay away from all workers.\<close>

inductive worker_op :: "kernel \<Rightarrow> Worker \<times> world \<Rightarrow> Worker \<times> world \<Rightarrow> bool" for K where
  op_thread: "worker_thread K (pc, wk, w) (pc', wk', w') \<Longrightarrow> worker_op K (wk, w) (wk', w')"
| op_stop: "Worker_stop K (wk, w) = (wk', w') \<Longrightarrow> worker_op K (wk, w) (wk', w')"

inductive_cases worker_op_cases: "worker_op K (wk, w) (wk', w')"

lemma system_step_kinds:
  assumes "system_step K sy sy'"
  obtains (worker) j wk pc w where "j < length (sy_workers sy)" "worker_op K (sy_workers sy ! j, sy_world sy) (wk, w)" "sy' = set_worker j wk pc w sy"
  | (accept) cursor where "fleet_load (sy_workers sy) + 1 < 2 ^ 64"
      "acceptOne K (UniqueFd_get (sy_listenFd sy)) (sy_workers sy, sy_cursor sy, sy_world sy) = Inl (sy_workers sy', cursor, sy_world sy') \<or>
       acceptOne K (UniqueFd_get (sy_listenFd sy)) (sy_workers sy, sy_cursor sy, sy_world sy) = Inr (sy_workers sy', cursor, sy_world sy')"
  | (other) "sy_workers sy' = sy_workers sy" "fresh_fds K \<Longrightarrow> frame {} {} (wd_os (sy_world sy)) (wd_os (sy_world sy'))"
  using assms
proof cases
  case (worker j pc wk w)
  then show ?thesis using that(1) op_thread by blast
next
  case (stop j wk w)
  then show ?thesis using that(1) op_stop by blast
next
  case main
  then show ?thesis
  proof cases
    case (poll ready w)
    then show ?thesis using other waitListener_frame [OF poll(4)] by simp
  qed (use that(2) other in simp_all)
next
  case (check hc p h)
  then show ?thesis using other checkOnce_frame [OF _ check(2)] by simp
next
  case report
  then show ?thesis using other statsReport_frame by simp
qed (use other in \<open>simp_all add: signalHandler_def\<close>)

lemma worker_thread_flow:
  assumes K: "kernel_ok K B" and ok: "worker_ok X base m0 n wk [] w" and flow: "flow_inv X h0 wk [] [] (wd_os w)"
    and step: "worker_thread K (pc, wk, w) (pc', wk', w')"
  shows "flow_inv X h0 wk' [] [] (wd_os w') \<and> (settled wk \<longrightarrow> settled wk')"
proof -
  have fresh: "fresh_fds K" using K by (simp add: kernel_ok_def)
  from step show ?thesis
  proof (rule worker_threadE)
    fix t assume "wk' = wk" "runStart K w = (t, w')"
    then show ?thesis using flow_inv_frame [OF conjunct1 [OF ok] flow runStart_frame] by simp
  next
    fix t t' assume it: "runIteration K (t, wk, w) = Some (True, t', wk', w')"
    show ?thesis using runIteration_flow [OF K ok flow it] runIteration_settled [OF K ok it] by simp
  next
    fix t t' assume it: "runIteration K (t, wk, w) = Some (False, t', wk', w')"
    show ?thesis using runIteration_flow [OF K ok flow it] runIteration_settled [OF K ok it] by simp
  next
    assume ex: "runExit K (wk, w) = (wk', w')"
    show ?thesis using runExit_flow [OF fresh ok flow ex] runExit_ok [OF fresh ok ex] by (simp add: settled_def)
  qed (use flow in simp)
qed

lemma worker_op_flow:
  assumes K: "kernel_ok K B" and ok: "worker_ok X base m0 n wk [] w" and flow: "flow_inv X h0 wk [] [] (wd_os w)"
    and op: "worker_op K (wk, w) (wk', w')"
  shows "flow_inv X h0 wk' [] [] (wd_os w')" "wk_epollFd wk' = wk_epollFd wk" "settled wk \<Longrightarrow> settled wk'"
proof -
  have "flow_inv X h0 wk' [] [] (wd_os w') \<and> wk_epollFd wk' = wk_epollFd wk \<and> (settled wk \<longrightarrow> settled wk')"
    using op
  proof (rule worker_op_cases)
    fix pc pc' assume st: "worker_thread K (pc, wk, w) (pc', wk', w')"
    show ?thesis using worker_thread_flow [OF K ok flow st] worker_thread_ok [OF K ok st] by (simp add: same_worker_def)
  next
    assume st: "Worker_stop K (wk, w) = (wk', w')"
    show ?thesis using stop_flow [OF conjunct1 [OF ok] flow st] Worker_stop_ok(3,5) [OF st] by (simp add: settled_def)
  qed
  then show "flow_inv X h0 wk' [] [] (wd_os w')" "wk_epollFd wk' = wk_epollFd wk" "settled wk \<Longrightarrow> settled wk'" by blast+
qed

lemma system_flow_step:
  assumes K: "system_kernel K B" and step: "system_step K sy sy'" and inv: "system_inv sy" and flow: "system_flow sy"
  shows "system_flow sy'"
proof -
  have ko: "kernel_ok K B" and fresh: "fresh_fds K" and ew: "eventfd_writable K"
    using K by (simp_all add: system_kernel_def kernel_ok_def)
  have ok: "fleet_ok [UniqueFd_get (sy_listenFd sy)] (sy_workers sy) (sy_world sy)" "sy_workers sy \<noteq> []" using inv by (simp_all add: system_inv_def)
  from step show ?thesis
  proof (cases rule: system_step_kinds)
    case (worker j wk pc w)
    show ?thesis unfolding worker(3) using inv flow worker(1)
      by (rule system_flow_worker) (use worker_op_flow(1,2) [OF ko _ _ worker(2)] in blast)
  next
    case (accept cursor)
    show ?thesis using acceptOne_flow [OF ok(1) _ accept(1) ok(2) fleet_length [OF ok(1)] ew fresh accept(2)] flow by (simp add: system_flow_def)
  next
    case other
    show ?thesis using inv flow other(2) [OF fresh] other(1) refl by (rule system_flow_frame)
  qed
qed

lemma system_flow_reachable:
  "(system_step K)\<^sup>*\<^sup>* sy sy' \<Longrightarrow> system_kernel K B \<Longrightarrow> system_inv sy \<Longrightarrow> system_flow sy \<Longrightarrow> system_flow sy'"
  by (induction rule: rtranclp_induct) (auto intro: system_flow_step system_inv_reachable)

section \<open>Start-up\<close>

lemma add_worker_flow:
  assumes K: "fresh_fds K" and inv: "fleet_inv fs ws w" and flow: "fleet_flow ws (wd_os w)" and eq: "Worker_new K i config w = (Inr wk, w')"
  shows "fleet_flow (ws @ [snd (Worker_start wk)]) (wd_os w')"
proof -
  note new = Worker_new_flow [OF K eq]
  have sub: "set (fleet_fds ws) \<subseteq> open_fds (wd_os w)" using inv by (auto simp: fleet_inv_def fds_ok_def)
  obtain C where "frame C {} (wd_os w) (wd_os w')" "fst ` C \<inter> open_fds (wd_os w) = {}" using new(1) by (auto simp: elsewhere_def)
  then have "fleet_flow ws (wd_os w')" using sub by (intro fleet_flow_elsewhere [OF inv flow]) auto
  moreover have "flow_inv (open_fds (wd_os w)) (wd_os w) (snd (Worker_start wk)) [] [] (wd_os w')" using new(2) by (simp add: Worker_start_def)
  ultimately show ?thesis using flow_inv_worker by (simp add: fleet_flow_def)
qed

lemma startWorkers_flow:
  assumes K: "fresh_fds K" and inv: "fleet_inv fs ws w" "fleet_flow ws (wd_os w)" and eq: "startWorkers K config is ws w = (Inr ws', w')"
  shows "fleet_flow ws' (wd_os w')"
  using inv eq
proof (induction "is" arbitrary: ws w)
  case (Cons i "is")
  then obtain wk w1 where new: "Worker_new K (of_nat i) config w = (Inr wk, w1)" "startWorkers K config is (ws @ [snd (Worker_start wk)]) w1 = (Inr ws', w')"
    by (auto split: prod.split_asm sum.split_asm)
  show ?case using Cons.IH [OF _ add_worker_flow [OF K Cons.prems(1,2) new(1)] new(2)] add_worker [OF K Cons.prems(1) new(1)] by blast
qed simp

lemma main_start_flow:
  assumes K: "fresh_fds K" and h: "open_fds h = {}" "closes_ok h" and eq: "main_start K files argv h = (Serving sv, w)"
  shows "system_flow (system_of sv w)" "\<forall>wk\<in>set (sv_workers sv). untouched wk"
proof -
  obtain path input config lvl p h1 where m: "load path input = Inr config" "BackendPool_new K (cfg_backends config) h = (Inr p, h1)"
    "startServer K config lvl p h1 = (Serving sv, w)"
    using eq by (auto simp: main_start_def Let_def split: sum.split_asm parsed.split_asm if_split_asm prod.split_asm)
  obtain h2 f h3 ws w3 where st: "installSignals K h1 = (Inr (), h2)"
    "createListenSocket K (cfg_listenHost config) (cfg_listenPort config) (cfg_backlog config) h2 = (Inr f, h3)"
    "startWorkers K config [0..<unat (cfg_workers config)] [] \<lparr> wd_os = h3, wd_metrics = Metrics_new, wd_pool = p \<rparr> = (Inr ws, w3)"
    "sv_workers sv = ws" "w = w_log Info ''FluxGate listening on %s:%u with %zu worker(s) and %zu backend(s)'' w3"
    using m(3) by (auto simp: startServer_def Let_def split: sum.split_asm prod.split_asm)
  have pool: "open_fds h1 = {}" "closes_ok h1" "\<forall>i<length (bp_backends p). active p i = 0" using BackendPool_new_fresh [OF m(2)] h by auto
  have "open_fds h2 = {}" "closes_ok h2"
    using installSignals_neutral [unfolded fd_neutral_def, THEN spec, of K h1] st(1) pool by simp_all
  then have lf: "fds_ok {} [f] h3" using createListenSocket_accounting [OF K st(2)] by (simp add: fds_ok_def)
  note inv = serving_inv [OF K lf pool(3) load_config_valid [OF m(1)] st(3), simplified]
  have "fleet_inv [f] [] \<lparr> wd_os = h3, wd_metrics = Metrics_new, wd_pool = p \<rparr>"
    using lf pool by (simp add: fleet_inv_def fleet_defs Metrics_new_def)
  then have "fleet_flow ws (wd_os w3)" using startWorkers_flow [OF K _ _ st(3)] by (simp add: fleet_flow_def)
  then have "fleet_flow ws (wd_os w)" unfolding st(5) using inv by (intro fleet_flow_frame [OF _ _ frame_prims(1)]) (auto simp: fleet_ok_def)
  then show "system_flow (system_of sv w)" by (simp add: system_flow_def system_of_def st(4))
  show "\<forall>wk\<in>set (sv_workers sv). untouched wk" using inv st(4) by simp
qed

section \<open>Interest lists\<close>

lemma settled_update: "\<forall>wk\<in>set ws. settled wk \<Longrightarrow> settled wk' \<Longrightarrow> \<forall>wk\<in>set (ws[j := wk']). settled wk"
  using set_update_subset_insert by fastforce

lemma settled_handed_over:
  assumes "handed_over ws ws'" "\<forall>wk\<in>set ws. settled wk"
  shows "\<forall>wk\<in>set ws'. settled wk"
proof -
  have "settled ((ws ! j)\<lparr> wk_queue := q \<rparr>)" if "j < length ws" for j q using assms(2) nth_mem [OF that] by (simp add: settled_def)
  then have "\<forall>wk\<in>set (ws[j := (ws ! j)\<lparr> wk_queue := q \<rparr>]). settled wk" if "j < length ws" for j q
    using that by (intro settled_update [OF assms(2)])
  then show ?thesis using assms [unfolded handed_over_def] by blast
qed

lemma system_settled_step:
  assumes K: "system_kernel K B" and step: "system_step K sy sy'" and inv: "system_inv sy" and flow: "system_flow sy"
    and set: "\<forall>wk\<in>set (sy_workers sy). settled wk"
  shows "\<forall>wk\<in>set (sy_workers sy'). settled wk"
proof -
  have ko: "kernel_ok K B" and fresh: "fresh_fds K" and ew: "eventfd_writable K"
    using K by (simp_all add: system_kernel_def kernel_ok_def)
  have ok: "fleet_ok [UniqueFd_get (sy_listenFd sy)] (sy_workers sy) (sy_world sy)" using inv by (simp add: system_inv_def)
  from step show ?thesis
  proof (cases rule: system_step_kinds)
    case (worker j wk pc w)
    obtain X base m0 where w: "worker_ok X base m0 0 (sy_workers sy ! j) [] (sy_world sy)" using fleet_worker [OF ok worker(1)] by blast
    have "worker_flow (sy_workers sy ! j) (wd_os (sy_world sy))" using flow worker(1) by (simp add: system_flow_def fleet_flow_def)
    then have "flow_inv X (wd_os (sy_world sy)) (sy_workers sy ! j) [] [] (wd_os (sy_world sy))" by (rule flow_inv_start) simp
    from worker_op_flow(3) [OF ko w this worker(2)] have "settled wk" using set worker(1) by simp
    then show ?thesis using settled_update [OF set] by (simp add: worker(3) set_worker_def)
  next
    case (accept cursor)
    show ?thesis using settled_handed_over [OF acceptOne_system(3) [OF inv accept(1) ew fresh accept(2)] set] .
  next
    case other
    then show ?thesis using set by simp
  qed
qed

text \<open>What the epoll descriptor of a worker should watch.\<close>

definition interest_list :: "Worker \<Rightarrow> (fd \<times> u32) list" where
  "interest_list wk = (wake_fd wk, EPOLLIN) #
     concat (map (\<lambda>(i, s). [(clientFd s, clientEvents s), (upstreamFd s, upstreamEvents s)]) (wk_sessions wk))"

lemma interest_list_exact:
  assumes inv: "worker_inv X base m0 wk [] [] w" and flow: "worker_flow wk (wd_os w)" and set: "settled wk"
  shows "registry (epoll_fd wk) (wd_os w) = map_of (interest_list wk)" "distinct (map fst (interest_list wk))"
proof -
  let ?r = "registry (epoll_fd wk) (wd_os w)"
  have keys: "map fst (interest_list wk) = wake_fd wk # concat (map session_fds (map snd (wk_sessions wk)))"
    by (simp add: interest_list_def map_concat comp_def case_prod_beta)
  have "distinct (owned wk [] [])" using inv by (simp add: worker_inv_def fds_ok_def)
  then show d: "distinct (map fst (interest_list wk))" unfolding keys by (simp add: owned_def)
  have fl: "?r (wake_fd wk) = Some EPOLLIN" "dom ?r \<subseteq> insert (wake_fd wk) (fds_of (snd ` set (wk_sessions wk)))"
    using flow by (simp_all add: worker_flow_def flow_ok_def)
  have seen: "?r (clientFd s) = Some (clientEvents s) \<and> ?r (upstreamFd s) = Some (upstreamEvents s)" if "(i, s) \<in> set (wk_sessions wk)" for i s
  proof -
    have "s \<in> open_sessions wk" using that set by (force simp: open_sessions_def settled_def)
    then show ?thesis using flow unfolding worker_flow_def flow_ok_def watched_def by blast
  qed
  have mem: "?r f = Some v" if "(f, v) \<in> set (interest_list wk)" for f v
    using that fl(1) seen by (auto simp: interest_list_def)
  have "?r f = Some v \<longleftrightarrow> (f, v) \<in> set (interest_list wk)" for f v
  proof
    assume r: "?r f = Some v"
    then have "f \<in> insert (wake_fd wk) (fds_of (snd ` set (wk_sessions wk)))" using subsetD [OF fl(2) domI] by blast
    then have "f \<in> set (map fst (interest_list wk))" unfolding keys by simp
    then obtain u where "(f, u) \<in> set (interest_list wk)" by auto
    then show "(f, v) \<in> set (interest_list wk)" using mem r by (metis option.inject)
  qed (rule mem)
  then show "?r = map_of (interest_list wk)" using map_of_eq_Some_iff [OF d] by (metis map_option_cong not_None_eq ext)
qed

section \<open>A sample run\<close>

text \<open>The sample server with a clock that stands still; the wake-up of the first worker is always reported.\<close>

definition woken_kernel :: kernel where
  "woken_kernel = sample_kernel\<lparr> k_epoll_wait := \<lambda>h ep n t. Ok [(5, EPOLLIN)], k_now := \<lambda>h. 0 \<rparr>"

lemma woken_system_kernel: "system_kernel woken_kernel 0"
  using sample_contracts
  by (simp add: system_kernel_def kernel_ok_def recv_bounded_def send_bounded_def fresh_fds_def eintr_bounded_def wake_bounded_def
      eventfd_writable_def woken_kernel_def) (simp add: sample_kernel_def)

lemma woken_network_up: "network_up woken_kernel"
  by (simp add: network_up_def woken_kernel_def sample_kernel_def)

definition queue_ready :: "Worker list \<Rightarrow> world \<Rightarrow> bool" where
  "queue_ready ws w \<longleftrightarrow> length ws = 2 \<and> wk_running (ws ! 0) \<and> wake_fd (ws ! 0) = 5 \<and> wk_sessions (ws ! 0) = [] \<and> length (wk_queue (ws ! 0)) = 1 \<and>
     hasHealthyBackend (wd_pool w)"

lemma sample_handed_over:
  "\<exists>sv w w1 ws cursor w2. main_start woken_kernel sample_files [''fluxgate''] [] = (Serving sv, w) \<and>
     waitListener woken_kernel (UniqueFd_get (sv_listenFd sv)) w = (Inr True, w1) \<and> fleet_load (sv_workers sv) \<le> 2 \<and>
     acceptOne woken_kernel (UniqueFd_get (sv_listenFd sv)) (sv_workers sv, 0, w1) = Inr (ws, cursor, w2) \<and> queue_ready ws w2"
proof -
  have c: "case main_start woken_kernel sample_files [''fluxgate''] [] of
      (Serving sv, w) \<Rightarrow> (case waitListener woken_kernel (UniqueFd_get (sv_listenFd sv)) w of
        (Inr ready, w1) \<Rightarrow> ready \<and> fleet_load (sv_workers sv) \<le> 2 \<and>
          (case acceptOne woken_kernel (UniqueFd_get (sv_listenFd sv)) (sv_workers sv, 0, w1) of
             Inr (ws, cursor, w2) \<Rightarrow> queue_ready ws w2 | _ \<Rightarrow> False)
      | _ \<Rightarrow> False)
    | _ \<Rightarrow> False" by code_simp
  obtain out w where m: "main_start woken_kernel sample_files [''fluxgate''] [] = (out, w)" by fastforce
  then obtain sv where out: "out = Serving sv" using c by (cases out) simp_all
  obtain r w1 where wl: "waitListener woken_kernel (UniqueFd_get (sv_listenFd sv)) w = (r, w1)" by fastforce
  then obtain ready where r: "r = Inr ready" using c m out by (cases r) simp_all
  obtain ws cursor w2 where "acceptOne woken_kernel (UniqueFd_get (sv_listenFd sv)) (sv_workers sv, 0, w1) = Inr (ws, cursor, w2)"
    using c m out wl r by (auto split: sum.split_asm prod.split_asm)
  then show ?thesis using c m out wl r by auto
qed

text \<open>One iteration that only sees the wake-up: every queued client has a session.\<close>

lemma woken_iteration:
  assumes ok: "worker_ok X base m0 n wk [] w" and ready: "wk_running wk" "wake_fd wk = 5" "wk_sessions wk = []" "hasHealthyBackend (wd_pool w)"
    "wk_queue wk \<noteq> []"
  shows "\<exists>wk' w' i s. runIteration woken_kernel (0, wk, w) = Some (True, 0, wk', w') \<and> (i, s) \<in> set (wk_sessions wk')"
proof -
  have K: "kernel_ok woken_kernel 0" using woken_system_kernel by (simp add: system_kernel_def)
  obtain w1 where ew: "w_epoll_wait woken_kernel (epoll_fd wk) (cfg_maxEvents (wk_config wk)) 1000 w = (Ok [(5, EPOLLIN)], w1)" "wd_pool w1 = wd_pool w"
    by (simp add: w_epoll_wait_def woken_kernel_def)
  have ok1: "worker_ok X base m0 n wk [] w1" using ok calm_inv calm_epoll_wait [OF ew(1)] by blast
  then have "budget base m0 (length (wk_queue wk)) wk" using budget_mono [of base m0 "length (wk_queue wk) + n"] by simp
  from handleReady_serves [OF K woken_network_up conjunct1 [OF ok1] this ready(1), of EPOLLIN] obtain wk' w' new where
    h: "handleReady woken_kernel (5, EPOLLIN) (wk, w1) = Some (wk', w')" "wk_sessions wk' = new"
    "map (\<lambda>(i, s). (clientFd s, px_clientAddress s, px_closing s)) new = map (\<lambda>c. (ac_fd c, ac_address c, False)) (wk_queue wk)"
    using ready ew(2) by auto
  have "\<forall>x\<in>set new. \<not> px_closing (snd x)"
  proof
    fix x assume "x \<in> set new"
    then have "(clientFd (snd x), px_clientAddress (snd x), px_closing (snd x)) \<in> set (map (\<lambda>(i, s). (clientFd s, px_clientAddress s, px_closing s)) new)"
      by (force simp: case_prod_beta)
    then show "\<not> px_closing (snd x)" unfolding h(3) by auto
  qed
  then have "closingSessions wk' = []" by (auto simp: closingSessions_def h(2) filter_empty_conv)
  then have "runIteration woken_kernel (0, wk, w) = Some (True, 0, wk', snd (w_now woken_kernel w'))"
    using ew(1) h(1) by (simp add: runIteration_def w_now_def sys_now_def Let_def woken_kernel_def)
  moreover have "new \<noteq> []" using h(3) ready(5) by auto
  then obtain i s where "(i, s) \<in> set (wk_sessions wk')" using h(2) by (metis hd_in_set prod.collapse)
  ultimately show ?thesis by blast
qed

lemma sample_session:
  "\<exists>sv w sy wk i s. main_start woken_kernel sample_files [''fluxgate''] [] = (Serving sv, w) \<and>
     (system_step woken_kernel)\<^sup>*\<^sup>* (system_of sv w) sy \<and> wk \<in> set (sy_workers sy) \<and> (i, s) \<in> set (wk_sessions wk)"
proof -
  obtain sv w w1 ws cursor w2 where m: "main_start woken_kernel sample_files [''fluxgate''] [] = (Serving sv, w)"
    and wl: "waitListener woken_kernel (UniqueFd_get (sv_listenFd sv)) w = (Inr True, w1)" and load: "fleet_load (sv_workers sv) \<le> 2"
    and acc: "acceptOne woken_kernel (UniqueFd_get (sv_listenFd sv)) (sv_workers sv, 0, w1) = Inr (ws, cursor, w2)" and q: "queue_ready ws w2"
    using sample_handed_over by blast
  have K: "fresh_fds woken_kernel" using woken_system_kernel by (simp add: system_kernel_def kernel_ok_def)
  have "startup_ok (Serving sv) w" using main_start_spec [OF K _ _ m] by simp
  then have inv: "system_inv (system_of sv w)" by (simp add: startup_ok_def)
  let ?a = "(system_of sv w)\<lparr> sy_main := Accepting, sy_world := w1 \<rparr>"
  have a: "system_step woken_kernel (system_of sv w) ?a"
    using system_step.main [OF accept_step.poll, of "system_of sv w" woken_kernel True w1] wl by (simp add: system_of_def)
  let ?b = "?a\<lparr> sy_workers := ws, sy_cursor := cursor, sy_world := w2 \<rparr>"
  have b: "system_step woken_kernel ?a ?b" using acc load by (intro system_step.main accept_step.accept) (simp_all add: system_of_def)
  let ?w3 = "snd (runStart woken_kernel w2)"
  have pcs: "length (sv_workers sv) = 2"
    using system_inv_step [OF woken_system_kernel b system_inv_step [OF woken_system_kernel a inv]] q
    by (auto simp: system_inv_def system_of_def queue_ready_def dest: list_all2_lengthD)
  have t0: "runStart woken_kernel w2 = (0, ?w3)" by (simp add: runStart_def w_now_def sys_now_def woken_kernel_def)
  have ne: "ws \<noteq> []" using q by (auto simp: queue_ready_def)
  let ?c = "set_worker 0 (ws ! 0) (Looping 0) ?w3 ?b"
  have c: "system_step woken_kernel ?b ?c"
    using system_step.worker [of 0 ?b] ne pcs worker_thread.enter [OF t0] by (simp add: system_of_def)
  have r: "(system_step woken_kernel)\<^sup>*\<^sup>* (system_of sv w) ?c"
    by (rule rtranclp.rtrancl_into_rtrancl [OF rtranclp.rtrancl_into_rtrancl [OF r_into_rtranclp [of "system_step woken_kernel", OF a] b] c])
  have ic: "system_inv ?c" by (rule system_inv_reachable [OF r woken_system_kernel inv])
  have sel: "sy_workers ?c = ws" "sy_world ?c = ?w3" "sy_pcs ?c ! 0 = Looping 0" using pcs q by (simp_all add: set_worker_def system_of_def)
  have ql: "0 < length ws" using q by (simp add: queue_ready_def)
  obtain X base m0 where ok: "worker_ok X base m0 0 (ws ! 0) [] ?w3"
    using fleet_worker [of "[UniqueFd_get (sy_listenFd ?c)]" ws ?w3 0] ic ql unfolding system_inv_def sel by blast
  have "hasHealthyBackend (wd_pool ?w3)" using q by (simp add: queue_ready_def runStart_def w_now_def w_log_def sys_now_def)
  then obtain wk' w' i s where it: "runIteration woken_kernel (0, ws ! 0, ?w3) = Some (True, 0, wk', w')" "(i, s) \<in> set (wk_sessions wk')"
    using woken_iteration [OF ok] q unfolding queue_ready_def by fastforce
  have d: "system_step woken_kernel ?c (set_worker 0 wk' (Looping 0) w' ?c)"
    using system_step.worker [of 0 ?c, unfolded sel, OF ql worker_thread.iterate [OF _ it(1)]] q by (simp add: queue_ready_def)
  have "wk' \<in> set (sy_workers (set_worker 0 wk' (Looping 0) w' ?c))" using ql by (simp add: set_worker_def set_update_memI)
  then show ?thesis using m rtranclp.rtrancl_into_rtrancl [OF r d] it(2) by blast
qed

section \<open>Properties\<close>

lemma reachable_flow:
  assumes K: "system_kernel K B" and m: "main_start K files argv [] = (Serving sv, w)" and r: "(system_step K)\<^sup>*\<^sup>* (system_of sv w) sy"
  shows "system_inv sy" "system_flow sy" "\<forall>wk\<in>set (sy_workers sy). settled wk"
proof -
  have fresh: "fresh_fds K" using K by (simp add: system_kernel_def kernel_ok_def)
  have "startup_ok (Serving sv) w" using main_start_spec [OF fresh _ _ m] by simp
  then have i0: "system_inv (system_of sv w)" by (simp add: startup_ok_def)
  from system_inv_reachable [OF r K i0] show "system_inv sy" .
  have f0: "system_flow (system_of sv w)" using main_start_flow(1) [OF fresh _ _ m] by simp
  from system_flow_reachable [OF r K i0 f0] show "system_flow sy" .
  show "\<forall>wk\<in>set (sy_workers sy). settled wk"
    using r
  proof (induction rule: rtranclp_induct)
    case base
    then show ?case using main_start_flow(2) [OF fresh _ _ m] by (auto simp: system_of_def untouched_def settled_def)
  next
    case (step y z)
    then show ?case using system_settled_step [OF K step.hyps(2)] system_inv_reachable [OF _ K i0] system_flow_reachable [OF _ K i0 f0] by blast
  qed
qed

text \<open>C1. No byte is lost, invented, reordered or sent to the wrong peer anywhere in the process. In every state reachable from a
  successful start, for every session of every worker and both directions: what was received from one peer since its socket
  was opened is what was sent to the other since that socket was opened, followed by what the session's buffer holds; and the
  sending side of a peer was shut down exactly once if the session says so and never otherwise. Descriptor numbers are used again
  and all workers share one history, so this also says that no thread ever reads from or writes to a socket of another's session.\<close>

theorem process_streams_intact:
  assumes "system_kernel K B" "main_start K files argv [] = (Serving sv, w)" "(system_step K)\<^sup>*\<^sup>* (system_of sv w) sy"
    "wk \<in> set (sy_workers sy)" "(i, s) \<in> set (wk_sessions wk)"
  shows "stream_in (source_fd d s) (wd_os (sy_world sy)) = stream_out (sink_fd d s) (wd_os (sy_world sy)) @ readData (buffer d s) \<and>
    half_closes (sink_fd d s) (wd_os (sy_world sy)) = of_bool (writeShutdown d s)"
proof -
  have "worker_flow wk (wd_os (sy_world sy))" using reachable_flow(2) [OF assms(1-3)] assms(4) by (simp add: system_flow_def fleet_flow_def)
  then have "tracked s (wd_os (sy_world sy))" using assms(5) by (force simp: worker_flow_def flow_ok_def)
  then show ?thesis by (simp add: tracked_def)
qed

theorem process_streams_intact_witness:
  "\<exists>sv w sy wk i s. main_start woken_kernel sample_files [''fluxgate''] [] = (Serving sv, w) \<and>
     (system_step woken_kernel)\<^sup>*\<^sup>* (system_of sv w) sy \<and> wk \<in> set (sy_workers sy) \<and> (i, s) \<in> set (wk_sessions wk) \<and>
     stream_in (clientFd s) (wd_os (sy_world sy)) = stream_out (upstreamFd s) (wd_os (sy_world sy)) @ readData (px_clientToUpstream s)"
proof -
  obtain sv w sy wk i s where x: "main_start woken_kernel sample_files [''fluxgate''] [] = (Serving sv, w)"
    "(system_step woken_kernel)\<^sup>*\<^sup>* (system_of sv w) sy" "wk \<in> set (sy_workers sy)" "(i, s) \<in> set (wk_sessions wk)"
    using sample_session by blast
  from process_streams_intact [OF woken_system_kernel x, of ClientToUpstream] x show ?thesis by auto
qed

text \<open>C4. The interest list of every reactor is exact: in every reachable state the epoll descriptor of a worker watches its eventfd for
  input and, for each of its sessions, the two sockets with exactly the events the session asks for now, each descriptor
  once, and nothing else; no descriptor of a session that has ended, of another worker or of the main thread is left in it.\<close>

theorem interest_lists_exact:
  assumes "system_kernel K B" "main_start K files argv [] = (Serving sv, w)" "(system_step K)\<^sup>*\<^sup>* (system_of sv w) sy" "wk \<in> set (sy_workers sy)"
  shows "registry (epoll_fd wk) (wd_os (sy_world sy)) = map_of (interest_list wk) \<and> distinct (map fst (interest_list wk))"
proof -
  note r = reachable_flow [OF assms(1-3)]
  obtain X base m0 where "worker_inv X base m0 wk [] [] (sy_world sy)"
    using r(1) fleet_member [OF _ assms(4), of "[UniqueFd_get (sy_listenFd sy)]" "sy_world sy"] by (auto simp: system_inv_def fleet_ok_def)
  moreover have "worker_flow wk (wd_os (sy_world sy))" "settled wk" using r(2,3) assms(4) by (simp_all add: system_flow_def fleet_flow_def)
  ultimately show ?thesis using interest_list_exact by blast
qed

theorem interest_lists_exact_witness:
  "\<exists>sv w sy wk i s. main_start woken_kernel sample_files [''fluxgate''] [] = (Serving sv, w) \<and>
     (system_step woken_kernel)\<^sup>*\<^sup>* (system_of sv w) sy \<and> (i, s) \<in> set (wk_sessions wk) \<and>
     registry (epoll_fd wk) (wd_os (sy_world sy)) (upstreamFd s) = Some (upstreamEvents s)"
proof -
  obtain sv w sy wk i s where x: "main_start woken_kernel sample_files [''fluxgate''] [] = (Serving sv, w)"
    "(system_step woken_kernel)\<^sup>*\<^sup>* (system_of sv w) sy" "wk \<in> set (sy_workers sy)" "(i, s) \<in> set (wk_sessions wk)"
    using sample_session by blast
  note e = interest_lists_exact [OF woken_system_kernel x(1-3)]
  have "(upstreamFd s, upstreamEvents s) \<in> set (interest_list wk)" using x(4) by (force simp: interest_list_def)
  then have "map_of (interest_list wk) (upstreamFd s) = Some (upstreamEvents s)" using e by simp
  then show ?thesis using e x by metis
qed

end
