(* ===== verification/AcceptRound.thy ===== *)
theory AcceptRound
  imports System "HOL-Library.Sublist"
begin

text \<open>
  One turn of the loop of \<^verbatim>\<open>main\<close> as a whole: the wait for the listening socket and the inner loop that accepts until the socket is
  drained. It returns when clients do not arrive faster than they are accepted for ever, and what it did can be read off the answers of
  \<^verbatim>\<open>accept4\<close>.
\<close>

section \<open>What the kernel answered\<close>

definition accept_answers :: "fd \<Rightarrow> os \<Rightarrow> (fd \<times> sockaddr_storage) sysret list" where
  "accept_answers l h = concat (map (\<lambda>e. case e of Accept4 l' r \<Rightarrow> if l' = l then [r] else [] | _ \<Rightarrow> []) h)"

definition accepted_fds :: "fd \<Rightarrow> os \<Rightarrow> fd list" where
  "accepted_fds l h = concat (map (\<lambda>r. case r of Ok (f, a) \<Rightarrow> [f] | Err e \<Rightarrow> []) (accept_answers l h))"

definition closed_fds :: "os \<Rightarrow> fd list" where
  "closed_fds h = concat (map (\<lambda>e. case e of Close f \<Rightarrow> [f] | _ \<Rightarrow> []) h)"

text \<open>Clients that could be configured, and so were offered to a worker.\<close>

definition offered :: "os \<Rightarrow> nat" where
  "offered h = length (filter (\<lambda>e. case e of SetSockOpt f TCP_NODELAY (Ok u) \<Rightarrow> True | _ \<Rightarrow> False) h)"

lemma answers_append [simp]:
  "accept_answers l (h @ h') = accept_answers l h @ accept_answers l h'" "accept_answers l [] = []"
  "accepted_fds l (h @ h') = accepted_fds l h @ accepted_fds l h'" "accepted_fds l [] = []"
  "closed_fds (h @ h') = closed_fds h @ closed_fds h'" "closed_fds [] = []"
  "offered (h @ h') = offered h + offered h'" "offered [] = 0"
  by (simp_all add: accept_answers_def accepted_fds_def closed_fds_def offered_def)

lemma answers_Cons [simp]:
  "accept_answers l (Accept4 l r # h) = r # accept_answers l h" "closed_fds (Accept4 l r # h) = closed_fds h"
  "accept_answers l (Close f # h) = accept_answers l h" "closed_fds (Close f # h) = f # closed_fds h"
  "accept_answers l (Log v m # h) = accept_answers l h" "closed_fds (Log v m # h) = closed_fds h"
  "accept_answers l (Poll fd ev t p # h) = accept_answers l h" "closed_fds (Poll fd ev t p # h) = closed_fds h"
  "accept_answers l (SetSockOpt fd c u # h) = accept_answers l h" "closed_fds (SetSockOpt fd c u # h) = closed_fds h"
  "accept_answers l (EventFdWrite fd u # h) = accept_answers l h" "closed_fds (EventFdWrite fd u # h) = closed_fds h"
  by (simp_all add: accept_answers_def closed_fds_def)

text \<open>
  Clients do not come for ever faster than they are taken: after \<open>N\<close> calls of \<^verbatim>\<open>accept4\<close> in a row that did not find the queue of
  the socket empty, the next one does.
\<close>

definition accept_streak :: "fd \<Rightarrow> os \<Rightarrow> nat" where
  "accept_streak l h = length (takeWhile (\<lambda>r. r \<noteq> Err EAGAIN) (rev (accept_answers l h)))"

definition arrivals_bounded :: "kernel \<Rightarrow> fd \<Rightarrow> nat \<Rightarrow> bool" where
  "arrivals_bounded K l N \<longleftrightarrow> (\<forall>h. N \<le> accept_streak l h \<longrightarrow> k_accept4 K h l = Err EAGAIN)"

text \<open>Whether \<^verbatim>\<open>poll\<close> reports the listening socket readable.\<close>

definition client_pending :: "kernel \<Rightarrow> fd \<Rightarrow> os \<Rightarrow> bool" where
  "client_pending K l h \<longleftrightarrow> (case k_poll K h l POLLIN 500 of Ok (n, revents) \<Rightarrow> n \<noteq> 0 \<and> revents AND POLLIN \<noteq> 0 | Err _ \<Rightarrow> False)"

section \<open>The effect of accepting\<close>

text \<open>
  The calls \<open>tr\<close> were added to the history; each accepted client is in a queue or was closed and never both; the queues only grow at the end
  and in the order of arrival (\<open>queue_grown\<close>), and nothing else in the workers changes; the two counters count the accepted and the closed clients, and
  the cursor the clients offered to a worker.
\<close>

definition queue_grown :: "fd list \<Rightarrow> Worker \<Rightarrow> Worker \<Rightarrow> bool" where
  "queue_grown fs wk wk' \<longleftrightarrow> (\<exists>q. wk' = wk\<lparr> wk_queue := wk_queue wk @ q \<rparr> \<and> subseq (map ac_fd q) fs)"

lemma queue_grown_intros [simp, intro]:
  "queue_grown fs wk wk" "queue_grown [ac_fd c] wk (wk\<lparr> wk_queue := wk_queue wk @ [c] \<rparr>)"
  unfolding queue_grown_def by (intro exI [of _ "[]"], simp) (intro exI [of _ "[c]"], simp)

lemma queue_grown_trans: "queue_grown fs wk wk' \<Longrightarrow> queue_grown gs wk' wk'' \<Longrightarrow> queue_grown (fs @ gs) wk wk''"
  unfolding queue_grown_def by (clarify, rule_tac x = "q @ qa" in exI) (simp add: list_emb_append_mono)

fun accept_effect :: "fd \<Rightarrow> dispatch \<Rightarrow> os \<Rightarrow> dispatch \<Rightarrow> bool" where
  "accept_effect l (ws, cursor, w) tr (ws', cursor', w') \<longleftrightarrow>
     wd_os w' = wd_os w @ tr \<and>
     mset (queued_fds ws') + mset (closed_fds tr) = mset (queued_fds ws) + mset (accepted_fds l tr) \<and>
     list_all2 (queue_grown (accepted_fds l tr)) ws ws' \<and>
     wd_metrics w' = (wd_metrics w)\<lparr> mt_accepted := mt_accepted (wd_metrics w) + of_nat (length (accepted_fds l tr)),
       mt_rejected := mt_rejected (wd_metrics w) + of_nat (length (closed_fds tr)) \<rparr> \<and>
     cursor' = cursor + of_nat (offered tr) \<and> wd_pool w' = wd_pool w"

lemma accept_effect_trans:
  assumes "accept_effect l s tr s'" "accept_effect l s' tr' s''"
  shows "accept_effect l s (tr @ tr') s''"
proof -
  obtain ws c w ws' c' w' ws'' c'' w'' where s: "s = (ws, c, w)" "s' = (ws', c', w')" "s'' = (ws'', c'', w'')"
    by (metis prod_cases3)
  have "list_all2 (queue_grown (accepted_fds l (tr @ tr'))) ws ws''"
    using assms s list_all2_trans [of "queue_grown (accepted_fds l tr)" "queue_grown (accepted_fds l tr')" _ ws ws' ws''] queue_grown_trans by auto
  moreover have "mset (queued_fds ws'') + mset (closed_fds (tr @ tr')) = mset (queued_fds ws) + mset (accepted_fds l (tr @ tr'))"
    using assms s by (simp add: algebra_simps)
  ultimately show ?thesis using assms s by (simp add: algebra_simps)
qed

lemma queued_update:
  assumes "j < length ws"
  shows "mset (queued_fds (ws[j := (ws ! j)\<lparr> wk_queue := wk_queue (ws ! j) @ [c] \<rparr>])) = add_mset (ac_fd c) (mset (queued_fds ws))"
proof -
  have "ws = take j ws @ ws ! j # drop (Suc j) ws" using assms by (rule id_take_nth_drop)
  then have "mset (queued_fds ws) = mset (queued_fds (take j ws @ ws ! j # drop (Suc j) ws))" by simp
  then show ?thesis using assms by (simp add: upd_conv_take_nth_drop queued_fds_def)
qed

lemma grown_update: "list_all2 (queue_grown [ac_fd c]) ws (ws[j := (ws ! j)\<lparr> wk_queue := wk_queue (ws ! j) @ [c] \<rparr>])"
  unfolding list_all2_conv_all_nth by (metis length_list_update nth_list_update_eq nth_list_update_neq queue_grown_intros)

text \<open>One client.\<close>

lemma dispatchClient_effect:
  assumes K: "eventfd_writable K" and ws: "ws \<noteq> []" "length ws < 2 ^ 64"
    and eq: "dispatchClient K c a (ws, cursor, w\<lparr> wd_os := wd_os w @ [Accept4 l (Ok (c, a))] \<rparr>) = s'"
  shows "\<exists>tr. accept_answers l tr = [Ok (c, a)] \<and> accept_effect l (ws, cursor, w) tr s'"
proof -
  let ?h = "wd_os w @ [Accept4 l (Ok (c, a))]" and ?j = "selectWorker ws cursor"
  let ?n = "SetSockOpt c TCP_NODELAY (k_setsockopt K ?h c TCP_NODELAY)" and ?a = "Accept4 l (Ok (c, a))"
  let ?wk = "ws ! ?j"
  have j: "?j < length ws" by (rule selectWorker_bound [OF ws])
  show ?thesis
  proof (cases "k_setsockopt K ?h c TCP_NODELAY")
    case (Err e)
    then show ?thesis using eq
      by (intro exI [of _ "[?a, ?n, Log Warn ''cannot configure client socket: %s'', Close c]"])
         (auto simp: dispatchClient_def setTcpNoDelay_def os_simps io_simps w_log_def w_close_def on_metrics_def metrics_defs Let_def accepted_fds_def offered_def list_all2_same)
  next
    case (Ok u)
    have nd: "setTcpNoDelay K c ?h = (Inr (), ?h @ [?n])" using Ok by (simp add: setTcpNoDelay_def os_simps io_simps)
    show ?thesis
    proof (cases "wk_running ?wk \<and> \<not> of_nat (length (wk_queue ?wk)) \<ge> queueLimit ?wk")
      case False
      then have "enqueue K c (peerAddress K a) (?wk, v) = (False, ?wk, v)" for v by (intro enqueue_refused) auto
      then show ?thesis using eq nd Ok
        by (intro exI [of _ "[?a, ?n, Close c]"])
           (auto simp: dispatchClient_def os_simps w_close_def on_metrics_def metrics_defs Let_def accepted_fds_def offered_def list_all2_same)
    next
      case True
      let ?r = "EventFdWrite (UniqueFd_get (wk_wakeFd ?wk)) (k_eventfd_write K (?h @ [?n]) (UniqueFd_get (wk_wakeFd ?wk)))"
      let ?c = "\<lparr> ac_fd = c, ac_address = peerAddress K a \<rparr>"
      have "enqueue K c (peerAddress K a) (?wk, v) = (True, ?wk\<lparr> wk_queue := wk_queue ?wk @ [?c] \<rparr>,
          v\<lparr> wd_os := wd_os v @ [EventFdWrite (wake_fd ?wk) (k_eventfd_write K (wd_os v) (wake_fd ?wk))] \<rparr>)" for v
        using enqueue_queued [of ?wk K c "peerAddress K a" v] True K by (auto simp: Let_def eventfd_writable_def)
      moreover have "list_all2 (queue_grown [c]) ws (ws[?j := ?wk\<lparr> wk_queue := wk_queue ?wk @ [?c] \<rparr>])" using grown_update [of ?c] by simp
      ultimately show ?thesis using eq nd j Ok
        by (intro exI [of _ "[?a, ?n, ?r]"])
           (auto simp: dispatchClient_def on_metrics_def metrics_defs Let_def accepted_fds_def offered_def queued_update)
    qed
  qed
qed

text \<open>One turn of the inner loop.\<close>

lemma acceptOne_effect:
  assumes K: "eventfd_writable K" and ws: "ws \<noteq> []" "length ws < 2 ^ 64"
  shows "acceptOne K l (ws, cursor, w) = Inr s' \<Longrightarrow>
      \<exists>tr r. accept_answers l tr = [r] \<and> r = k_accept4 K (wd_os w) l \<and> (r = Err EINTR \<or> (\<exists>x. r = Ok x)) \<and> accept_effect l (ws, cursor, w) tr s'"
    "acceptOne K l (ws, cursor, w) = Inl s' \<Longrightarrow>
      \<exists>tr e. accept_answers l tr = [Err e] \<and> e \<noteq> EINTR \<and> accept_effect l (ws, cursor, w) tr s'"
proof -
  let ?r = "k_accept4 K (wd_os w) l"
  assume eq: "acceptOne K l (ws, cursor, w) = Inr s'"
  show "\<exists>tr r. accept_answers l tr = [r] \<and> r = ?r \<and> (r = Err EINTR \<or> (\<exists>x. r = Ok x)) \<and> accept_effect l (ws, cursor, w) tr s'"
  proof (cases ?r)
    case (Err e)
    then show ?thesis using eq
      by (intro exI [of _ "[Accept4 l ?r]"]) (auto simp: acceptOne_def os_simps accepted_fds_def offered_def list_all2_same split: if_split_asm)
  next
    case (Ok x)
    then show ?thesis using eq dispatchClient_effect [OF K ws, of "fst x" "snd x" cursor w l s']
      by (auto simp: acceptOne_def os_simps split: prod.split_asm)
  qed
next
  let ?r = "k_accept4 K (wd_os w) l"
  assume eq: "acceptOne K l (ws, cursor, w) = Inl s'"
  then obtain e where e: "?r = Err e" "e \<noteq> EINTR" by (auto simp: acceptOne_def os_simps split: sysret.split_asm if_split_asm)
  then show "\<exists>tr e. accept_answers l tr = [Err e] \<and> e \<noteq> EINTR \<and> accept_effect l (ws, cursor, w) tr s'" using eq
    by (intro exI [of _ "Accept4 l ?r # (if e = EAGAIN \<or> e = EWOULDBLOCK then [] else [Log Warn ''accept4 failed: %s''])"])
       (auto simp: acceptOne_def os_simps w_log_def accepted_fds_def offered_def list_all2_same split: if_split_asm)
qed

lemma streak_grows: "accept_answers l tr = [r] \<Longrightarrow> r \<noteq> Err EAGAIN \<Longrightarrow> accept_streak l (h @ tr) = Suc (accept_streak l h)"
  by (simp add: accept_streak_def)

text \<open>The answers of a drained socket: clients and interruptions, then an error.\<close>

definition drained_by :: "(fd \<times> sockaddr_storage) sysret list \<Rightarrow> bool" where
  "drained_by rs \<longleftrightarrow> (\<exists>e. e \<noteq> EINTR \<and> rs \<noteq> [] \<and> last rs = Err e) \<and> (\<forall>r\<in>set (butlast rs). r = Err EINTR \<or> (\<exists>x. r = Ok x))"

lemma drained_by_intros:
  "e \<noteq> EINTR \<Longrightarrow> drained_by [Err e]"
  "r = Err EINTR \<or> (\<exists>x. r = Ok x) \<Longrightarrow> drained_by rs \<Longrightarrow> drained_by (r # rs)"
  by (auto simp: drained_by_def)

lemma acceptLoop_effect:
  assumes K: "eventfd_writable K" "arrivals_bounded K l N" and ws: "fst s \<noteq> []" "length (fst s) < 2 ^ 64"
  shows "\<exists>s' tr. acceptLoop K l s = Some s' \<and> accept_effect l s tr s' \<and> drained_by (accept_answers l tr)"
  using ws
proof (induction s rule: measure_induct_rule [where f = "\<lambda>s. N - accept_streak l (wd_os (snd (snd s)))"])
  case (less s)
  obtain ws cursor w where s: "s = (ws, cursor, w)" by (cases s)
  note one = acceptOne_effect [OF K(1), of ws l cursor w]
  have loop: "acceptLoop K l s = (case acceptOne K l s of Inl x \<Rightarrow> Some x | Inr s' \<Rightarrow> acceptLoop K l s')"
    unfolding acceptLoop_def by (rule forever.simps)
  show ?case
  proof (cases "acceptOne K l s")
    case (Inl x)
    then show ?thesis using one(2) [of x] less.prems s loop drained_by_intros(1) by auto
  next
    case (Inr s1)
    obtain tr r where r: "accept_answers l tr = [r]" "r = k_accept4 K (wd_os w) l" "r = Err EINTR \<or> (\<exists>x. r = Ok x)" "accept_effect l s tr s1"
      using one(1) [of s1] less.prems Inr s by auto
    then have "r \<noteq> Err EAGAIN" by auto
    then have "\<not> N \<le> accept_streak l (wd_os w)" using K(2) r(2) unfolding arrivals_bounded_def by metis
    moreover have "wd_os (snd (snd s1)) = wd_os w @ tr" "length (fst s1) = length ws"
      using r(4) s by (cases s1; auto dest: list_all2_lengthD)+
    ultimately have "\<exists>s' tr'. acceptLoop K l s1 = Some s' \<and> accept_effect l s1 tr' s' \<and> drained_by (accept_answers l tr')"
      using less.prems s streak_grows [OF r(1) \<open>r \<noteq> Err EAGAIN\<close>] by (intro less.IH) auto
    then show ?thesis using loop Inr r drained_by_intros(2) [OF r(3)] accept_effect_trans [OF r(4)]
      by (metis answers_append(1) append_Cons append_Nil sum.case(2))
  qed
qed

text \<open>The inner loop never looks at the flag: with clients arriving for ever it does not return.\<close>

lemma accept_flood_never_returns:
  assumes "\<And>h. \<exists>client address. k_accept4 K h l = Ok (client, address)"
  shows "acceptLoop K l st = None"
proof (rule ccontr)
  assume "acceptLoop K l st \<noteq> None"
  then obtain x where "forever (acceptOne K l) st = Some x" by (auto simp: acceptLoop_def)
  then show False
  proof (rule forever_rule [where I = "\<lambda>_. True" and R = "\<lambda>_ _. False"])
    fix s y assume "acceptOne K l s = Inl y"
    then show False using assms [of "wd_os (snd (snd s))"] by (auto simp: acceptOne_def w_accept4_def split: prod.split_asm)
  qed auto
qed

section \<open>Properties\<close>

text \<open>C20. A turn of the main loop drains the listening socket and loses no client. A failure of \<^verbatim>\<open>poll\<close> other than an interruption is thrown.
  Otherwise the turn returns, as long as clients do not arrive for ever faster than they are accepted. When a client is pending,
  \<^verbatim>\<open>accept4\<close> is called until it fails for a reason other than an interruption (interruptions are retried), and not at all when none is.
  Every client accepted on the way ends up in exactly one queue or is closed, not both; each worker gets its clients at the end of its
  queue in the order of arrival and is otherwise unchanged; the counters of accepted and of rejected connections grow by
  the numbers of clients accepted and closed; and the cursor advances once for every client offered to a worker.\<close>

theorem accept_round_complete:
  assumes "eventfd_writable K" "arrivals_bounded K l N" "ws \<noteq> []" "length ws < 2 ^ 64"
  shows "if \<exists>n. k_poll K (wd_os w) l POLLIN 500 = Err n \<and> n \<noteq> EINTR
    then \<exists>n. k_poll K (wd_os w) l POLLIN 500 = Err n \<and> mainIteration K l (ws, cursor, w) = Some (Inl (SystemError ''poll failed'' n))
    else \<exists>s' tr. mainIteration K l (ws, cursor, w) = Some (Inr s') \<and> accept_effect l (ws, cursor, w) tr s' \<and>
      (if client_pending K l (wd_os w) then drained_by (accept_answers l tr) else accept_answers l tr = [])"
proof -
  let ?r = "k_poll K (wd_os w) l POLLIN 500" and ?e = "Poll l POLLIN 500 (k_poll K (wd_os w) l POLLIN 500)"
  let ?w = "w\<lparr> wd_os := wd_os w @ [?e] \<rparr>"
  have wait: "accept_effect l (ws, cursor, w) [?e] (ws, cursor, ?w)" by (simp add: accepted_fds_def offered_def list_all2_same)
  obtain s' tr where loop: "acceptLoop K l (ws, cursor, ?w) = Some s'" "accept_effect l (ws, cursor, ?w) tr s'" "drained_by (accept_answers l tr)"
    using acceptLoop_effect [OF assms(1,2), of "(ws, cursor, ?w)"] assms(3,4) by auto
  note both = accept_effect_trans [OF wait loop(2)]
  show ?thesis
  proof (cases ?r)
    case (Err n)
    then show ?thesis using wait by (cases "n = EINTR") (auto simp: mainIteration_def waitListener_def os_simps client_pending_def Let_def)
  next
    case (Ok x)
    obtain n ev where x: "x = (n, ev)" by (cases x)
    show ?thesis
    proof (cases "n = 0 \<or> ev AND POLLIN = 0")
      case True
      then show ?thesis using Ok x wait by (auto simp: mainIteration_def waitListener_def os_simps client_pending_def Let_def)
    next
      case False
      then have "mainIteration K l (ws, cursor, w) = Some (Inr s')" using Ok x loop(1) by (simp add: mainIteration_def waitListener_def os_simps Let_def)
      moreover have "client_pending K l (wd_os w)" using Ok x False by (simp add: client_pending_def)
      ultimately show ?thesis using Ok both loop(3) by fastforce
    qed
  qed
qed

text \<open>Two clients arrive for every turn.\<close>

definition busy_kernel :: kernel where
  "busy_kernel = sample_kernel\<lparr> k_accept4 := \<lambda>h l. if 2 \<le> accept_streak l h then Err EAGAIN else Ok (next_fd h, sample_address) \<rparr>"

theorem accept_round_complete_witness:
  "\<exists>sv w s' tr. main_start busy_kernel sample_files [''fluxgate''] [] = (Serving sv, w) \<and>
     mainIteration busy_kernel (UniqueFd_get (sv_listenFd sv)) (sv_workers sv, 0, w) = Some (Inr s') \<and>
     length (queued_fds (fst s')) = 2 \<and> accept_effect (UniqueFd_get (sv_listenFd sv)) (sv_workers sv, 0, w) tr s' \<and>
     drained_by (accept_answers (UniqueFd_get (sv_listenFd sv)) tr)"
proof -
  have "case main_start busy_kernel sample_files [''fluxgate''] [] of
      (Serving sv, w) \<Rightarrow> length (sv_workers sv) = 2 \<and> client_pending busy_kernel (UniqueFd_get (sv_listenFd sv)) (wd_os w) \<and>
        (case mainIteration busy_kernel (UniqueFd_get (sv_listenFd sv)) (sv_workers sv, 0, w) of
           Some (Inr s) \<Rightarrow> length (queued_fds (fst s)) = 2 | _ \<Rightarrow> False)
    | _ \<Rightarrow> False" by code_simp
  then obtain sv w s where m: "main_start busy_kernel sample_files [''fluxgate''] [] = (Serving sv, w)" "length (sv_workers sv) = 2"
      "client_pending busy_kernel (UniqueFd_get (sv_listenFd sv)) (wd_os w)"
    and s: "mainIteration busy_kernel (UniqueFd_get (sv_listenFd sv)) (sv_workers sv, 0, w) = Some (Inr s)" "length (queued_fds (fst s)) = 2"
    by (auto split: prod.splits outcome.splits option.splits sum.splits)
  have K: "eventfd_writable busy_kernel" "arrivals_bounded busy_kernel l 2" for l
    by (simp_all add: eventfd_writable_def arrivals_bounded_def busy_kernel_def sample_kernel_def)
  let ?l = "UniqueFd_get (sv_listenFd sv)"
  have ready: "\<not> (\<exists>n. k_poll busy_kernel (wd_os w) ?l POLLIN 500 = Err n \<and> n \<noteq> EINTR)"
    using m(3) by (auto simp: client_pending_def)
  have ws: "sv_workers sv \<noteq> []" "length (sv_workers sv) < 2 ^ 64" using m(2) by auto
  from accept_round_complete [OF K ws, where l = ?l and cursor = 0 and w = w, unfolded if_not_P [OF ready] if_P [OF m(3)] s(1)]
  obtain tr where "accept_effect ?l (sv_workers sv, 0, w) tr s" "drained_by (accept_answers ?l tr)" by blast
  then show ?thesis using m(1) s by blast
qed

end
