(* ===== verification/Schedules.thy ===== *)
theory Schedules
  imports Prelude
begin

text \<open>
  Runs of threads, independent of what the threads do: what it means that a detailed step relation refines a coarser one,
  what a fair schedule is, and why a fair schedule reaches a goal when in every state some thread can bring it nearer.
  The two contracts are locales; theory \<open>Process\<close> provides them for the process of FluxGate.
\<close>

section \<open>Refinement of step relations\<close>

text \<open>Every step of the detailed relation is, seen through \<open>abs\<close>, a run of the coarse one (none, one or several steps).\<close>

locale step_refinement =
  fixes cstep :: "'c \<Rightarrow> 'c \<Rightarrow> bool" and astep :: "'a \<Rightarrow> 'a \<Rightarrow> bool" and abs :: "'c \<Rightarrow> 'a" and inv :: "'c \<Rightarrow> bool"
  assumes keeps: "inv x \<Longrightarrow> cstep x y \<Longrightarrow> inv y"
    and simulates: "inv x \<Longrightarrow> cstep x y \<Longrightarrow> astep\<^sup>*\<^sup>* (abs x) (abs y)"
begin

lemma run_simulates:
  assumes "cstep\<^sup>*\<^sup>* x y" "inv x"
  shows "astep\<^sup>*\<^sup>* (abs x) (abs y) \<and> inv y"
  using assms(1)
proof (induction rule: rtranclp_induct)
  case (step y z)
  then show ?case using keeps simulates rtranclp_trans [of astep "abs x" "abs y" "abs z"] by blast
qed (use assms(2) in simp)

lemma invariant_transfers:
  assumes "\<And>a b. astep a b \<Longrightarrow> I a \<Longrightarrow> I b" "cstep\<^sup>*\<^sup>* x y" "inv x" "I (abs x)"
  shows "I (abs y)"
  using conjunct1 [OF run_simulates [OF assms(2,3)]] assms(4) by (induction rule: rtranclp_induct) (auto intro: assms(1))

end

section \<open>Fair schedules\<close>

text \<open>
  A run of labelled steps. It may rest, and it may be finite (resting for ever); it is weakly fair: a thread that can move from
  some point on without interruption moves.
\<close>

definition enabled :: "('t \<Rightarrow> 's \<Rightarrow> 's \<Rightarrow> bool) \<Rightarrow> 't \<Rightarrow> 's \<Rightarrow> bool" where
  "enabled step a s \<longleftrightarrow> (\<exists>s'. step a s s')"

definition schedule :: "('t \<Rightarrow> 's \<Rightarrow> 's \<Rightarrow> bool) \<Rightarrow> (nat \<Rightarrow> 's) \<Rightarrow> bool" where
  "schedule step f \<longleftrightarrow> (\<forall>n. f (Suc n) = f n \<or> (\<exists>a. step a (f n) (f (Suc n))))"

definition fair :: "('t \<Rightarrow> 's \<Rightarrow> 's \<Rightarrow> bool) \<Rightarrow> (nat \<Rightarrow> 's) \<Rightarrow> bool" where
  "fair step f \<longleftrightarrow> (\<forall>a n. (\<forall>m\<ge>n. enabled step a (f m)) \<longrightarrow> (\<exists>m\<ge>n. step a (f m) (f (Suc m))))"

abbreviation any_step :: "('t \<Rightarrow> 's \<Rightarrow> 's \<Rightarrow> bool) \<Rightarrow> 's \<Rightarrow> 's \<Rightarrow> bool" where
  "any_step step s s' \<equiv> \<exists>a. step a s s'"

lemma schedule_run: "schedule step f \<Longrightarrow> (any_step step)\<^sup>*\<^sup>* (f n) (f (n + k))"
proof (induction k)
  case (Suc k)
  then have "f (Suc (n + k)) = f (n + k) \<or> any_step step (f (n + k)) (f (Suc (n + k)))" by (simp add: schedule_def)
  then show ?case using Suc by (auto intro: rtranclp.rtrancl_into_rtrancl)
qed simp

lemma schedule_invariant:
  assumes "schedule step f" "\<And>a s s'. step a s s' \<Longrightarrow> I s \<Longrightarrow> I s'" "I (f n)"
  shows "I (f (n + k))"
proof (induction k)
  case (Suc k)
  then show ?case using assms(1) [unfolded schedule_def, THEN spec, of "n + k"] assms(2) by auto
qed (use assms(3) in simp)

text \<open>A finite run is a schedule that rests at its end; when nobody can move there it is fair.\<close>

lemma run_schedule:
  assumes "(any_step step)\<^sup>*\<^sup>* s s'"
  shows "\<exists>f n. schedule step f \<and> f 0 = s \<and> (\<forall>m\<ge>n. f m = s')"
proof -
  obtain n where "(any_step step ^^ n) s s'" using assms by (auto simp: rtranclp_power)
  then obtain f where f: "f 0 = s" "f n = s'" "\<forall>i<n. any_step step (f i) (f (Suc i))" by (auto simp: relpowp_fun_conv)
  let ?g = "\<lambda>m. f (min m n)"
  have "?g (Suc i) = ?g i \<or> any_step step (?g i) (?g (Suc i))" for i using f(3) by (cases "i < n") (auto simp: min_def)
  then show ?thesis using f(1,2) by (intro exI [of _ ?g] exI [of _ n]) (auto simp: schedule_def min_def)
qed

lemma schedule_Cons:
  assumes "any_step step s (f 0)" "schedule step f"
  shows "schedule step (case_nat s f)"
  using assms by (auto simp: schedule_def split: nat.split)

lemma resting_fair:
  assumes "\<forall>m\<ge>n. f m = s" "\<And>a. \<not> enabled step a s"
  shows "fair step f"
  unfolding fair_def
proof (intro allI impI)
  fix a k assume "\<forall>m\<ge>k. enabled step a (f m)"
  then have "enabled step a (f (max n k))" by simp
  then show "\<exists>m\<ge>k. step a (f m) (f (Suc m))" using assms by simp
qed

text \<open>
  The rule for progress: \<open>rank\<close> counts what is still to be done; in every state before the goal the thread \<open>helpful\<close> can move and
  its moves lower the rank, and no thread raises it or makes another thread the helpful one without lowering it.
\<close>

locale helpful_thread =
  fixes step :: "'t \<Rightarrow> 's \<Rightarrow> 's \<Rightarrow> bool" and inv :: "'s \<Rightarrow> bool" and goal :: "'s \<Rightarrow> bool"
    and rank :: "'s \<Rightarrow> nat" and helpful :: "'s \<Rightarrow> 't"
  assumes inv_step: "inv s \<Longrightarrow> step a s s' \<Longrightarrow> inv s'"
    and rank_step: "inv s \<Longrightarrow> \<not> goal s \<Longrightarrow> step a s s' \<Longrightarrow> rank s' < rank s \<or> rank s' = rank s \<and> helpful s' = helpful s"
    and helps: "inv s \<Longrightarrow> \<not> goal s \<Longrightarrow> step (helpful s) s s' \<Longrightarrow> rank s' < rank s"
    and can_help: "inv s \<Longrightarrow> \<not> goal s \<Longrightarrow> enabled step (helpful s) s"
begin

lemma goal_reachable:
  assumes "inv s"
  shows "\<exists>s'. (any_step step)\<^sup>*\<^sup>* s s' \<and> goal s' \<and> inv s'"
  using assms
proof (induction "rank s" arbitrary: s rule: less_induct)
  case less
  show ?case
  proof (cases "goal s")
    case False
    then obtain s1 where s1: "step (helpful s) s s1" using can_help less.prems by (auto simp: enabled_def)
    then obtain s' where "(any_step step)\<^sup>*\<^sup>* s1 s'" "goal s'" "inv s'"
      using less.hyps [of s1] helps [OF less.prems False] inv_step [OF less.prems] by blast
    moreover have "any_step step s s1" using s1 by blast
    ultimately show ?thesis using converse_rtranclp_into_rtranclp [of "any_step step" s s1 s'] by blast
  qed (use less.prems in blast)
qed

lemma inv_later:
  assumes "schedule step f" "inv (f n)" "n \<le> m"
  shows "inv (f m)"
  using schedule_invariant [where I = inv and k = "m - n", OF assms(1) inv_step assms(2)] assms(3) by simp

lemma stays_or_sinks:
  assumes sch: "schedule step f" and inv: "inv (f n)" and no: "\<forall>m\<ge>n. \<not> goal (f m)"
  shows "rank (f (n + k)) < rank (f n) \<or> rank (f (n + k)) = rank (f n) \<and> helpful (f (n + k)) = helpful (f n)"
proof (induction k)
  case (Suc k)
  have "inv (f (n + k))" "\<not> goal (f (n + k))" using inv_later [OF sch inv] no by simp_all
  then have "rank (f (Suc (n + k))) < rank (f (n + k)) \<or>
      rank (f (Suc (n + k))) = rank (f (n + k)) \<and> helpful (f (Suc (n + k))) = helpful (f (n + k))"
    using sch [unfolded schedule_def, THEN spec, of "n + k"] rank_step by metis
  then show ?case using Suc by auto
qed simp

lemma sinks:
  assumes sch: "schedule step f" "fair step f" and inv: "inv (f n)" and no: "\<forall>m\<ge>n. \<not> goal (f m)"
  shows "\<exists>m\<ge>n. rank (f m) < rank (f n)"
proof (rule ccontr)
  assume "\<not> ?thesis"
  then have same: "rank (f m) = rank (f n) \<and> helpful (f m) = helpful (f n)" if "m \<ge> n" for m
    using stays_or_sinks [OF sch(1) inv no, of "m - n"] that by auto
  note i = inv_later [OF sch(1) inv]
  have "enabled step (helpful (f n)) (f m)" if "m \<ge> n" for m using can_help [OF i [OF that]] no same that by metis
  then obtain m where m: "m \<ge> n" "step (helpful (f n)) (f m) (f (Suc m))" using sch(2) unfolding fair_def by blast
  then have "rank (f (Suc m)) < rank (f m)" using helps [OF i [OF m(1)]] no same [OF m(1)] by metis
  then show False using same [of m] same [of "Suc m"] m(1) by simp
qed

lemma reaches_goal:
  assumes sch: "schedule step f" "fair step f" and inv: "inv (f n)"
  shows "\<exists>m\<ge>n. goal (f m)"
proof (rule ccontr)
  assume "\<not> ?thesis"
  then have no: "\<forall>m\<ge>n. \<not> goal (f m)" by blast
  have "\<exists>m\<ge>n. rank (f m) + k \<le> rank (f n)" for k
  proof (induction k)
    case (Suc k)
    then obtain m where m: "m \<ge> n" "rank (f m) + k \<le> rank (f n)" by blast
    obtain m' where "m' \<ge> m" "rank (f m') < rank (f m)" using sinks [OF sch inv_later [OF sch(1) inv m(1)]] no m(1) by auto
    then show ?case using m by (intro exI [of _ m']) auto
  qed (use order_refl in auto)
  from this [of "Suc (rank (f n))"] show False by auto
qed

end

end
