(* ===== verification/Process.thy ===== *)
theory Process
  imports SystemFlow AcceptRound Schedules
begin

text \<open>
  The process with all its threads in the order the code imposes on them: the accept loop and the shutdown sequence of
  \<^verbatim>\<open>main\<close>, the worker threads, the checker thread with its flag and timed wait, the statistics thread with its sleeps, and the signal
  handler. Each step belongs to a thread. The steps refine the interleaving of theory \<open>System\<close>, so all that is proved of its
  reachable states holds here; the order of stopping and joining gives what is true when \<^verbatim>\<open>main\<close> returns; and under a fair schedule it
  does return.
\<close>

section \<open>State\<close>

text \<open>
  The statistics thread: at the condition of its loop, in the loop of 100 ms sleeps with the counter \<^verbatim>\<open>elapsed\<close>, or at the test after it.
  \<open>NoThread\<close> when the interval is zero and the thread was never created.
\<close>

datatype stats_pc = NoThread | LoopTest | Sleeping int | AfterSleep | Ended

text \<open>
  The main thread: in its loop, then at each statement of the shutdown sequence (with the index of the two loops over the workers),
  and after its end: \<open>Returned\<close>, or \<open>Thrown\<close> when \<^verbatim>\<open>poll\<close> failed and the exception leaves the loop.
\<close>

datatype shutdown_pc = AcceptLoop | StopChecker | StopWorkers nat | JoinChecker | JoinWorkers nat | JoinStats | Returned | Thrown

text \<open>\<open>pr_final\<close> is the world that \<^verbatim>\<open>main\<close> leaves behind.\<close>

record Process =
  pr_system :: System
  pr_thread :: hc_thread
  pr_statsInterval :: int
  pr_stats :: stats_pc
  pr_statsRunning :: bool
  pr_pc :: shutdown_pc
  pr_final :: "world option"

abbreviation pr_workers :: "Process \<Rightarrow> Worker list" where
  "pr_workers p \<equiv> sy_workers (pr_system p)"

abbreviation pr_pcs :: "Process \<Rightarrow> thread_pc list" where
  "pr_pcs p \<equiv> sy_pcs (pr_system p)"

text \<open>When \<^verbatim>\<open>main\<close> reaches its loop the checker and, with a positive interval, the statistics thread were started.\<close>

definition process_of :: "Server \<Rightarrow> world \<Rightarrow> Process" where
  "process_of sv w = \<lparr> pr_system = system_of sv w, pr_thread = \<lparr> ht_pc = Probing, ht_running = True, ht_stop = StopIdle \<rparr>,
     pr_statsInterval = cfg_statsIntervalSeconds (sv_config sv),
     pr_stats = if cfg_statsIntervalSeconds (sv_config sv) > 0 then LoopTest else NoThread,
     pr_statsRunning = True, pr_pc = AcceptLoop, pr_final = None \<rparr>"

lemma checker_started: "hc_start hc_thread_init (pr_thread (process_of sv w))"
  using hc_start.first [of hc_thread_init] by (simp add: process_of_def hc_thread_init_def)

section \<open>Steps\<close>

datatype thread = MainThread | WorkerThread nat | CheckerThread | StatsThread | Handler

text \<open>The checker thread: a round is one step, the rest of \<^verbatim>\<open>run\<close> as in theory \<open>HealthChecker\<close>.\<close>

inductive checker_step :: "kernel \<Rightarrow> Process \<Rightarrow> Process \<Rightarrow> bool" for K where
  round: "ht_pc (pr_thread p) = Probing \<Longrightarrow> hc_run (pr_thread p) t \<Longrightarrow>
    checkOnce K (sy_checker (pr_system p), wd_pool (sy_world (pr_system p)), wd_os (sy_world (pr_system p))) = Some (hc, bp, h) \<Longrightarrow>
    checker_step K p (p\<lparr> pr_thread := t, pr_system := (pr_system p)\<lparr> sy_checker := hc,
      sy_world := (sy_world (pr_system p))\<lparr> wd_pool := bp, wd_os := h \<rparr> \<rparr> \<rparr>)"
| wait: "ht_pc (pr_thread p) \<noteq> Probing \<Longrightarrow> hc_run (pr_thread p) t \<Longrightarrow> checker_step K p (p\<lparr> pr_thread := t \<rparr>)"

text \<open>The statistics thread.\<close>

inductive stats_step :: "Process \<Rightarrow> Process \<Rightarrow> bool" where
  enter: "pr_stats p = LoopTest \<Longrightarrow> pr_statsRunning p \<Longrightarrow> stats_step p (p\<lparr> pr_stats := Sleeping 0 \<rparr>)"
| leave: "pr_stats p = LoopTest \<Longrightarrow> \<not> pr_statsRunning p \<Longrightarrow> stats_step p (p\<lparr> pr_stats := Ended \<rparr>)"
| sleep: "pr_stats p = Sleeping elapsed \<Longrightarrow> elapsed < pr_statsInterval p * 10 \<Longrightarrow> pr_statsRunning p \<Longrightarrow>
    stats_step p (p\<lparr> pr_stats := Sleeping (elapsed + 1) \<rparr>)"
| slept: "pr_stats p = Sleeping elapsed \<Longrightarrow> \<not> (elapsed < pr_statsInterval p * 10 \<and> pr_statsRunning p) \<Longrightarrow>
    stats_step p (p\<lparr> pr_stats := AfterSleep \<rparr>)"
| break: "pr_stats p = AfterSleep \<Longrightarrow> \<not> pr_statsRunning p \<Longrightarrow> stats_step p (p\<lparr> pr_stats := Ended \<rparr>)"
| report: "pr_stats p = AfterSleep \<Longrightarrow> pr_statsRunning p \<Longrightarrow>
    stats_step p (p\<lparr> pr_stats := LoopTest, pr_system := (pr_system p)\<lparr> sy_world := statsReport (sy_world (pr_system p)) \<rparr> \<rparr>)"

text \<open>
  The main thread: its loop, then \<^verbatim>\<open>healthChecker.stop()\<close> (a store and a notification), the stop of every worker, \<^verbatim>\<open>healthChecker.join()\<close>, the
  join of every worker, the flag of the statistics thread and its join, and the end of \<^verbatim>\<open>main\<close>. A join waits until the thread has ended.
\<close>

inductive main_step :: "kernel \<Rightarrow> Process \<Rightarrow> Process \<Rightarrow> bool" for K where
  loop: "pr_pc p = AcceptLoop \<Longrightarrow> accept_step K (pr_system p) sy \<Longrightarrow>
    main_step K p (p\<lparr> pr_system := sy, pr_pc := if sy_main sy = Stopping then StopChecker else AcceptLoop \<rparr>)"
| poll_failed: "pr_pc p = AcceptLoop \<Longrightarrow> sy_main (pr_system p) = Polling \<Longrightarrow> \<not> sy_stopRequested (pr_system p) \<Longrightarrow>
    waitListener K (UniqueFd_get (sy_listenFd (pr_system p))) (sy_world (pr_system p)) = (Inl e, w) \<Longrightarrow>
    main_step K p (p\<lparr> pr_pc := Thrown, pr_final := Some w \<rparr>)"
| stop_checker: "pr_pc p = StopChecker \<Longrightarrow> hc_stop (pr_thread p) t \<Longrightarrow>
    main_step K p (p\<lparr> pr_thread := t, pr_pc := if ht_stop t = StopDone then StopWorkers 0 else StopChecker \<rparr>)"
| stop_worker: "pr_pc p = StopWorkers j \<Longrightarrow> j < length (pr_workers p) \<Longrightarrow>
    Worker_stop K (pr_workers p ! j, sy_world (pr_system p)) = (wk, w) \<Longrightarrow>
    main_step K p (p\<lparr> pr_system := set_worker j wk (pr_pcs p ! j) w (pr_system p), pr_pc := StopWorkers (Suc j) \<rparr>)"
| workers_stopped: "pr_pc p = StopWorkers j \<Longrightarrow> \<not> j < length (pr_workers p) \<Longrightarrow> main_step K p (p\<lparr> pr_pc := JoinChecker \<rparr>)"
| join_checker: "pr_pc p = JoinChecker \<Longrightarrow> hc_joined (pr_thread p) \<Longrightarrow> main_step K p (p\<lparr> pr_pc := JoinWorkers 0 \<rparr>)"
| join_worker: "pr_pc p = JoinWorkers j \<Longrightarrow> j < length (pr_workers p) \<Longrightarrow> Worker_joined (pr_pcs p ! j) \<Longrightarrow>
    main_step K p (p\<lparr> pr_pc := JoinWorkers (Suc j) \<rparr>)"
| workers_joined: "pr_pc p = JoinWorkers j \<Longrightarrow> \<not> j < length (pr_workers p) \<Longrightarrow>
    main_step K p (p\<lparr> pr_statsRunning := False, pr_pc := JoinStats \<rparr>)"
| return: "pr_pc p = JoinStats \<Longrightarrow> pr_stats p \<in> {NoThread, Ended} \<Longrightarrow>
    main_step K p (p\<lparr> pr_pc := Returned,
      pr_final := Some (main_exit K (sy_listenFd (pr_system p)) (pr_workers p) (sy_world (pr_system p))) \<rparr>)"

text \<open>
  Any thread may move until \<^verbatim>\<open>main\<close> has ended. After \<open>Thrown\<close> nothing is followed any more: with a running statistics thread
  \<^verbatim>\<open>std::terminate\<close> ends the process, since a joinable \<^verbatim>\<open>std::thread\<close> is destroyed.
\<close>

inductive process_step :: "kernel \<Rightarrow> thread \<Rightarrow> Process \<Rightarrow> Process \<Rightarrow> bool" for K where
  main: "main_step K p p' \<Longrightarrow> process_step K MainThread p p'"
| worker: "pr_pc p \<notin> {Returned, Thrown} \<Longrightarrow> j < length (pr_workers p) \<Longrightarrow>
    worker_thread K (pr_pcs p ! j, pr_workers p ! j, sy_world (pr_system p)) (pc, wk, w) \<Longrightarrow>
    process_step K (WorkerThread j) p (p\<lparr> pr_system := set_worker j wk pc w (pr_system p) \<rparr>)"
| checker: "pr_pc p \<notin> {Returned, Thrown} \<Longrightarrow> checker_step K p p' \<Longrightarrow> process_step K CheckerThread p p'"
| stats: "pr_pc p \<notin> {Returned, Thrown} \<Longrightarrow> stats_step p p' \<Longrightarrow> process_step K StatsThread p p'"
| signal: "pr_pc p \<notin> {Returned, Thrown} \<Longrightarrow> process_step K Handler p (p\<lparr> pr_system := signalHandler (pr_system p) \<rparr>)"

inductive_cases main_threadE: "process_step K MainThread p p'"
inductive_cases worker_moveE: "process_step K (WorkerThread j) p p'"
inductive_cases checker_threadE: "process_step K CheckerThread p p'"
inductive_cases stats_threadE: "process_step K StatsThread p p'"

section \<open>The process refines the interleaving\<close>

lemma set_worker_sel [simp]:
  "sy_main (set_worker j wk pc w sy) = sy_main sy" "sy_stopRequested (set_worker j wk pc w sy) = sy_stopRequested sy"
  "sy_listenFd (set_worker j wk pc w sy) = sy_listenFd sy" "sy_workers (set_worker j wk pc w sy) = (sy_workers sy)[j := wk]"
  "sy_pcs (set_worker j wk pc w sy) = (sy_pcs sy)[j := pc]" "sy_world (set_worker j wk pc w sy) = w"
  by (simp_all add: set_worker_def)

text \<open>The main thread of the system is past its loop when the sequence has begun.\<close>

definition past_loop :: "Process \<Rightarrow> bool" where
  "past_loop p \<longleftrightarrow> pr_pc p \<notin> {AcceptLoop, Thrown} \<longrightarrow> sy_main (pr_system p) = Stopping"

lemma past_loop_step: "past_loop p \<Longrightarrow> process_step K a p p' \<Longrightarrow> past_loop p'"
  by (auto simp: past_loop_def signalHandler_def split: if_splits elim!: process_step.cases main_step.cases checker_step.cases stats_step.cases)

lemma main_step_simulates:
  assumes "main_step K p p'" "past_loop p"
  shows "(system_step K)\<^sup>*\<^sup>* (pr_system p) (pr_system p')"
  using assms(1)
proof cases
  case (loop sy)
  then show ?thesis using system_step.main by auto
next
  case (stop_worker j wk w)
  then have "sy_main (pr_system p) = Stopping" using assms(2) by (simp add: past_loop_def)
  from system_step.stop [OF this stop_worker(3,4)] show ?thesis using stop_worker(1) by simp
qed simp_all

lemma process_step_simulates:
  assumes "process_step K a p p'" "past_loop p"
  shows "(system_step K)\<^sup>*\<^sup>* (pr_system p) (pr_system p')"
  using assms(1)
proof cases
  case main
  then show ?thesis using main_step_simulates assms(2) by blast
next
  case (worker j pc wk w)
  then show ?thesis using system_step.worker [OF worker(4,5)] by simp
next
  case checker
  from checker(3) show ?thesis by cases (use system_step.check in auto)
next
  case stats
  from stats(3) show ?thesis by cases (use system_step.report in auto)
next
  case signal
  then show ?thesis using r_into_rtranclp [of "system_step K", OF system_step.signal] by simp
qed

interpretation process: step_refinement "any_step (process_step K)" "system_step K" pr_system past_loop for K
  by unfold_locales (auto intro: past_loop_step process_step_simulates)

text \<open>So what holds of the reachable states of the system (descriptors, counts, streams, interest lists) holds of the states of the process.\<close>

lemma process_reaches: "(any_step (process_step K))\<^sup>*\<^sup>* (process_of sv w) p \<Longrightarrow> (system_step K)\<^sup>*\<^sup>* (system_of sv w) (pr_system p)"
  using process.run_simulates [of K "process_of sv w" p] by (simp add: past_loop_def process_of_def)

section \<open>The invariant of the shutdown sequence\<close>

text \<open>The first \<open>k\<close> workers have their flag down; the first \<open>k\<close> worker threads have ended.\<close>

definition flags_down :: "nat \<Rightarrow> System \<Rightarrow> bool" where
  "flags_down k sy \<longleftrightarrow> (\<forall>j<k. \<not> wk_running (sy_workers sy ! j))"

definition ended :: "nat \<Rightarrow> System \<Rightarrow> bool" where
  "ended k sy \<longleftrightarrow> (\<forall>j<k. sy_pcs sy ! j = Stopped)"

text \<open>What holds at each point of the sequence.\<close>

fun sequence_ok :: "kernel \<Rightarrow> shutdown_pc \<Rightarrow> Process \<Rightarrow> bool" where
  "sequence_ok K AcceptLoop p = (sy_main (pr_system p) \<noteq> Stopping \<and> ht_stop (pr_thread p) = StopIdle)"
| "sequence_ok K StopChecker p = (ht_stop (pr_thread p) \<noteq> StopDone \<and>
     (ht_stop (pr_thread p) = StopStored \<longrightarrow> \<not> ht_running (pr_thread p)))"
| "sequence_ok K (StopWorkers j) p = (\<not> ht_running (pr_thread p) \<and> j \<le> length (pr_workers p) \<and> flags_down j (pr_system p))"
| "sequence_ok K JoinChecker p = (\<not> ht_running (pr_thread p) \<and> flags_down (length (pr_workers p)) (pr_system p))"
| "sequence_ok K (JoinWorkers j) p = (ht_pc (pr_thread p) = Exited \<and> flags_down (length (pr_workers p)) (pr_system p) \<and>
     j \<le> length (pr_workers p) \<and> ended j (pr_system p))"
| "sequence_ok K JoinStats p = (ht_pc (pr_thread p) = Exited \<and> ended (length (pr_workers p)) (pr_system p) \<and> \<not> pr_statsRunning p)"
| "sequence_ok K Returned p = (ht_pc (pr_thread p) = Exited \<and> ended (length (pr_workers p)) (pr_system p) \<and> pr_stats p \<in> {NoThread, Ended} \<and>
     pr_final p = Some (main_exit K (sy_listenFd (pr_system p)) (pr_workers p) (sy_world (pr_system p))))"
| "sequence_ok K Thrown p = True"

definition process_inv :: "kernel \<Rightarrow> Process \<Rightarrow> bool" where
  "process_inv K p \<longleftrightarrow> system_inv (pr_system p) \<and> past_loop p \<and> ht_pc (pr_thread p) \<noteq> NotStarted \<and> sequence_ok K (pr_pc p) p"

lemma process_inv_parts:
  assumes "process_inv K p"
  shows "system_inv (pr_system p)" "past_loop p" "ht_pc (pr_thread p) \<noteq> NotStarted" "sequence_ok K (pr_pc p) p"
    "length (pr_pcs p) = length (pr_workers p)"
  using assms by (auto simp: process_inv_def system_inv_def dest: list_all2_lengthD)

lemma flags_down_update: "flags_down k sy \<Longrightarrow> (wk_running wk \<Longrightarrow> wk_running (sy_workers sy ! j)) \<Longrightarrow> flags_down k (set_worker j wk pc w sy)"
  by (cases "j < length (sy_workers sy)") (auto simp: flags_down_def nth_list_update list_update_beyond)

lemma ended_update: "ended k sy \<Longrightarrow> (sy_pcs sy ! j = Stopped \<Longrightarrow> pc = Stopped) \<Longrightarrow> ended k (set_worker j wk pc w sy)"
  by (cases "j < length (sy_pcs sy)") (auto simp: ended_def nth_list_update list_update_beyond)

lemma worker_thread_alive: "worker_thread K (pc, wk, w) (pc', wk', w') \<Longrightarrow> pc \<noteq> Stopped"
  by (auto elim: worker_threadE)

lemma system_worker_running:
  assumes "system_kernel K B" "system_inv sy" "j < length (sy_workers sy)"
    "worker_thread K (sy_pcs sy ! j, sy_workers sy ! j, sy_world sy) (pc, wk, w)"
  shows "wk_running wk = wk_running (sy_workers sy ! j)"
proof -
  have "fleet_ok [UniqueFd_get (sy_listenFd sy)] (sy_workers sy) (sy_world sy)" using assms(2) by (simp add: system_inv_def)
  then obtain X base m0 where "worker_ok X base m0 0 (sy_workers sy ! j) [] (sy_world sy)" using fleet_worker [OF _ assms(3)] by blast
  moreover have "kernel_ok K B" using assms(1) by (simp add: system_kernel_def)
  ultimately show ?thesis using worker_thread_ok [OF _ _ assms(4)] unfolding same_worker_def by blast
qed

text \<open>The threads leave alone what the sequence has established.\<close>

lemma sequence_worker:
  assumes "system_kernel K B" "process_inv K p" "j < length (pr_workers p)" "pr_pc p \<notin> {Returned, Thrown}"
    "worker_thread K (pr_pcs p ! j, pr_workers p ! j, sy_world (pr_system p)) (pc, wk, w)"
  shows "sequence_ok K (pr_pc p) (p\<lparr> pr_system := set_worker j wk pc w (pr_system p) \<rparr>)"
proof -
  have q: "flags_down k (pr_system p) \<Longrightarrow> flags_down k (set_worker j wk pc w (pr_system p))" for k
    using flags_down_update system_worker_running [OF assms(1) process_inv_parts(1) [OF assms(2)] assms(3,5)] by blast
  have e: "ended k (pr_system p) \<Longrightarrow> ended k (set_worker j wk pc w (pr_system p))" for k
    using ended_update worker_thread_alive [OF assms(5)] by blast
  show ?thesis using process_inv_parts(4) [OF assms(2)] assms(4) q e by (cases "pr_pc p") auto
qed

lemma sequence_checker:
  assumes "checker_step K p p'" "sequence_ok K (pr_pc p) p" "pr_pc p \<notin> {Returned, Thrown}" "ht_pc (pr_thread p) \<noteq> NotStarted"
  shows "sequence_ok K (pr_pc p') p' \<and> ht_pc (pr_thread p') \<noteq> NotStarted"
proof -
  have t: "ht_running (pr_thread p') = ht_running (pr_thread p)" "ht_stop (pr_thread p') = ht_stop (pr_thread p)"
    "ht_pc (pr_thread p) \<noteq> Exited" "ht_pc (pr_thread p') \<noteq> NotStarted"
    using assms(1) by (auto elim!: checker_step.cases hc_runE)
  have o: "pr_pc p' = pr_pc p" "pr_workers p' = pr_workers p" "pr_pcs p' = pr_pcs p" "sy_main (pr_system p') = sy_main (pr_system p)"
    using assms(1) by (auto elim!: checker_step.cases)
  show ?thesis using assms(2,3) t o by (cases "pr_pc p") (auto simp: flags_down_def ended_def)
qed

lemma sequence_stats:
  assumes "stats_step p p'" "sequence_ok K (pr_pc p) p" "pr_pc p \<notin> {Returned, Thrown}"
  shows "sequence_ok K (pr_pc p') p' \<and> pr_thread p' = pr_thread p"
proof -
  have o: "pr_pc p' = pr_pc p" "pr_workers p' = pr_workers p" "pr_pcs p' = pr_pcs p" "sy_main (pr_system p') = sy_main (pr_system p)"
    "pr_thread p' = pr_thread p" "pr_statsRunning p' = pr_statsRunning p"
    using assms(1) by (auto elim!: stats_step.cases)
  show ?thesis using assms(2,3) o by (cases "pr_pc p") (auto simp: flags_down_def ended_def)
qed

lemma sequence_main:
  assumes "main_step K p p'" "sequence_ok K (pr_pc p) p" "ht_pc (pr_thread p) \<noteq> NotStarted"
  shows "sequence_ok K (pr_pc p') p'"
  using assms(1)
proof cases
  case (stop_worker j wk w)
  then have q: "flags_down j (pr_system p)" using assms(2) by simp
  have "\<not> wk_running wk" using Worker_stop_ok(2) [OF stop_worker(4)] .
  then have "flags_down (Suc j) (set_worker j wk (pr_pcs p ! j) w (pr_system p))"
    using q stop_worker(3) by (auto simp: flags_down_def less_Suc_eq nth_list_update)
  then show ?thesis using assms(2) stop_worker by simp
next
  case (join_worker j)
  then show ?thesis using assms(2) by (auto simp: ended_def less_Suc_eq)
next
  case (stop_checker t)
  then show ?thesis using assms(2) by (auto simp: flags_down_def elim: hc_stopE)
qed (use assms(2,3) in \<open>auto simp: ended_def hc_joined_def\<close>)

lemma process_inv_step:
  assumes K: "system_kernel K B" and inv: "process_inv K p" and step: "process_step K a p p'"
  shows "process_inv K p'"
proof -
  have "system_inv (pr_system p')"
    using system_inv_reachable [OF process_step_simulates [OF step process_inv_parts(2) [OF inv]] K process_inv_parts(1) [OF inv]] .
  moreover have "sequence_ok K (pr_pc p') p' \<and> ht_pc (pr_thread p') \<noteq> NotStarted"
    using step
  proof cases
    case main
    then have "ht_pc (pr_thread p') \<noteq> NotStarted" using process_inv_parts(3) [OF inv] by (auto elim!: main_step.cases hc_stopE split: if_splits)
    then show ?thesis using sequence_main main process_inv_parts(3,4) [OF inv] by blast
  next
    case (worker j pc wk w)
    then show ?thesis using sequence_worker [OF K inv worker(4,3,5)] process_inv_parts(3) [OF inv] by simp
  next
    case checker
    then show ?thesis using sequence_checker process_inv_parts [OF inv] by blast
  next
    case stats
    then show ?thesis using sequence_stats [OF stats(3)] process_inv_parts [OF inv] by simp
  next
    case signal
    then show ?thesis using process_inv_parts(3,4) [OF inv] by (cases "pr_pc p") (auto simp: signalHandler_def flags_down_def ended_def)
  qed
  ultimately show ?thesis using past_loop_step [OF process_inv_parts(2) [OF inv] step] by (simp add: process_inv_def)
qed

lemma process_inv_reachable:
  "(any_step (process_step K))\<^sup>*\<^sup>* p p' \<Longrightarrow> system_kernel K B \<Longrightarrow> process_inv K p \<Longrightarrow> process_inv K p'"
  by (induction rule: rtranclp_induct) (auto intro: process_inv_step)

lemma process_inv_start:
  assumes "system_kernel K B" "main_start K files argv [] = (Serving sv, w)"
  shows "process_inv K (process_of sv w)"
proof -
  have "fresh_fds K" using assms(1) by (simp add: system_kernel_def kernel_ok_def)
  then have "startup_ok (Serving sv) w" using main_start_spec [OF _ _ _ assms(2)] by simp
  then have "system_inv (system_of sv w)" by (simp add: startup_ok_def)
  then show ?thesis by (simp add: process_inv_def process_of_def past_loop_def system_of_def)
qed

section \<open>The end of \<^verbatim>\<open>main\<close>\<close>

lemma ended_idle:
  assumes "system_inv sy" "ended (length (sy_workers sy)) sy"
  shows "\<forall>wk\<in>set (sy_workers sy). wk_sessions wk = []"
proof
  fix wk assume "wk \<in> set (sy_workers sy)"
  then obtain j where "j < length (sy_workers sy)" "wk = sy_workers sy ! j" by (auto simp: in_set_conv_nth)
  then show "wk_sessions wk = []" using assms by (simp add: system_inv_def list_all2_conv_all_nth phase_ok_def ended_def)
qed

lemma main_exit_releases:
  assumes inv: "system_inv sy" "ended (length (sy_workers sy)) sy" and w: "w = main_exit K (sy_listenFd sy) (sy_workers sy) (sy_world sy)"
  shows "open_fds (wd_os w) = set (queued_fds (sy_workers sy))" "closes_ok (wd_os w)"
    "i < length (bp_backends (wd_pool w)) \<Longrightarrow> active (wd_pool w) i = 0" "mt_active (wd_metrics w) = 0"
proof -
  let ?w = "destroyWorkers K (sy_workers sy) (w_log Info ''FluxGate stopped; final metrics %s'' (sy_world sy))"
  have f: "fleet_inv [UniqueFd_get (sy_listenFd sy)] (sy_workers sy) (sy_world sy)" using inv by (simp add: system_inv_def fleet_ok_def)
  have d: "fleet_inv (UniqueFd_get (sy_listenFd sy) # queued_fds (sy_workers sy)) [] ?w"
    using destroyWorkers_inv [OF fleet_neutral [OF f neutral_calm [OF calm_prims(1)]] ended_idle [OF inv]] by simp
  have "w = ?w\<lparr> wd_os := UniqueFd_destroy (sy_listenFd sy) (wd_os ?w) \<rparr>" using w by (simp add: main_exit_def Let_def)
  then show "open_fds (wd_os w) = set (queued_fds (sy_workers sy))" "closes_ok (wd_os w)"
    "i < length (bp_backends (wd_pool w)) \<Longrightarrow> active (wd_pool w) i = 0" "mt_active (wd_metrics w) = 0"
    using destroy_listener [OF d] fleet_inv_Nil(3,4) [OF d] by simp_all
qed

text \<open>The history only grows, and a worker keeps its epoll descriptor.\<close>

lemma worker_op_extends:
  assumes K: "kernel_ok K B" and inv: "system_inv sy" "system_flow sy" and j: "j < length (sy_workers sy)"
    and op: "worker_op K (sy_workers sy ! j, sy_world sy) (wk, w)"
  shows "extends (wd_os (sy_world sy)) (wd_os w)"
proof -
  obtain X base m0 where ok: "worker_ok X base m0 0 (sy_workers sy ! j) [] (sy_world sy)"
    using inv(1) fleet_worker [OF _ j] unfolding system_inv_def by blast
  have "worker_flow (sy_workers sy ! j) (wd_os (sy_world sy))" using inv(2) j by (simp add: system_flow_def fleet_flow_def)
  then have "flow_inv X (wd_os (sy_world sy)) (sy_workers sy ! j) [] [] (wd_os (sy_world sy))" by (rule flow_inv_start) simp
  from flow_invD(2) [OF worker_op_flow(1) [OF K ok this op]] show ?thesis by (auto simp: frame_def extends_def)
qed

lemma frame_extends: "frame C F h h' \<Longrightarrow> extends h h'"
  by (auto simp: frame_def extends_def)

lemma acceptOne_extends:
  assumes "eventfd_writable K" "ws \<noteq> []" "length ws < 2 ^ 64"
    and "acceptOne K l (ws, cursor, w) = Inl (ws', cursor', w') \<or> acceptOne K l (ws, cursor, w) = Inr (ws', cursor', w')"
  shows "extends (wd_os w) (wd_os w')"
  using assms(4) acceptOne_effect [OF assms(1-3), of l cursor w "(ws', cursor', w')"] by (auto simp: extends_def)

lemma system_step_extends:
  assumes K: "system_kernel K B" and inv: "system_inv sy" "system_flow sy" and step: "system_step K sy sy'"
  shows "extends (wd_os (sy_world sy)) (wd_os (sy_world sy'))"
proof -
  have ko: "kernel_ok K B" "eventfd_writable K" "fresh_fds K" using K by (simp_all add: system_kernel_def kernel_ok_def)
  have ok: "fleet_ok [UniqueFd_get (sy_listenFd sy)] (sy_workers sy) (sy_world sy)" "sy_workers sy \<noteq> []" using inv(1) by (simp_all add: system_inv_def)
  from step show ?thesis
  proof (cases rule: system_step_kinds)
    case (worker j wk pc w)
    then show ?thesis using worker_op_extends [OF ko(1) inv worker(1,2)] by simp
  next
    case (accept cursor)
    then show ?thesis using acceptOne_extends [OF ko(2) ok(2) fleet_length [OF ok(1)]] by blast
  next
    case other
    then show ?thesis using frame_extends [OF other(2) [OF ko(3)]] by simp
  qed
qed

text \<open>
  A worker whose \<^verbatim>\<open>epoll_wait\<close> failed in the past, for a reason other than an interruption. A worker thread that ends without it was told to
  end, so nothing is put into its queue any more.
\<close>

definition wait_failed :: "kernel \<Rightarrow> os \<Rightarrow> Worker \<Rightarrow> bool" where
  "wait_failed K h wk \<longleftrightarrow> (\<exists>h0 n t e. k_epoll_wait K h0 (epoll_fd wk) n t = Err e \<and> e \<noteq> EINTR \<and>
     extends (h0 @ [EpollWait (epoll_fd wk) n t (Err e)]) h)"

definition idle_ok :: "kernel \<Rightarrow> os \<Rightarrow> Worker \<Rightarrow> thread_pc \<Rightarrow> bool" where
  "idle_ok K h wk pc \<longleftrightarrow> (pc \<in> {Leaving, Stopped} \<longrightarrow> \<not> wk_running wk \<or> wait_failed K h wk) \<and>
     (pc = Stopped \<longrightarrow> wk_queue wk = [] \<or> wait_failed K h wk)"

lemma wait_failed_same: "wait_failed K h wk \<Longrightarrow> extends h h' \<Longrightarrow> wk_epollFd wk' = wk_epollFd wk \<Longrightarrow> wait_failed K h' wk'"
  unfolding wait_failed_def using extends_trans by metis

lemma wait_failed_queue [simp]: "wait_failed K h (wk\<lparr> wk_queue := q \<rparr>) = wait_failed K h wk"
  by (simp add: wait_failed_def)

lemma wait_failed_event:
  assumes "wait_failed K h wk"
  shows "\<exists>n t e. EpollWait (epoll_fd wk) n t (Err e) \<in> set h \<and> e \<noteq> EINTR" "\<not> epoll_reliable K"
proof -
  obtain h0 n t e where f: "k_epoll_wait K h0 (epoll_fd wk) n t = Err e" "e \<noteq> EINTR" "extends (h0 @ [EpollWait (epoll_fd wk) n t (Err e)]) h"
    using assms unfolding wait_failed_def by blast
  have "EpollWait (epoll_fd wk) n t (Err e) \<in> set h" by (rule extends_mem [OF f(3)]) simp
  then show "\<exists>n t e. EpollWait (epoll_fd wk) n t (Err e) \<in> set h \<and> e \<noteq> EINTR" using f(2) by blast
  show "\<not> epoll_reliable K" using f(1,2) unfolding epoll_reliable_def by blast
qed

lemma idle_ok_mono: "idle_ok K h wk pc \<Longrightarrow> extends h h' \<Longrightarrow> idle_ok K h' wk pc"
  unfolding idle_ok_def using wait_failed_same by blast

lemma runIteration_failed:
  assumes "runIteration K (t, wk, w) = Some (False, t', wk', w')"
  shows "wait_failed K (wd_os w') wk'"
proof (cases "k_epoll_wait K (wd_os w) (epoll_fd wk) (cfg_maxEvents (wk_config wk)) 1000")
  case (Ok events)
  then show ?thesis using assms by (auto simp: runIteration_def w_epoll_wait_def Let_def bind_eq_Some_conv case_prod_beta)
next
  case (Err e)
  let ?e = "EpollWait (epoll_fd wk) (cfg_maxEvents (wk_config wk)) 1000 (Err e)"
  have "e \<noteq> EINTR" "wk' = wk" "wd_os w' = (wd_os w @ [?e]) @ [Log Error ''worker=%zu epoll_wait failed: %s'']"
    using assms Err by (auto simp: runIteration_def w_epoll_wait_def w_log_def fg_log_def split: if_split_asm)
  then show ?thesis unfolding wait_failed_def using Err extends_intros(2) by metis
qed

lemma idle_ok_worker:
  assumes K: "kernel_ok K B" and ok: "worker_ok X base m0 n wk [] w" and idle: "idle_ok K (wd_os w) wk pc"
    and step: "worker_thread K (pc, wk, w) (pc', wk', w')" and ext: "extends (wd_os w) (wd_os w')"
  shows "idle_ok K (wd_os w') wk' pc'"
  using step
proof (rule worker_threadE)
  fix t t' assume "runIteration K (t, wk, w) = Some (False, t', wk', w')" "pc' = Leaving"
  then show ?thesis using runIteration_failed by (simp add: idle_ok_def)
next
  assume ex: "pc' = Stopped" "pc = Leaving" "runExit K (wk, w) = (wk', w')"
  have "fresh_fds K" using K(1) by (simp add: kernel_ok_def)
  then have "wk_queue wk' = []" "wk_running wk' = wk_running wk" "wk_epollFd wk' = wk_epollFd wk"
    using runExit_ok [OF _ ok ex(3)] by (auto simp: same_worker_def)
  then show ?thesis using idle ex(1,2) wait_failed_same [OF _ ext] by (auto simp: idle_ok_def)
qed (simp_all add: idle_ok_def)

lemma idle_ok_handed_over:
  assumes "list_all2 (idle_ok K h) ws pcs" "handed_over ws ws'"
  shows "list_all2 (idle_ok K h) ws' pcs"
  using assms by (auto simp: handed_over_def list_all2_conv_all_nth nth_list_update idle_ok_def split: if_splits)

abbreviation system_idle :: "kernel \<Rightarrow> System \<Rightarrow> bool" where
  "system_idle K sy \<equiv> list_all2 (idle_ok K (wd_os (sy_world sy))) (sy_workers sy) (sy_pcs sy)"

lemma idle_ok_step:
  assumes K: "system_kernel K B" and inv: "system_inv sy" "system_flow sy" "system_idle K sy" and step: "system_step K sy sy'"
  shows "system_idle K sy'"
proof -
  note ext = system_step_extends [OF K inv(1,2) step]
  let ?h = "wd_os (sy_world sy')"
  have idle: "list_all2 (idle_ok K ?h) (sy_workers sy) (sy_pcs sy)" by (rule list_all2_mono [OF inv(3)]) (rule idle_ok_mono [OF _ ext])
  have ko: "kernel_ok K B" "eventfd_writable K" "fresh_fds K" using K(1) by (simp_all add: system_kernel_def kernel_ok_def)
  from step show ?thesis
  proof cases
    case (worker j pc wk w)
    obtain X base m0 where ok: "worker_ok X base m0 0 (sy_workers sy ! j) [] (sy_world sy)"
      using inv(1) fleet_worker [OF _ worker(2)] unfolding system_inv_def by blast
    have "idle_ok K (wd_os (sy_world sy)) (sy_workers sy ! j) (sy_pcs sy ! j)" using inv(3) worker(2) by (simp add: list_all2_conv_all_nth)
    then have "idle_ok K ?h wk pc" using idle_ok_worker [OF ko(1) ok _ worker(3)] ext worker(1) by simp
    then show ?thesis using idle worker(1) by (simp add: list_all2_update_cong)
  next
    case main
    then show ?thesis
    proof cases
      case (accept ws cursor w)
      then show ?thesis using idle_ok_handed_over [OF idle] acceptOne_system(3) [OF inv(1) accept(3) ko(2,3)] by simp
    next
      case (drained ws cursor w)
      then show ?thesis using idle_ok_handed_over [OF idle] acceptOne_system(3) [OF inv(1) drained(3) ko(2,3)] by simp
    qed (use idle in simp_all)
  next
    case (stop j wk w)
    have "idle_ok K ?h (sy_workers sy ! j) (sy_pcs sy ! j)" using idle stop(3) by (simp add: list_all2_conv_all_nth)
    then have "idle_ok K ?h wk (sy_pcs sy ! j)" using Worker_stop_ok(2,4,5) [OF stop(4)] by (simp add: idle_ok_def wait_failed_def)
    then have "list_all2 (idle_ok K ?h) ((sy_workers sy)[j := wk]) ((sy_pcs sy)[j := sy_pcs sy ! j])" by (rule list_all2_update_cong [OF idle])
    then show ?thesis using stop(1) by simp
  qed (use idle in \<open>simp_all add: signalHandler_def\<close>)
qed

lemma idle_ok_reachable:
  assumes "(system_step K)\<^sup>*\<^sup>* sy sy'" "system_kernel K B" "system_inv sy" "system_flow sy" "system_idle K sy"
  shows "system_idle K sy'"
  using assms(1)
proof (induction rule: rtranclp_induct)
  case (step y z)
  then show ?case
    using idle_ok_step [OF assms(2) system_inv_reachable [OF step.hyps(1) assms(2,3)] system_flow_reachable [OF step.hyps(1) assms(2-4)]] by blast
qed (use assms(5) in simp)

lemma ended_queues:
  assumes "system_idle K sy" "ended (length (sy_workers sy)) sy" "wk \<in> set (sy_workers sy)" "wk_queue wk \<noteq> []"
  shows "wait_failed K (wd_os (sy_world sy)) wk"
  using assms by (auto simp: list_all2_conv_all_nth idle_ok_def ended_def in_set_conv_nth)

lemma main_exit_extends: "extends (wd_os w) (wd_os (main_exit K l ws w))"
proof -
  have u: "extends h (UniqueFd_destroy u h)" for u h
    by (simp add: UniqueFd_destroy_def UniqueFd_reset_def sys_close_def Let_def extends_def)
  have "extends (wd_os w) (wd_os (Worker_destroy K wk w))" for wk w
  proof -
    obtain wk' w' where st: "Worker_stop K (wk, w) = (wk', w')" by fastforce
    then have "extends (wd_os w) (wd_os w')" by (auto simp: Worker_stop_def os_simps split: if_split_asm)
    then show ?thesis using extends_trans [OF extends_trans [OF _ u] u] st by (simp add: Worker_destroy_def)
  qed
  then have "extends (wd_os w) (wd_os (destroyWorkers K ws w))" for w by (induction ws arbitrary: w) (auto intro: extends_trans)
  from extends_trans [OF extends_trans [OF _ this] u] show ?thesis by (simp add: main_exit_def Let_def w_log_def fg_log_def)
qed

section \<open>The process returns\<close>

text \<open>What is left to do at most, once \<^verbatim>\<open>main\<close> is about to see the flag: its own statements and the steps of the threads it waits for.\<close>

fun thread_rank :: "thread_pc \<Rightarrow> nat" where
  "thread_rank Starting = 3"
| "thread_rank (Looping t) = 2"
| "thread_rank Leaving = 1"
| "thread_rank Stopped = 0"

fun stats_rank :: "stats_pc \<Rightarrow> nat" where
  "stats_rank (Sleeping t) = 2"
| "stats_rank LoopTest = 1"
| "stats_rank AfterSleep = 1"
| "stats_rank pc = 0"

fun main_rank :: "nat \<Rightarrow> stop_pc \<Rightarrow> shutdown_pc \<Rightarrow> nat" where
  "main_rank n st AcceptLoop = 2 * n + 8"
| "main_rank n st StopChecker = 2 * n + (if st = StopIdle then 7 else 6)"
| "main_rank n st (StopWorkers j) = n + (n - j) + 5"
| "main_rank n st JoinChecker = n + 4"
| "main_rank n st (JoinWorkers j) = (n - j) + 3"
| "main_rank n st JoinStats = 2"
| "main_rank n st pc = 0"

definition workers_rank :: "System \<Rightarrow> nat" where
  "workers_rank sy = sum_list (map thread_rank (sy_pcs sy))"

definition checker_rank :: "hc_thread \<Rightarrow> nat" where
  "checker_rank t = (if ht_running t then 5 else hc_rank (ht_pc t))"

definition shutdown_rank :: "Process \<Rightarrow> nat" where
  "shutdown_rank p = main_rank (length (pr_workers p)) (ht_stop (pr_thread p)) (pr_pc p) + workers_rank (pr_system p) +
     checker_rank (pr_thread p) + (if pr_statsRunning p then 3 else stats_rank (pr_stats p))"

text \<open>The thread everyone waits for.\<close>

fun awaited :: "shutdown_pc \<Rightarrow> Process \<Rightarrow> thread" where
  "awaited JoinChecker p = (if ht_pc (pr_thread p) = Exited then MainThread else CheckerThread)"
| "awaited (JoinWorkers j) p = (if j < length (pr_workers p) \<and> pr_pcs p ! j \<noteq> Stopped then WorkerThread j else MainThread)"
| "awaited JoinStats p = (if pr_stats p \<in> {NoThread, Ended} then MainThread else StatsThread)"
| "awaited pc p = MainThread"

text \<open>The flag is up and \<^verbatim>\<open>main\<close> is outside its inner loop.\<close>

definition leaving :: "Process \<Rightarrow> bool" where
  "leaving p \<longleftrightarrow> sy_stopRequested (pr_system p) \<and> sy_main (pr_system p) \<noteq> Accepting \<and> pr_pc p \<noteq> Thrown"

definition live_inv :: "kernel \<Rightarrow> nat \<Rightarrow> Process \<Rightarrow> bool" where
  "live_inv K B p \<longleftrightarrow> system_kernel K B \<and> poll_bounded K B \<and> process_inv K p \<and> leaving p"

lemma leaving_step:
  assumes "leaving p" "process_step K a p p'"
  shows "leaving p'"
  using assms(2)
proof cases
  case main
  from main(2) show ?thesis using assms(1) by cases (auto simp: leaving_def elim: accept_step.cases)
next
  case checker
  from checker(3) show ?thesis using assms(1) by cases (auto simp: leaving_def)
next
  case stats
  from stats(3) show ?thesis using assms(1) by cases (auto simp: leaving_def)
qed (use assms(1) in \<open>auto simp: leaving_def signalHandler_def\<close>)

lemma live_inv_step: "live_inv K B p \<Longrightarrow> process_step K a p p' \<Longrightarrow> live_inv K B p'"
  unfolding live_inv_def using process_inv_step leaving_step by blast

lemma workers_rank_update:
  assumes "j < length (sy_pcs sy)"
  shows "workers_rank (set_worker j wk pc w sy) + thread_rank (sy_pcs sy ! j) = workers_rank sy + thread_rank pc"
proof -
  have le: "thread_rank (sy_pcs sy ! j) \<le> sum_list (map thread_rank (sy_pcs sy))" using assms elem_le_sum_list [of j "map thread_rank (sy_pcs sy)"] by simp
  then show ?thesis using assms by (simp add: workers_rank_def map_update sum_list_update)
qed

lemma worker_thread_rank:
  "worker_thread K (pc, wk, w) (pc', wk', w') \<Longrightarrow>
    thread_rank pc' < thread_rank pc \<or> thread_rank pc' = thread_rank pc \<and> wk_running wk \<and> pc' \<noteq> Stopped"
  by (auto elim!: worker_threadE)

text \<open>Each thread in turn: what its steps do to the rank and to the awaited thread.\<close>

lemma main_rank_step:
  assumes "main_step K p p'" "process_inv K p" "leaving p"
  shows "shutdown_rank p' < shutdown_rank p"
  using assms(1)
proof cases
  case (loop sy)
  from loop(3) have "sy_main sy = Stopping \<and> sy_workers sy = sy_workers (pr_system p) \<and> sy_pcs sy = sy_pcs (pr_system p)"
    using assms(3) by cases (auto simp: leaving_def)
  then show ?thesis using loop process_inv_parts(4) [OF assms(2)] by (simp add: shutdown_rank_def workers_rank_def)
next
  case (poll_failed e w)
  then show ?thesis using assms(3) by (simp add: leaving_def)
next
  case (stop_checker t)
  from stop_checker(3) show ?thesis using stop_checker(1,2) process_inv_parts(4) [OF assms(2)]
  proof cases
    case store
    have "hc_rank pc \<le> 5" for pc by (cases pc) simp_all
    then have "checker_rank t \<le> checker_rank (pr_thread p)" using store by (simp add: checker_rank_def)
    then show ?thesis using stop_checker(1,2) store by (simp add: shutdown_rank_def)
  next
    case notify
    then have "checker_rank t \<le> checker_rank (pr_thread p)" by (simp add: checker_rank_def)
    then show ?thesis using stop_checker(1,2) notify by (simp add: shutdown_rank_def)
  qed
next
  case (stop_worker j wk w)
  then show ?thesis using workers_rank_update [of j "pr_system p" wk "pr_pcs p ! j" w] process_inv_parts(5) [OF assms(2)]
    by (simp add: shutdown_rank_def) arith
next
  case (workers_joined j)
  have "stats_rank pc < 4" for pc by (cases pc) simp_all
  then show ?thesis using workers_joined by (auto simp: shutdown_rank_def)
qed (auto simp: shutdown_rank_def)

lemma worker_rank_step:
  assumes "process_step K (WorkerThread j) p p'" "process_inv K p"
  shows "shutdown_rank p' < shutdown_rank p \<or>
    shutdown_rank p' = shutdown_rank p \<and> awaited (pr_pc p') p' = awaited (pr_pc p) p \<and> wk_running (pr_workers p ! j)"
  using assms(1)
proof (rule worker_moveE)
  fix pc wk w
  assume p': "p' = p\<lparr> pr_system := set_worker j wk pc w (pr_system p) \<rparr>" and j: "j < length (pr_workers p)"
    and step: "worker_thread K (pr_pcs p ! j, pr_workers p ! j, sy_world (pr_system p)) (pc, wk, w)"
  have len: "length (pr_pcs p) = length (pr_workers p)" using process_inv_parts(5) [OF assms(2)] .
  note r = workers_rank_update [of j "pr_system p" wk pc w, unfolded len, OF j]
  show ?thesis
  proof (cases "thread_rank pc < thread_rank (pr_pcs p ! j)")
    case True
    then show ?thesis using r p' by (simp add: shutdown_rank_def)
  next
    case False
    then have same: "thread_rank pc = thread_rank (pr_pcs p ! j)" "wk_running (pr_workers p ! j)" "pc \<noteq> Stopped" "pr_pcs p ! j \<noteq> Stopped"
      using worker_thread_rank [OF step] worker_thread_alive [OF step] by auto
    then have "awaited (pr_pc p') p' = awaited (pr_pc p) p" using p' j len by (cases "pr_pc p") (auto simp: nth_list_update)
    then show ?thesis using r p' same by (simp add: shutdown_rank_def)
  qed
qed

lemma checker_rank_step:
  assumes "process_step K CheckerThread p p'" "process_inv K p"
  shows "shutdown_rank p' < shutdown_rank p \<or>
    shutdown_rank p' = shutdown_rank p \<and> awaited (pr_pc p') p' = awaited (pr_pc p) p \<and> ht_running (pr_thread p)"
  using assms(1)
proof (rule checker_threadE)
  assume c: "checker_step K p p'"
  have run: "hc_run (pr_thread p) (pr_thread p')" using c by cases auto
  have o: "pr_pc p' = pr_pc p" "pr_workers p' = pr_workers p" "pr_pcs p' = pr_pcs p" "pr_stats p' = pr_stats p"
    "pr_statsRunning p' = pr_statsRunning p" "ht_stop (pr_thread p') = ht_stop (pr_thread p)" "ht_running (pr_thread p') = ht_running (pr_thread p)"
    using c by (auto elim!: checker_step.cases hc_runE)
  show ?thesis
  proof (cases "ht_running (pr_thread p)")
    case False
    then show ?thesis using hc_run_rank [OF run] o by (simp add: shutdown_rank_def workers_rank_def checker_rank_def)
  next
    case True
    then have "awaited (pr_pc p') p' = awaited (pr_pc p) p" using process_inv_parts(4) [OF assms(2)] o by (cases "pr_pc p") auto
    then show ?thesis using True o by (simp add: shutdown_rank_def workers_rank_def checker_rank_def)
  qed
qed

lemma stats_rank_step:
  assumes "process_step K StatsThread p p'" "process_inv K p"
  shows "shutdown_rank p' < shutdown_rank p \<or>
    shutdown_rank p' = shutdown_rank p \<and> awaited (pr_pc p') p' = awaited (pr_pc p) p \<and> pr_statsRunning p"
  using assms(1)
proof (rule stats_threadE)
  assume c: "stats_step p p'"
  have o: "pr_pc p' = pr_pc p" "pr_workers p' = pr_workers p" "pr_pcs p' = pr_pcs p" "pr_thread p' = pr_thread p"
    "pr_statsRunning p' = pr_statsRunning p" using c by (auto elim!: stats_step.cases)
  show ?thesis
  proof (cases "pr_statsRunning p")
    case False
    then have "stats_rank (pr_stats p') < stats_rank (pr_stats p)" using c by (auto elim!: stats_step.cases)
    then show ?thesis using False o by (simp add: shutdown_rank_def workers_rank_def)
  next
    case True
    then have "awaited (pr_pc p') p' = awaited (pr_pc p) p" using process_inv_parts(4) [OF assms(2)] o by (cases "pr_pc p") auto
    then show ?thesis using True o by (simp add: shutdown_rank_def workers_rank_def)
  qed
qed

lemma shutdown_rank_step:
  assumes "live_inv K B p" "process_step K a p p'"
  shows "shutdown_rank p' < shutdown_rank p \<or> shutdown_rank p' = shutdown_rank p \<and> awaited (pr_pc p') p' = awaited (pr_pc p) p"
proof -
  have inv: "process_inv K p" "leaving p" using assms(1) by (simp_all add: live_inv_def)
  show ?thesis
  proof (cases a)
    case MainThread
    then show ?thesis using assms(2) main_rank_step [OF _ inv] by (auto elim: main_threadE)
  next
    case (WorkerThread j)
    then show ?thesis using assms(2) worker_rank_step inv(1) by blast
  next
    case CheckerThread
    then show ?thesis using assms(2) checker_rank_step inv(1) by blast
  next
    case StatsThread
    then show ?thesis using assms(2) stats_rank_step inv(1) by blast
  next
    case Handler
    then have "p' = p\<lparr> pr_system := signalHandler (pr_system p) \<rparr>" using assms(2) by (auto elim: process_step.cases)
    then show ?thesis by (cases "pr_pc p") (simp_all add: shutdown_rank_def workers_rank_def signalHandler_def)
  qed
qed

text \<open>The awaited thread always gets on.\<close>

lemma awaited_rank_step:
  assumes inv: "live_inv K B p" and step: "process_step K (awaited (pr_pc p) p) p p'"
  shows "shutdown_rank p' < shutdown_rank p"
proof -
  have i: "process_inv K p" "leaving p" using inv by (simp_all add: live_inv_def)
  note seq = process_inv_parts(4) [OF i(1)]
  show ?thesis
  proof (cases "awaited (pr_pc p) p")
    case MainThread
    then show ?thesis using step main_rank_step [OF _ i] by (auto elim: main_threadE)
  next
    case (WorkerThread j)
    then have "\<not> wk_running (pr_workers p ! j)" using seq by (cases "pr_pc p") (auto simp: flags_down_def split: if_splits)
    then show ?thesis using step WorkerThread worker_rank_step [OF _ i(1)] by metis
  next
    case CheckerThread
    then have "\<not> ht_running (pr_thread p)" using seq by (cases "pr_pc p") (auto split: if_splits)
    then show ?thesis using step CheckerThread checker_rank_step [OF _ i(1)] by metis
  next
    case StatsThread
    then have "\<not> pr_statsRunning p" using seq by (cases "pr_pc p") (auto split: if_splits)
    then show ?thesis using step StatsThread stats_rank_step [OF _ i(1)] by metis
  next
    case Handler
    then show ?thesis by (cases "pr_pc p") (auto split: if_splits)
  qed
qed

lemma checker_can_move:
  assumes "poll_bounded K B" "ht_pc (pr_thread p) \<noteq> Exited" "ht_pc (pr_thread p) \<noteq> NotStarted"
  shows "\<exists>p'. checker_step K p p'"
proof -
  obtain t where t: "hc_run (pr_thread p) t" using hc_run_progress [OF assms(2,3)] by blast
  obtain hc bp h where "checkOnce K (sy_checker (pr_system p), wd_pool (sy_world (pr_system p)), wd_os (sy_world (pr_system p))) = Some (hc, bp, h)"
    using checkOnce_returns [OF assms(1)] by blast
  then show ?thesis using checker_step.round [OF _ t] checker_step.wait [OF _ t] by blast
qed

lemma worker_can_move:
  assumes "pc \<noteq> Stopped" "\<not> wk_running wk"
  shows "\<exists>y. worker_thread K (pc, wk, w) y"
proof (cases pc)
  case Starting
  then show ?thesis using worker_thread.enter by (metis surj_pair)
next
  case (Looping t)
  then show ?thesis using worker_thread.leave assms(2) by blast
next
  case Leaving
  then show ?thesis using worker_thread.cleanup by (metis surj_pair)
qed (use assms(1) in simp)

lemma stats_can_move: "pr_stats p \<notin> {NoThread, Ended} \<Longrightarrow> \<not> pr_statsRunning p \<Longrightarrow> \<exists>p'. stats_step p p'"
  by (cases "pr_stats p") (auto intro: stats_step.intros)

lemma main_can_move:
  assumes inv: "process_inv K p" "leaving p" and pc: "awaited (pr_pc p) p = MainThread" "pr_pc p \<noteq> Returned"
  shows "\<exists>p'. main_step K p p'"
proof -
  note seq = process_inv_parts(4) [OF inv(1)]
  show ?thesis
  proof (cases "pr_pc p")
    case AcceptLoop
    then have "sy_main (pr_system p) = Polling" using seq inv(2) by (cases "sy_main (pr_system p)") (auto simp: leaving_def)
    then show ?thesis using main_step.loop [OF AcceptLoop accept_step.shutdown] inv(2) by (auto simp: leaving_def)
  next
    case StopChecker
    then have "\<exists>t. hc_stop (pr_thread p) t" using seq by (cases "ht_stop (pr_thread p)") (auto intro: hc_stop.intros)
    then show ?thesis using main_step.stop_checker [OF StopChecker] by blast
  next
    case (StopWorkers j)
    then show ?thesis using main_step.stop_worker [OF StopWorkers] main_step.workers_stopped [OF StopWorkers] by (metis surj_pair)
  next
    case JoinChecker
    then show ?thesis using pc(1) main_step.join_checker [OF JoinChecker] by (auto simp: hc_joined_def split: if_splits)
  next
    case (JoinWorkers j)
    then show ?thesis using pc(1) main_step.join_worker [OF JoinWorkers] main_step.workers_joined [OF JoinWorkers] by (auto split: if_splits)
  next
    case JoinStats
    then show ?thesis using pc(1) main_step.return [OF JoinStats] by (auto split: if_splits)
  qed (use pc(2) inv(2) in \<open>auto simp: leaving_def\<close>)
qed

lemma awaited_can_move:
  assumes inv: "live_inv K B p" and pc: "pr_pc p \<noteq> Returned"
  shows "enabled (process_step K) (awaited (pr_pc p) p) p"
proof -
  have i: "process_inv K p" "leaving p" and poll: "poll_bounded K B" using inv by (simp_all add: live_inv_def)
  note seq = process_inv_parts(3,4) [OF i(1)]
  have alive: "pr_pc p \<notin> {Returned, Thrown}" using pc i(2) by (simp add: leaving_def)
  show ?thesis
  proof (cases "awaited (pr_pc p) p")
    case MainThread
    then show ?thesis using main_can_move [OF i MainThread pc] process_step.main by (auto simp: enabled_def)
  next
    case (WorkerThread j)
    then have "j < length (pr_workers p)" "pr_pcs p ! j \<noteq> Stopped" "\<not> wk_running (pr_workers p ! j)"
      using seq(2) by (cases "pr_pc p"; auto simp: flags_down_def split: if_splits)+
    then show ?thesis using worker_can_move process_step.worker [OF alive] WorkerThread unfolding enabled_def by (metis surj_pair)
  next
    case CheckerThread
    then have "ht_pc (pr_thread p) \<noteq> Exited" by (cases "pr_pc p") (auto split: if_splits)
    then show ?thesis using checker_can_move [OF poll _ seq(1)] process_step.checker [OF alive] CheckerThread unfolding enabled_def by metis
  next
    case StatsThread
    then have "pr_stats p \<notin> {NoThread, Ended}" "\<not> pr_statsRunning p" using seq(2) by (cases "pr_pc p"; auto split: if_splits)+
    then show ?thesis using stats_can_move process_step.stats [OF alive] StatsThread unfolding enabled_def by metis
  next
    case Handler
    then show ?thesis by (cases "pr_pc p") (auto split: if_splits)
  qed
qed

interpretation shutdown: helpful_thread "process_step K" "live_inv K B" "\<lambda>p. pr_pc p = Returned" shutdown_rank "\<lambda>p. awaited (pr_pc p) p" for K B
  by unfold_locales (blast intro: live_inv_step | (drule (1) shutdown_rank_step, assumption) | erule (1) awaited_rank_step | erule (1) awaited_can_move)+

lemma flagged_step:
  assumes "sy_stopRequested (pr_system p) \<and> pr_pc p \<noteq> Thrown" "process_step K a p p'"
  shows "sy_stopRequested (pr_system p') \<and> pr_pc p' \<noteq> Thrown"
  using assms(2)
proof cases
  case main
  from main(2) show ?thesis using assms(1) by cases (auto elim: accept_step.cases)
next
  case checker
  from checker(3) show ?thesis using assms(1) by cases auto
next
  case stats
  from stats(3) show ?thesis using assms(1) by cases auto
qed (use assms(1) in \<open>auto simp: signalHandler_def\<close>)

lemma returned_rests: "pr_pc p = Returned \<Longrightarrow> \<not> enabled (process_step K) a p"
  by (auto simp: enabled_def elim!: process_step.cases main_step.cases)

section \<open>A sample run\<close>

text \<open>A server that gets a signal at once and runs to its end.\<close>

lemma sample_shutdown:
  "\<exists>sv w p. main_start sample_kernel sample_files [''fluxgate''] [] = (Serving sv, w) \<and>
     (any_step (process_step sample_kernel))\<^sup>*\<^sup>* ((process_of sv w)\<lparr> pr_system := signalHandler (system_of sv w) \<rparr>) p \<and>
     pr_pc p = Returned \<and> process_inv sample_kernel p"
proof -
  obtain sv w where m: "main_start sample_kernel sample_files [''fluxgate''] [] = (Serving sv, w)" using sample_serves by blast
  let ?p = "(process_of sv w)\<lparr> pr_system := signalHandler (system_of sv w) \<rparr>"
  have step: "process_step sample_kernel Handler (process_of sv w) ?p"
    using process_step.signal [of "process_of sv w" sample_kernel] by (simp add: process_of_def)
  have "process_inv sample_kernel ?p" using process_inv_step [OF sample_system_kernel process_inv_start [OF sample_system_kernel m] step] .
  moreover have "leaving ?p" by (simp add: leaving_def process_of_def signalHandler_def system_of_def)
  ultimately have "live_inv sample_kernel 0 ?p" using sample_system_kernel sample_poll_bounded by (simp add: live_inv_def)
  from shutdown.goal_reachable [OF this] m show ?thesis unfolding live_inv_def by blast
qed

lemma sample_first_signal: "any_step (process_step K) (process_of sv w) ((process_of sv w)\<lparr> pr_system := signalHandler (system_of sv w) \<rparr>)"
  using process_step.signal [of "process_of sv w" K] by (auto simp: process_of_def)

section \<open>Properties\<close>

text \<open>C8. When \<^verbatim>\<open>main\<close> returns, everything has ended and everything was given back: every worker thread, the checker thread and the
  statistics thread have ended; no descriptor was closed twice; every connection count and the session gauge are zero; and the
  only descriptors still open are those of clients left in the queues. Whenever a worker has clients left in its queue, an \<^verbatim>\<open>epoll_wait\<close> on
  that worker's own epoll descriptor had failed for a reason other than an interruption; so none is left open when the only
  failures of \<^verbatim>\<open>epoll_wait\<close> are interruptions.\<close>

theorem process_exit_clean:
  assumes "system_kernel K B" "main_start K files argv [] = (Serving sv, w)"
    "(any_step (process_step K))\<^sup>*\<^sup>* (process_of sv w) p" "pr_pc p = Returned"
  shows "\<exists>w'. pr_final p = Some w' \<and> list_all (\<lambda>pc. pc = Stopped) (pr_pcs p) \<and> ht_pc (pr_thread p) = Exited \<and> pr_stats p \<in> {NoThread, Ended} \<and>
    open_fds (wd_os w') = set (queued_fds (pr_workers p)) \<and> closes_ok (wd_os w') \<and>
    (\<forall>i<length (bp_backends (wd_pool w')). active (wd_pool w') i = 0) \<and> mt_active (wd_metrics w') = 0 \<and>
    (\<forall>wk\<in>set (pr_workers p). wk_queue wk \<noteq> [] \<longrightarrow> (\<exists>n t e. EpollWait (epoll_fd wk) n t (Err e) \<in> set (wd_os w') \<and> e \<noteq> EINTR)) \<and>
    (epoll_reliable K \<longrightarrow> open_fds (wd_os w') = {})"
proof -
  have i0: "process_inv K (process_of sv w)" using process_inv_start [OF assms(1,2)] .
  have inv: "process_inv K p" using process_inv_reachable [OF assms(3,1) i0] .
  note seq = process_inv_parts [OF inv, unfolded assms(4), simplified]
  let ?w = "main_exit K (sy_listenFd (pr_system p)) (pr_workers p) (sy_world (pr_system p))"
  have s0: "system_inv (system_of sv w)" using process_inv_parts(1) [OF i0] by (simp add: process_of_def)
  have "fresh_fds K" using assms(1) by (simp add: system_kernel_def kernel_ok_def)
  then have f0: "system_flow (system_of sv w)" using main_start_flow(1) [OF _ _ _ assms(2)] by simp
  have "system_idle K (system_of sv w)" by (simp add: system_of_def list_all2_conv_all_nth idle_ok_def)
  from idle_ok_reachable [OF process_reaches [OF assms(3)] assms(1) s0 f0 this]
  have left: "wait_failed K (wd_os (sy_world (pr_system p))) wk" if "wk \<in> set (pr_workers p)" "wk_queue wk \<noteq> []" for wk
    using ended_queues that seq(4) by blast
  have "\<exists>n t e. EpollWait (epoll_fd wk) n t (Err e) \<in> set (wd_os ?w) \<and> e \<noteq> EINTR" if "wk \<in> set (pr_workers p)" "wk_queue wk \<noteq> []" for wk
    using wait_failed_same [OF left [OF that] main_exit_extends refl] by (rule wait_failed_event(1))
  moreover have "queued_fds (pr_workers p) = []" if "epoll_reliable K"
    using left wait_failed_event(2) that by (fastforce simp: queued_fds_def)
  moreover have "list_all (\<lambda>pc. pc = Stopped) (pr_pcs p)" using seq(4,5) by (simp add: list_all_length ended_def)
  moreover have "ended (length (pr_workers p)) (pr_system p)" "pr_final p = Some ?w" "ht_pc (pr_thread p) = Exited" "pr_stats p \<in> {NoThread, Ended}"
    using seq(4) by auto
  moreover note main_exit_releases [OF seq(1) this(1) refl, where K = K]
  ultimately show ?thesis by (intro exI [of _ ?w]) simp
qed

theorem process_exit_clean_witness:
  "\<exists>sv w p w'. main_start sample_kernel sample_files [''fluxgate''] [] = (Serving sv, w) \<and>
     (any_step (process_step sample_kernel))\<^sup>*\<^sup>* (process_of sv w) p \<and> pr_final p = Some w' \<and> open_fds (wd_os w') = {} \<and> closes_ok (wd_os w')"
proof -
  obtain sv w p where m: "main_start sample_kernel sample_files [''fluxgate''] [] = (Serving sv, w)" "pr_pc p = Returned"
    and r: "(any_step (process_step sample_kernel))\<^sup>*\<^sup>* ((process_of sv w)\<lparr> pr_system := signalHandler (system_of sv w) \<rparr>) p"
    using sample_shutdown by blast
  note run = converse_rtranclp_into_rtranclp [of "any_step (process_step sample_kernel)", OF sample_first_signal r]
  have "epoll_reliable sample_kernel" by (simp add: epoll_reliable_def sample_kernel_def)
  then show ?thesis using process_exit_clean [OF sample_system_kernel m(1) run m(2)] run m by blast
qed

text \<open>C7. The process shuts down. Under every fair schedule of its threads, once the signal flag is up (and \<^verbatim>\<open>main\<close> has not left its loop by
  an exception) \<^verbatim>\<open>main\<close> returns: no join waits for ever, no lost notification and no sleeping thread blocks it. What is asked is
  that the inner accept loop does not go on for ever, since it does not look at the flag, and that \<^verbatim>\<open>poll\<close> is not interrupted for ever.\<close>

theorem shutdown_terminates:
  assumes K: "system_kernel K B" "poll_bounded K B" and start: "main_start K files argv [] = (Serving sv, w)" "f 0 = process_of sv w"
    and run: "schedule (process_step K) f" "fair (process_step K) f"
    and flag: "sy_stopRequested (pr_system (f n))" "pr_pc (f n) \<noteq> Thrown"
    and accepts: "\<forall>k. \<exists>m\<ge>k. sy_main (pr_system (f m)) \<noteq> Accepting"
  shows "\<exists>m\<ge>n. pr_pc (f m) = Returned"
proof -
  obtain m where m: "m \<ge> n" "sy_main (pr_system (f m)) \<noteq> Accepting" using accepts by blast
  have "sy_stopRequested (pr_system (f (n + (m - n)))) \<and> pr_pc (f (n + (m - n))) \<noteq> Thrown"
    using flagged_step flag by (intro schedule_invariant [where I = "\<lambda>p. sy_stopRequested (pr_system p) \<and> pr_pc p \<noteq> Thrown", OF run(1)]) blast+
  then have "leaving (f m)" using m by (simp add: leaving_def)
  moreover have "process_inv K (f m)"
    using process_inv_reachable [OF _ K(1) process_inv_start [OF K(1) start(1)]] schedule_run [OF run(1), of 0 m] start(2) by simp
  ultimately have "live_inv K B (f m)" using K by (simp add: live_inv_def)
  from shutdown.reaches_goal [OF run this] show ?thesis using m(1) order_trans by blast
qed

theorem shutdown_terminates_witness:
  "\<exists>sv w f. main_start sample_kernel sample_files [''fluxgate''] [] = (Serving sv, w) \<and> f 0 = process_of sv w \<and>
     schedule (process_step sample_kernel) f \<and> fair (process_step sample_kernel) f \<and> sy_stopRequested (pr_system (f 1)) \<and>
     pr_pc (f 1) = AcceptLoop \<and> (\<exists>m\<ge>1. pr_pc (f m) = Returned)"
proof -
  obtain sv w p where m: "main_start sample_kernel sample_files [''fluxgate''] [] = (Serving sv, w)"
    and p: "pr_pc p = Returned" "process_inv sample_kernel p"
    and r: "(any_step (process_step sample_kernel))\<^sup>*\<^sup>* ((process_of sv w)\<lparr> pr_system := signalHandler (system_of sv w) \<rparr>) p"
    using sample_shutdown by blast
  obtain g n where g: "schedule (process_step sample_kernel) g" "g 0 = (process_of sv w)\<lparr> pr_system := signalHandler (system_of sv w) \<rparr>"
    "\<forall>m\<ge>n. g m = p" using run_schedule [OF r] by blast
  let ?f = "case_nat (process_of sv w) g"
  have sch: "schedule (process_step sample_kernel) ?f" using sample_first_signal g(1,2) by (intro schedule_Cons) simp_all
  have rest: "?f k = p" if "k \<ge> Suc n" for k using that g(3) by (cases k) auto
  then have fair: "fair (process_step sample_kernel) ?f" using returned_rests [OF p(1)] by (intro resting_fair) blast+
  have "sy_main (pr_system p) = Stopping" using p process_inv_parts(2) by (auto simp: past_loop_def)
  then have acc: "\<forall>k. \<exists>m\<ge>k. sy_main (pr_system (?f m)) \<noteq> Accepting" using rest by (metis main_pc.distinct(5) nat_le_linear)
  have one: "sy_stopRequested (pr_system (?f 1))" "pr_pc (?f 1) = AcceptLoop" using g(2) by (simp_all add: signalHandler_def process_of_def)
  have "\<exists>m\<ge>1. pr_pc (?f m) = Returned"
    using shutdown_terminates [OF sample_system_kernel sample_poll_bounded m _ sch fair one(1) _ acc] one(2) by simp
  then show ?thesis using m sch fair one by (intro exI [of _ sv] exI [of _ w] exI [of _ ?f]) simp
qed

end
